(* ===== verification/Prelude.thy ===== *)
theory Prelude
  imports Main "HOL-Library.Word"
begin

text \<open>
  Shared vocabulary of the development: the machine integer types of the C++ sources, the
  \<open>named_theorems\<close> collections the component theories fill, the \<open><cctype>\<close> classification
  functions of the C locale, decimal printing and parsing (\<open>std::to_string\<close>,
  \<open>operator<<\<close>), and the generic list, option and word lemmas that more than one
  component needs.

  A \<open>std::string\<close> is a \<open>string\<close> (a list of 8-bit characters) where the code treats it as
  text, and a \<open>byte list\<close> where it treats it as a binary buffer (frames, digests).
\<close>

unbundle bit_operations_syntax

section \<open>Machine integers\<close>

type_synonym byte = "8 word"
type_synonym u32 = "32 word"
type_synonym u64 = "64 word"

text \<open>\<open>int32_t\<close> shares the type of \<open>uint32_t\<close>; its value is read with \<^const>\<open>sint\<close>.\<close>

type_synonym i32 = "32 word"

section \<open>Collections filled by the components\<close>

named_theorems codec_simps \<open>widths and round trips of the wire codecs\<close>
named_theorems inv_intros \<open>each operation preserves its component's invariant\<close>
named_theorems frame_simps \<open>fields an operation leaves unchanged\<close>

section \<open>Lists\<close>

lemma take_drop_append_exact [simp]:
  "length xs = n \<Longrightarrow> take n (xs @ ys) = xs"
  "length xs = n \<Longrightarrow> drop n (xs @ ys) = ys"
  by auto

lemma takeWhile_dropWhile_split:
  "xs = takeWhile P xs @ dropWhile P xs"
  by simp

lemma list_all_upt_code: "(\<forall>k < n. P k) = list_all P [0..<n]"
  by (auto simp: list_all_iff)

lemma list_len2: "length xs = 2 \<Longrightarrow> \<exists>a b. xs = [a, b]"
  by (metis One_nat_def Suc_1 length_0_conv length_Suc_conv)

section \<open>Bytes, bit by bit\<close>

lemma byte_bit_high [simp]: "8 \<le> n \<Longrightarrow> \<not> bit (a :: byte) n"
  by (auto dest: bit_imp_le_length)

lemma byte_bit_eqI:
  fixes a b :: byte
  assumes "bit a 0 = bit b 0" "bit a 1 = bit b 1" "bit a 2 = bit b 2" "bit a 3 = bit b 3"
    and "bit a 4 = bit b 4" "bit a 5 = bit b 5" "bit a 6 = bit b 6" "bit a 7 = bit b 7"
  shows "a = b"
proof (rule bit_word_eqI)
  fix n
  assume "n < LENGTH(8)"
  then have "n \<in> {0, 1, 2, 3, 4, 5, 6, 7}" by auto
  then show "bit a n = bit b n" using assms by auto
qed

lemma byte_add_or: "a AND b = (0 :: byte) \<Longrightarrow> a + b = a OR b"
  by (rule disjunctive_add_eq_or)

section \<open>Characters: the C locale of <cctype>\<close>

definition code_of :: "char \<Rightarrow> nat" where
  "code_of c = of_char c"

definition isdigit :: "char \<Rightarrow> bool" where
  "isdigit c \<longleftrightarrow> 48 \<le> code_of c \<and> code_of c \<le> 57"

definition isupper :: "char \<Rightarrow> bool" where
  "isupper c \<longleftrightarrow> 65 \<le> code_of c \<and> code_of c \<le> 90"

definition islower :: "char \<Rightarrow> bool" where
  "islower c \<longleftrightarrow> 97 \<le> code_of c \<and> code_of c \<le> 122"

definition isalnum :: "char \<Rightarrow> bool" where
  "isalnum c \<longleftrightarrow> isdigit c \<or> isupper c \<or> islower c"

definition isxdigit :: "char \<Rightarrow> bool" where
  "isxdigit c \<longleftrightarrow> isdigit c
     \<or> (65 \<le> code_of c \<and> code_of c \<le> 70) \<or> (97 \<le> code_of c \<and> code_of c \<le> 102)"

text \<open>\<open>isspace\<close>: space, tab, newline, vertical tab, form feed, carriage return.\<close>

definition isspace :: "char \<Rightarrow> bool" where
  "isspace c \<longleftrightarrow> code_of c = 32 \<or> (9 \<le> code_of c \<and> code_of c \<le> 13)"

definition tolower :: "char \<Rightarrow> char" where
  "tolower c = (if isupper c then char_of (code_of c + 32) else c)"

definition toupper :: "char \<Rightarrow> char" where
  "toupper c = (if islower c then char_of (code_of c - 32) else c)"

lemma code_of_less [simp]: "code_of c < 256"
  unfolding code_of_def by (metis mod_less_divisor of_char_mod_256 zero_less_numeral)

lemma code_of_inj: "code_of c = code_of d \<longleftrightarrow> c = d"
  by (simp add: code_of_def)

lemma code_of_char_of [simp]: "n < 256 \<Longrightarrow> code_of (char_of n) = n"
  by (simp add: code_of_def of_char_of)

lemma char_of_code_of [simp]: "char_of (code_of c) = c"
  by (simp add: code_of_def)

lemma unat_of_char_byte [simp]: "unat (of_char c :: byte) = code_of c"
proof -
  have "(of_char c :: byte) = of_nat (of_char c)" by (simp add: of_nat_of_char)
  then show ?thesis
    by (simp add: code_of_def unsigned_of_nat take_bit_nat_eq_self_iff del: of_nat_of_char)
qed

lemma inj_of_char_byte: "inj (of_char :: char \<Rightarrow> byte)"
  by (rule injI) (metis code_of_inj unat_of_char_byte)

section \<open>Decimal numbers\<close>

definition digit_char :: "nat \<Rightarrow> char" where
  "digit_char d = char_of (48 + d)"

definition digit_val :: "char \<Rightarrow> nat" where
  "digit_val c = code_of c - 48"

lemma digit_char_props [simp]:
  "d < 10 \<Longrightarrow> isdigit (digit_char d)"
  "d < 10 \<Longrightarrow> digit_val (digit_char d) = d"
  "d < 10 \<Longrightarrow> code_of (digit_char d) = 48 + d"
  by (auto simp: digit_char_def digit_val_def isdigit_def)

fun show_nat :: "nat \<Rightarrow> string" where
  "show_nat n = (if n < 10 then [digit_char n] else show_nat (n div 10) @ [digit_char (n mod 10)])"

declare show_nat.simps [simp del]

definition show_int :: "int \<Rightarrow> string" where
  "show_int i = (if i < 0 then CHR ''-'' # show_nat (nat (- i)) else show_nat (nat i))"

definition digits_value :: "string \<Rightarrow> nat" where
  "digits_value ds = foldl (\<lambda>a c. 10 * a + digit_val c) 0 ds"

lemma show_nat_nonempty [simp]: "show_nat n \<noteq> []"
  by (subst show_nat.simps) simp

lemma show_nat_digits: "\<forall>c \<in> set (show_nat n). isdigit c"
proof (induction n rule: show_nat.induct)
  case (1 n)
  show ?case
  proof (cases "n < 10")
    case True
    then show ?thesis by (subst show_nat.simps) simp
  next
    case False
    with "1.IH" have "\<forall>c \<in> set (show_nat (n div 10)). isdigit c" by simp
    with False show ?thesis by (subst show_nat.simps) auto
  qed
qed

lemma digits_value_show [simp]: "digits_value (show_nat n) = n"
proof (induction n rule: show_nat.induct)
  case (1 n)
  show ?case
  proof (cases "n < 10")
    case True
    then show ?thesis by (subst show_nat.simps) (simp add: digits_value_def)
  next
    case False
    with "1.IH" have "digits_value (show_nat (n div 10)) = n div 10" by simp
    with False show ?thesis by (subst show_nat.simps) (simp add: digits_value_def)
  qed
qed

lemma show_nat_inj: "show_nat m = show_nat n \<Longrightarrow> m = n"
  by (metis digits_value_show)

lemma show_int_nonempty [simp]: "show_int i \<noteq> []"
  by (simp add: show_int_def)

section \<open>std::map\<close>

text \<open>
  A \<open>std::map\<close> is the list of its pairs in ascending key order, which is the order its iterators
  deliver; \<open>smap_put\<close> is \<open>m[k] = v\<close>, \<open>smap_erase\<close> is \<open>m.erase(k)\<close>, lookup is \<^const>\<open>map_of\<close>.
\<close>

fun smap_put :: "'k :: linorder \<Rightarrow> 'v \<Rightarrow> ('k \<times> 'v) list \<Rightarrow> ('k \<times> 'v) list" where
  "smap_put k v [] = [(k, v)]"
| "smap_put k v ((k', v') # r) =
     (if k < k' then (k, v) # (k', v') # r
      else if k = k' then (k, v) # r
      else (k', v') # smap_put k v r)"

definition smap_erase :: "'k \<Rightarrow> ('k \<times> 'v) list \<Rightarrow> ('k \<times> 'v) list" where
  "smap_erase k m = filter (\<lambda>p. fst p \<noteq> k) m"

definition smap_ok :: "('k :: linorder \<times> 'v) list \<Rightarrow> bool" where
  "smap_ok m \<longleftrightarrow> sorted (map fst m) \<and> distinct (map fst m)"

lemma smap_ok_Nil [simp]: "smap_ok []"
  by (simp add: smap_ok_def)

lemma set_smap_put: "p \<in> set (smap_put k v m) \<Longrightarrow> p = (k, v) \<or> p \<in> set m"
  by (induction k v m rule: smap_put.induct) (auto split: if_splits)

lemma smap_put_sorted:
  "sorted (map fst m) \<and> distinct (map fst m)
   \<Longrightarrow> sorted (map fst (smap_put k v m)) \<and> distinct (map fst (smap_put k v m))"
proof (induction k v m rule: smap_put.induct)
  case (2 k v k' v' r)
  then show ?case
    using set_smap_put [of _ k v r] by (fastforce split: if_splits)
qed simp

lemma smap_ok_put [simp, intro]: "smap_ok m \<Longrightarrow> smap_ok (smap_put k v m)"
  using smap_put_sorted by (simp add: smap_ok_def)

lemma smap_ok_erase [simp, intro]: "smap_ok m \<Longrightarrow> smap_ok (smap_erase k m)"
  by (simp add: smap_ok_def smap_erase_def distinct_map_filter sorted_filter)

lemma map_of_smap_put: "sorted (map fst m) \<Longrightarrow> map_of (smap_put k v m) = (map_of m)(k \<mapsto> v)"
  by (induction k v m rule: smap_put.induct) auto

lemma smap_lookup_put [simp]: "smap_ok m \<Longrightarrow> map_of (smap_put k v m) = (map_of m)(k \<mapsto> v)"
  by (simp add: smap_ok_def map_of_smap_put)

lemma smap_lookup_erase [simp]: "map_of (smap_erase k m) = (map_of m)(k := None)"
  by (induction m) (auto simp: smap_erase_def)

lemma smap_keys_put [simp]: "set (map fst (smap_put k v m)) = insert k (set (map fst m))"
  by (induction k v m rule: smap_put.induct) auto


section \<open>Stores addressed by a key\<close>

text \<open>
  The contract of \<open>m[k] = v\<close> followed by a lookup, shared by the ordered maps, the YAML mappings and the
  field tables: what a client may rely on after any sequence of assignments.
\<close>

locale keyed =
  fixes get :: "'k \<Rightarrow> 'm \<Rightarrow> 'v option"
    and put :: "'k \<Rightarrow> 'v \<Rightarrow> 'm \<Rightarrow> 'm"
    and ok :: "'m \<Rightarrow> bool"
  assumes ok_put: "ok m \<Longrightarrow> ok (put k v m)"
    and get_put_same: "ok m \<Longrightarrow> get k (put k v m) = Some v"
    and get_put_other: "ok m \<Longrightarrow> k' \<noteq> k \<Longrightarrow> get k' (put k v m) = get k' m"
begin

definition put_all :: "('k \<times> 'v) list \<Rightarrow> 'm \<Rightarrow> 'm" where
  "put_all kvs m = fold (\<lambda>(k, v). put k v) kvs m"

lemma put_all_ok: "ok m \<Longrightarrow> ok (put_all kvs m)"
  unfolding put_all_def by (induction kvs arbitrary: m) (auto simp: ok_put)

lemma get_put: "ok m \<Longrightarrow> get k' (put k v m) = (if k' = k then Some v else get k' m)"
  by (simp add: get_put_same get_put_other)

text \<open>The last assignment to a key decides; keys not assigned keep their value.\<close>

lemma last_put_wins:
  "ok m \<Longrightarrow> get k (put_all kvs m) = (case map_of (rev kvs) k of Some v \<Rightarrow> Some v | None \<Rightarrow> get k m)"
  unfolding put_all_def
proof (induction kvs arbitrary: m)
  case (Cons p kvs)
  obtain k' v' where p: "p = (k', v')" by (rule prod.exhaust)
  from Cons.prems have "ok (put k' v' m)" by (rule ok_put)
  from Cons.IH [OF this] Cons.prems show ?case
    by (auto simp: p get_put map_add_def split: option.splits)
qed simp

lemma put_overwrites: "ok m \<Longrightarrow> get k' (put k v (put k w m)) = get k' (put k v m)"
  by (simp add: get_put ok_put)

lemma put_commute: "ok m \<Longrightarrow> k \<noteq> l \<Longrightarrow> get k' (put k v (put l w m)) = get k' (put l w (put k v m))"
  by (simp add: get_put ok_put)

end

interpretation ordered: keyed "\<lambda>k m. map_of m k" smap_put smap_ok
  by unfold_locales auto

end
