(* ===== verification/Utils.thy ===== *)
theory Utils
  imports Prelude
begin

text \<open>
  The utilities of \<open>src/utils.cpp\<close> and \<open>include/utils.h\<close>: hex conversion, the file helpers, the
  local date, AES-128-CBC decryption (its guards and output assembly; the EVP calls are
  parameters), the global key file \<open>/tmp/global_key.dat\<close>, the truncations of the clock reads and
  the Base64 wrappers around OpenSSL, whose BIO chain is a parameter.
\<close>

section \<open>std::stoi\<close>

definition xdigit_val :: "char \<Rightarrow> nat" where
  "xdigit_val c = (if isdigit c then code_of c - 48
     else if isupper c then code_of c - 55 else code_of c - 87)"

definition base_digit :: "nat \<Rightarrow> char \<Rightarrow> bool" where
  "base_digit b c \<longleftrightarrow> (if b = 10 then isdigit c else isxdigit c)"

definition base_value :: "nat \<Rightarrow> string \<Rightarrow> nat" where
  "base_value b ds = foldl (\<lambda>a c. b * a + xdigit_val c) 0 ds"

definition int_max :: int where "int_max = 2147483647"

text \<open>
  \<open>std::stoi(s, nullptr, base)\<close> for base 10 and 16: leading blanks, a sign, the \<open>0x\<close> prefix of
  base 16, then the longest run of digits.  \<open>None\<close> is \<open>std::invalid_argument\<close> (no digit) or
  \<open>std::out_of_range\<close>; what follows the digits is ignored.
\<close>

definition strip_prefix :: "nat \<Rightarrow> string \<Rightarrow> string" where
  "strip_prefix b s = (case s of
     c # d # e # r \<Rightarrow> if b = 16 \<and> c = CHR ''0'' \<and> (d = CHR ''x'' \<or> d = CHR ''X'') \<and> isxdigit e
                    then e # r else s
   | _ \<Rightarrow> s)"

definition stoi :: "nat \<Rightarrow> string \<Rightarrow> int option" where
  "stoi b s =
     (let t = dropWhile isspace s;
          (neg, u) = (case t of c # r \<Rightarrow> if c = CHR ''-'' then (True, r)
                                       else if c = CHR ''+'' then (False, r) else (False, t)
                      | [] \<Rightarrow> (False, t));
          ds = takeWhile (base_digit b) (strip_prefix b u);
          v = (if neg then - int (base_value b ds) else int (base_value b ds))
      in if ds = [] \<or> v > int_max \<or> v < - int_max - 1 then None else Some v)"

lemma isxdigit_not_space: "isxdigit c \<Longrightarrow> \<not> isspace c"
  by (auto simp: isxdigit_def isspace_def isdigit_def)

lemma isdigit_facts:
  "isdigit c \<Longrightarrow> \<not> isspace c" "isdigit c \<Longrightarrow> c \<noteq> CHR ''-''" "isdigit c \<Longrightarrow> c \<noteq> CHR ''+''"
  "isdigit c \<Longrightarrow> c \<noteq> CHR ''=''" "isdigit c \<Longrightarrow> c \<noteq> CHR ''\<newline>''"
  by (auto simp: isdigit_def isspace_def code_of_def)

lemma isxdigit_no_sign: "isxdigit c \<Longrightarrow> c \<noteq> CHR ''-''" "isxdigit c \<Longrightarrow> c \<noteq> CHR ''+''"
  by (auto simp: isdigit_def isxdigit_def code_of_def)

lemma xdigit_val_less: "isxdigit c \<Longrightarrow> xdigit_val c < 16"
  by (auto simp: isxdigit_def xdigit_val_def isdigit_def isupper_def)

text \<open>Two hex digits, the only input \<open>hex_to_bytes\<close> gives it.\<close>

lemma stoi_hex2:
  assumes "isxdigit c" "isxdigit d"
  shows "stoi 16 [c, d] = Some (16 * int (xdigit_val c) + int (xdigit_val d))"
proof -
  have "xdigit_val c < 16" "xdigit_val d < 16" using assms xdigit_val_less by auto
  then show ?thesis
    using assms by (simp add: stoi_def isxdigit_not_space isxdigit_no_sign strip_prefix_def
        base_digit_def base_value_def int_max_def)
qed

lemma base_value_digits: "\<forall>c \<in> set ds. isdigit c \<Longrightarrow> base_value 10 ds = digits_value ds"
proof -
  have "\<forall>c \<in> set ds. isdigit c \<Longrightarrow> foldl (\<lambda>a c. 10 * a + xdigit_val c) n ds
      = foldl (\<lambda>a c. 10 * a + digit_val c) n ds" for n
    by (induction ds arbitrary: n) (auto simp: xdigit_val_def digit_val_def)
  then show "\<forall>c \<in> set ds. isdigit c \<Longrightarrow> base_value 10 ds = digits_value ds"
    by (simp add: base_value_def digits_value_def)
qed

lemma takeWhile_digits_show: "takeWhile (base_digit 10) (show_nat n) = show_nat n"
  using show_nat_digits by (simp add: base_digit_def takeWhile_eq_all_conv)

lemma strip_prefix_10 [simp]: "strip_prefix 10 s = s"
  by (simp add: strip_prefix_def split: list.splits)

lemma stoi_show_nat:
  assumes "int n \<le> int_max"
  shows "stoi 10 (show_nat n) = Some (int n)"
proof -
  obtain c r where cr: "show_nat n = c # r" using show_nat_nonempty by (cases "show_nat n") auto
  then have "isdigit c" using show_nat_digits [of n] by simp
  then have "dropWhile isspace (show_nat n) = show_nat n"
    and "(case show_nat n of c # r \<Rightarrow> if c = CHR ''-'' then (True, r)
           else if c = CHR ''+'' then (False, r) else (False, show_nat n)
          | [] \<Rightarrow> (False, show_nat n)) = (False, show_nat n)"
    by (simp_all add: cr isdigit_facts)
  then show ?thesis
    using assms base_value_digits [OF show_nat_digits, of n]
    by (simp add: stoi_def takeWhile_digits_show int_max_def)
qed

lemma stoi_show_int:
  assumes "- int_max - 1 \<le> k" "k \<le> int_max"
  shows "stoi 10 (show_int k) = Some k"
proof (cases "k < 0")
  case True
  then show ?thesis
    using assms base_value_digits [OF show_nat_digits, of "nat (- k)"]
    by (simp add: show_int_def stoi_def takeWhile_digits_show isspace_def code_of_def int_max_def)
next
  case False
  with assms stoi_show_nat [of "nat k"] show ?thesis by (simp add: show_int_def)
qed

section \<open>Hex conversion\<close>

datatype HexError = OddLength | InvalidHexCharacter | HexConversionFailed

text \<open>The loop of \<open>hex_to_bytes\<close>; the exceptions leave it as \<open>Inl\<close>.\<close>

fun hex_loop :: "string \<Rightarrow> byte list \<Rightarrow> HexError + byte list" where
  "hex_loop (c # d # r) bytes =
     (if \<not> isxdigit c \<or> \<not> isxdigit d then Inl InvalidHexCharacter
      else case stoi 16 [c, d] of
             None \<Rightarrow> Inl HexConversionFailed
           | Some v \<Rightarrow> hex_loop r (bytes @ [of_int v]))"
| "hex_loop _ bytes = Inr bytes"

definition hex_to_bytes :: "string \<Rightarrow> HexError + byte list" where
  "hex_to_bytes s = (if length s mod 2 \<noteq> 0 then Inl OddLength else hex_loop s [])"

definition bytes_to_hex :: "byte list \<Rightarrow> bool \<Rightarrow> string" where
  "bytes_to_hex bytes uppercase =
     (let hex_chars = (if uppercase then ''0123456789ABCDEF'' else ''0123456789abcdef'')
      in concat (map (\<lambda>b. [hex_chars ! unat (drop_bit 4 b), hex_chars ! unat (b AND 0xF)]) bytes))"

fun hex_pairs :: "string \<Rightarrow> byte list" where
  "hex_pairs (c # d # r) = of_int (16 * int (xdigit_val c) + int (xdigit_val d)) # hex_pairs r"
| "hex_pairs _ = []"

lemma hex_loop_eq:
  "even (length s) \<Longrightarrow> hex_loop s bytes
     = (if list_all isxdigit s then Inr (bytes @ hex_pairs s) else Inl InvalidHexCharacter)"
  by (induction s bytes rule: hex_loop.induct) (auto simp: stoi_hex2)

lemma hex_to_bytes_eq:
  "hex_to_bytes s =
     (if odd (length s) then Inl OddLength
      else if list_all isxdigit s then Inr (hex_pairs s) else Inl InvalidHexCharacter)"
  by (auto simp: hex_to_bytes_def hex_loop_eq odd_iff_mod_2_eq_one even_iff_mod_2_eq_zero)

lemma bytes_to_hex_Nil [simp]: "bytes_to_hex [] u = []"
  by (simp add: bytes_to_hex_def)

lemma bytes_to_hex_Cons:
  "bytes_to_hex (b # bs) u =
     (let hex_chars = (if u then ''0123456789ABCDEF'' else ''0123456789abcdef'')
      in hex_chars ! (unat b div 16) # hex_chars ! (unat b mod 16) # bytes_to_hex bs u)"
proof -
  have "unat (drop_bit 4 b) = unat b div 16"
    by (simp add: drop_bit_eq_div unat_div_distrib)
  moreover have "unat (b AND 0xF) = unat b mod 16"
  proof -
    have "b AND 0xF = take_bit 4 b" by (simp add: take_bit_eq_mask mask_eq_exp_minus_1)
    then show ?thesis by (simp add: take_bit_eq_mod unat_mod_distrib)
  qed
  ultimately show ?thesis by (simp add: bytes_to_hex_def Let_def)
qed

lemma hex_table_char_all:
  "list_all (\<lambda>n. isxdigit (''0123456789ABCDEF'' ! n) \<and> xdigit_val (''0123456789ABCDEF'' ! n) = n
     \<and> isxdigit (''0123456789abcdef'' ! n) \<and> xdigit_val (''0123456789abcdef'' ! n) = n) [0..<16]"
  by code_simp

lemma hex_table_char:
  assumes "n < 16"
  shows "isxdigit (''0123456789ABCDEF'' ! n)" "xdigit_val (''0123456789ABCDEF'' ! n) = n"
    and "isxdigit (''0123456789abcdef'' ! n)" "xdigit_val (''0123456789abcdef'' ! n) = n"
  using hex_table_char_all assms unfolding list_all_iff by auto

text \<open>The table entry of a digit's value is the digit in the requested case.\<close>

lemma isxdigit_cases:
  assumes "isxdigit c"
  shows "c \<in> set ''0123456789ABCDEFabcdef''"
proof -
  have "code_of c \<in> set ([48..<58] @ [65..<71] @ [97..<103])"
    using assms unfolding isxdigit_def isdigit_def set_append set_upt Un_iff atLeastLessThan_iff
    by linarith
  then have "char_of (code_of c) \<in> char_of ` set ([48..<58] @ [65..<71] @ [97..<103])"
    by (rule imageI)
  then have "c \<in> set (map char_of ([48..<58] @ [65..<71] @ [97..<103]))"
    by (simp only: set_map char_of_code_of)
  moreover have "map char_of ([48..<58] @ [65..<71] @ [97..<103]) = ''0123456789ABCDEFabcdef''"
    by code_simp
  ultimately show ?thesis by simp
qed

lemma hex_table_val_all:
  "list_all (\<lambda>c. ''0123456789ABCDEF'' ! xdigit_val c = toupper c
     \<and> ''0123456789abcdef'' ! xdigit_val c = tolower c) ''0123456789ABCDEFabcdef''"
  by (simp add: xdigit_val_def isdigit_def isupper_def islower_def toupper_def tolower_def code_of_def)
    code_simp

lemma hex_table_val:
  assumes "isxdigit c"
  shows "''0123456789ABCDEF'' ! xdigit_val c = toupper c"
    and "''0123456789abcdef'' ! xdigit_val c = tolower c"
  using hex_table_val_all isxdigit_cases [OF assms] unfolding list_all_iff by blast+

lemma hex_pairs_to_hex: "hex_pairs (bytes_to_hex bs u) = bs"
proof (induction bs)
  case (Cons b bs)
  have "unat b < 256" using unsigned_less [of b, where ?'a = nat] by simp
  then have "unat b div 16 < 16" by auto
  then have "hex_pairs (bytes_to_hex (b # bs) u)
      = of_int (16 * int (unat b div 16) + int (unat b mod 16)) # bs"
    using Cons by (simp add: bytes_to_hex_Cons Let_def hex_table_char)
  also have "16 * int (unat b div 16) + int (unat b mod 16) = int (unat b)"
    by presburger
  finally show ?case by simp
qed simp

lemma bytes_to_hex_chars: "list_all isxdigit (bytes_to_hex bs u)" "even (length (bytes_to_hex bs u))"
proof -
  show "even (length (bytes_to_hex bs u))"
    by (induction bs) (auto simp: bytes_to_hex_Cons Let_def)
  show "list_all isxdigit (bytes_to_hex bs u)"
  proof (induction bs)
    case (Cons b bs)
    have "unat b < 256" using unsigned_less [of b, where ?'a = nat] by simp
    then have "unat b div 16 < 16" by auto
    with Cons show ?case by (simp add: bytes_to_hex_Cons Let_def hex_table_char)
  qed simp
qed

lemma hex_roundtrip_lemma: "hex_to_bytes (bytes_to_hex bs u) = Inr bs"
  using bytes_to_hex_chars [of bs u] by (simp add: hex_to_bytes_eq hex_pairs_to_hex)

lemma to_hex_pairs:
  "even (length s) \<Longrightarrow> list_all isxdigit s
   \<Longrightarrow> bytes_to_hex (hex_pairs s) u = map (if u then toupper else tolower) s"
proof (induction s rule: hex_pairs.induct)
  case (1 c d r)
  then have v: "xdigit_val c < 16" "xdigit_val d < 16" "isxdigit c" "isxdigit d"
    using xdigit_val_less by auto
  then have "unat (of_int (16 * int (xdigit_val c) + int (xdigit_val d)) :: byte)
      = 16 * xdigit_val c + xdigit_val d"
  proof -
    have "(of_int (16 * int (xdigit_val c) + int (xdigit_val d)) :: byte)
        = of_nat (16 * xdigit_val c + xdigit_val d)" by simp
    then show ?thesis using v
      by (simp del: of_nat_add of_nat_mult add: unsigned_of_nat take_bit_nat_eq_self)
  qed
  with 1 v show ?case by (simp add: bytes_to_hex_Cons Let_def hex_table_val)
qed auto

section \<open>Date\<close>

text \<open>The formatting of \<open>get_current_date\<close> over the three fields it reads of \<open>std::tm\<close>.\<close>

definition get_current_date :: "int \<Rightarrow> int \<Rightarrow> int \<Rightarrow> string" where
  "get_current_date tm_year tm_mon tm_mday =
     (let year = tm_year + 1900; month = tm_mon + 1; day = tm_mday
      in show_int year @ (if month < 10 then ''0'' else []) @ show_int month
         @ (if day < 10 then ''0'' else []) @ show_int day)"

section \<open>Files\<close>

type_synonym fs = "string \<rightharpoonup> string"

definition file_exists :: "fs \<Rightarrow> string \<Rightarrow> bool" where
  "file_exists fs path = (fs path \<noteq> None)"

text \<open>\<open>opens\<close>: the stream could be opened; \<open>accepted\<close>: how many bytes the device took.  The stream's
  state is not looked at after the write.\<close>

definition write_file :: "bool \<Rightarrow> nat \<Rightarrow> string \<Rightarrow> string \<Rightarrow> fs \<Rightarrow> bool \<times> fs" where
  "write_file opens accepted path data fs =
     (if opens then (True, fs(path \<mapsto> take accepted data)) else (False, fs))"

text \<open>The POSIX branch; \<open>allowed\<close>: the kernel grants the rename of an existing file.\<close>

definition rename_file :: "bool \<Rightarrow> string \<Rightarrow> string \<Rightarrow> fs \<Rightarrow> bool \<times> fs" where
  "rename_file allowed old_path new_path fs =
     (case fs old_path of
        None \<Rightarrow> (False, fs)
      | Some c \<Rightarrow> if allowed then (True, (fs(old_path := None))(new_path \<mapsto> c)) else (False, fs))"

section \<open>AES-128-CBC decryption\<close>

datatype AesError = AesKeyLength | AesIvLength | AesDataLength | AesContext | AesInit | AesUpdate | AesFinal

text \<open>The OpenSSL calls: a context, the return of the init call, the bytes the update and the final
  call write (\<open>None\<close> for a return other than 1).\<close>

record evp =
  evp_ctx_new :: bool
  evp_init :: "byte list \<Rightarrow> byte list \<Rightarrow> bool"
  evp_update :: "byte list \<Rightarrow> byte list \<Rightarrow> byte list \<Rightarrow> byte list option"
  evp_final :: "byte list \<Rightarrow> byte list \<Rightarrow> byte list \<Rightarrow> byte list option"

definition aes_block_size :: nat where "aes_block_size = 16"

text \<open>\<open>plaintext\<close> is the zero-initialised vector; the calls write at its start and behind the
  bytes already written, \<open>resize\<close> cuts it to the total (growing would append zeros).\<close>

definition write_at :: "byte list \<Rightarrow> nat \<Rightarrow> byte list \<Rightarrow> byte list" where
  "write_at buf off src = take off buf @ src @ drop (off + length src) buf"

definition resize_to :: "nat \<Rightarrow> byte list \<Rightarrow> byte list" where
  "resize_to n buf = take n buf @ replicate (n - length buf) 0"

definition aes_decrypt :: "evp \<Rightarrow> byte list \<Rightarrow> byte list \<Rightarrow> byte list \<Rightarrow> AesError + byte list" where
  "aes_decrypt lib encrypted_bytes key iv =
     (if length key \<noteq> 16 then Inl AesKeyLength
      else if length iv \<noteq> aes_block_size then Inl AesIvLength
      else if encrypted_bytes = [] \<or> length encrypted_bytes mod aes_block_size \<noteq> 0 then Inl AesDataLength
      else if \<not> evp_ctx_new lib then Inl AesContext
      else
        (let plaintext = replicate (length encrypted_bytes) 0 in
         if \<not> evp_init lib key iv then Inl AesInit
         else case evp_update lib key iv encrypted_bytes of
           None \<Rightarrow> Inl AesUpdate
         | Some out1 \<Rightarrow>
             (let plaintext = write_at plaintext 0 out1; plaintext_len = length out1 in
              case evp_final lib key iv encrypted_bytes of
                None \<Rightarrow> Inl AesFinal
              | Some out2 \<Rightarrow>
                  (let plaintext = write_at plaintext plaintext_len out2;
                       plaintext_len = plaintext_len + length out2
                   in Inr (resize_to plaintext_len plaintext)))))"

section \<open>The global key file\<close>

datatype global_key_t = VIN | CURRENT_ICCID | BATTERY_PACK_SN | TBOX_SN | TBOX_MCU_VERSION

fun key_value :: "global_key_t \<Rightarrow> int" where
  "key_value VIN = 1"
| "key_value CURRENT_ICCID = 2"
| "key_value BATTERY_PACK_SN = 3"
| "key_value TBOX_SN = 11"
| "key_value TBOX_MCU_VERSION = 101"

text \<open>The lines \<open>std::getline\<close> delivers: an unterminated last line counts unless it is empty.\<close>

fun getlines_from :: "string \<Rightarrow> string \<Rightarrow> string list" where
  "getlines_from acc [] = (if acc = [] then [] else [acc])"
| "getlines_from acc (c # r) =
     (if c = CHR ''\<newline>'' then acc # getlines_from [] r else getlines_from (acc @ [c]) r)"

definition getlines :: "string \<Rightarrow> string list" where
  "getlines s = getlines_from [] s"

text \<open>One line: the key before the first \<open>=\<close> and the value behind it, if there is a key.\<close>

definition parse_line :: "string \<Rightarrow> (int \<times> string) option" where
  "parse_line line =
     (case dropWhile (\<lambda>c. c \<noteq> CHR ''='') line of
        [] \<Rightarrow> None
      | _ # val \<Rightarrow> (case stoi 10 (takeWhile (\<lambda>c. c \<noteq> CHR ''='') line) of
                     None \<Rightarrow> None | Some k \<Rightarrow> Some (k, val)))"

definition kv_load :: "string list \<Rightarrow> (int \<times> string) list" where
  "kv_load ls =
     foldl (\<lambda>kv line. case parse_line line of None \<Rightarrow> kv | Some (k, v) \<Rightarrow> smap_put k v kv) [] ls"

definition kv_render :: "(int \<times> string) list \<Rightarrow> string" where
  "kv_render kv = concat (map (\<lambda>(k, v). show_int k @ CHR ''='' # v @ [CHR ''\<newline>'']) kv)"

text \<open>The file is \<open>None\<close> when it does not exist; \<open>writable\<close>: the output stream could be opened (a
  failure to open it is not noticed).\<close>

definition global_write_string :: "bool \<Rightarrow> global_key_t \<Rightarrow> string \<Rightarrow> string option \<Rightarrow> string option" where
  "global_write_string writable gk val file =
     (let kv = kv_load (case file of None \<Rightarrow> [] | Some s \<Rightarrow> getlines s);
          kv' = smap_put (key_value gk) val kv
      in if writable then Some (kv_render kv') else file)"

fun read_loop :: "int \<Rightarrow> string list \<Rightarrow> string" where
  "read_loop k [] = []"
| "read_loop k (line # r) =
     (case parse_line line of
        None \<Rightarrow> read_loop k r
      | Some (k', v) \<Rightarrow> if k' = k then v else read_loop k r)"

definition global_read_string :: "global_key_t \<Rightarrow> string option \<Rightarrow> string" where
  "global_read_string gk file =
     (case file of None \<Rightarrow> [] | Some s \<Rightarrow> read_loop (key_value gk) (getlines s))"

subsection \<open>Lines\<close>

lemma getlines_from_line:
  "CHR ''\<newline>'' \<notin> set l \<Longrightarrow> getlines_from acc (l @ CHR ''\<newline>'' # r) = (acc @ l) # getlines_from [] r"
  by (induction l arbitrary: acc) auto

lemma getlines_no_newline: "l \<in> set (getlines_from acc s) \<Longrightarrow> CHR ''\<newline>'' \<notin> set acc \<Longrightarrow> CHR ''\<newline>'' \<notin> set l"
  by (induction acc s rule: getlines_from.induct) (auto split: if_splits)

lemma show_int_chars: "c \<in> set (show_int k) \<Longrightarrow> c = CHR ''-'' \<or> isdigit c"
  using show_nat_digits by (auto simp: show_int_def split: if_splits)

lemma show_int_no_eq: "CHR ''='' \<notin> set (show_int k)" "CHR ''\<newline>'' \<notin> set (show_int k)"
  using show_int_chars isdigit_facts(4,5) by fastforce+

lemma parse_line_render:
  assumes "- int_max - 1 \<le> k" "k \<le> int_max"
  shows "parse_line (show_int k @ CHR ''='' # v) = Some (k, v)"
proof -
  have "takeWhile (\<lambda>c. c \<noteq> CHR ''='') (show_int k @ CHR ''='' # v) = show_int k"
    and "dropWhile (\<lambda>c. c \<noteq> CHR ''='') (show_int k @ CHR ''='' # v) = CHR ''='' # v"
    using show_int_no_eq(1) [of k] by (auto simp: takeWhile_append dropWhile_append)
  with assms show ?thesis by (simp add: parse_line_def stoi_show_int)
qed

lemma parse_line_range: "parse_line l = Some (k, v) \<Longrightarrow> - int_max - 1 \<le> k \<and> k \<le> int_max"
  by (auto simp: parse_line_def stoi_def Let_def split: list.splits option.splits if_splits prod.splits)

lemma parse_line_newline: "parse_line l = Some (k, v) \<Longrightarrow> c \<in> set v \<Longrightarrow> c \<in> set l"
  by (auto simp: parse_line_def split: list.splits option.splits
      intro: set_dropWhileD [of c "\<lambda>c. c \<noteq> CHR ''=''"])

text \<open>A table the file can hold: keys in the range of \<open>int\<close>, values without line ends.\<close>

definition kv_ok :: "(int \<times> string) list \<Rightarrow> bool" where
  "kv_ok kv \<longleftrightarrow> sorted (map fst kv) \<and> distinct (map fst kv)
     \<and> (\<forall>(k, v) \<in> set kv. - int_max - 1 \<le> k \<and> k \<le> int_max \<and> CHR ''\<newline>'' \<notin> set v)"

lemma kv_ok_assign [inv_intros]:
  "kv_ok kv \<Longrightarrow> - int_max - 1 \<le> k \<Longrightarrow> k \<le> int_max \<Longrightarrow> CHR ''\<newline>'' \<notin> set v \<Longrightarrow> kv_ok (smap_put k v kv)"
  using smap_put_sorted [of kv k v] set_smap_put [of _ k v kv] by (fastforce simp: kv_ok_def)

lemma kv_ok_load: "(\<And>l. l \<in> set ls \<Longrightarrow> CHR ''\<newline>'' \<notin> set l) \<Longrightarrow> kv_ok (kv_load ls)"
proof (induction ls rule: rev_induct)
  case Nil
  then show ?case by (simp add: kv_load_def kv_ok_def)
next
  case (snoc l ls)
  then have "kv_ok (kv_load ls)" by auto
  with snoc.prems [of l] show ?case
    by (auto simp: kv_load_def split: option.splits
        intro!: kv_ok_assign dest: parse_line_range parse_line_newline)
qed

lemma getlines_render: "kv_ok kv \<Longrightarrow> getlines (kv_render kv) = map (\<lambda>(k, v). show_int k @ CHR ''='' # v) kv"
proof (induction kv)
  case Nil
  then show ?case by (simp add: kv_render_def getlines_def)
next
  case (Cons p kv)
  obtain k v where p: "p = (k, v)" by (cases p)
  have "CHR ''\<newline>'' \<notin> set (show_int k @ CHR ''='' # v)"
    using Cons.prems show_int_no_eq(2) [of k] by (simp add: kv_ok_def p)
  moreover have "kv_ok kv" using Cons.prems by (simp add: kv_ok_def)
  ultimately show ?case
    using Cons.IH getlines_from_line [of "show_int k @ CHR ''='' # v" "[]" "kv_render kv"]
    by (simp add: getlines_def kv_render_def p)
qed

lemma read_loop_render:
  "kv_ok kv \<Longrightarrow> read_loop k (map (\<lambda>(k, v). show_int k @ CHR ''='' # v) kv)
     = (case map_of kv k of None \<Rightarrow> [] | Some v \<Rightarrow> v)"
proof (induction kv)
  case (Cons p kv)
  then have "kv_ok kv" by (simp add: kv_ok_def)
  with Cons parse_line_render [of "fst p" "snd p"] show ?case
    by (cases p) (auto simp: kv_ok_def)
qed simp

text \<open>What a file says, and that a write of a clean value updates exactly that.\<close>

definition kv_of_file :: "string option \<Rightarrow> int \<rightharpoonup> string" where
  "kv_of_file file = map_of (kv_load (case file of None \<Rightarrow> [] | Some s \<Rightarrow> getlines s))"

lemma kv_ok_of_file: "kv_ok (kv_load (case file of None \<Rightarrow> [] | Some s \<Rightarrow> getlines s))"
  by (cases "file") (auto simp: getlines_def intro!: kv_ok_load dest: getlines_no_newline)

lemma kv_load_render: 
  assumes ok: "kv_ok kv"
  shows "map_of (kv_load (getlines (kv_render kv))) = map_of kv"
proof -
  have "kv_ok kv \<Longrightarrow> kv_ok acc \<Longrightarrow>
      map_of (foldl (\<lambda>kv line. case parse_line line of None \<Rightarrow> kv | Some (k, v) \<Rightarrow> smap_put k v kv)
        acc (map (\<lambda>(k, v). show_int k @ CHR ''='' # v) kv)) = map_of acc ++ map_of kv" for acc
  proof (induction kv arbitrary: acc)
    case Nil
    then show ?case by (simp add: kv_ok_def)
  next
    case (Cons p kv)
    obtain k v where p: "p = (k, v)" by (cases p)
    have k: "- int_max - 1 \<le> k" "k \<le> int_max" "CHR ''\<newline>'' \<notin> set v" and ok: "kv_ok kv"
      and new: "k \<notin> set (map fst kv)"
      using Cons.prems by (auto simp: kv_ok_def p)
    have acc: "kv_ok (smap_put k v acc)" "sorted (map fst acc)"
      using Cons.prems(2) k by (simp_all add: kv_ok_assign) (simp add: kv_ok_def)
    from new have "k \<notin> dom (map_of kv)" by (simp add: dom_map_of_conv_image_fst)
    then show ?case
      using Cons.IH [OF ok acc(1)] parse_line_render [OF k(1,2), of v]
      by (auto simp: p map_of_smap_put [OF acc(2)] map_add_def fun_eq_iff dom_def split: option.splits)
  qed
  from this [OF ok, of "[]"] show ?thesis
    by (simp add: kv_load_def getlines_render [OF ok] kv_ok_def)
qed

lemma key_value_range: "- int_max - 1 \<le> key_value gk" "key_value gk \<le> int_max"
  by (cases gk; simp add: int_max_def)+

lemma kv_of_write:
  assumes "CHR ''\<newline>'' \<notin> set v"
  shows "kv_of_file (global_write_string True gk v file) = (kv_of_file file)(key_value gk \<mapsto> v)"
    and "kv_ok (smap_put (key_value gk) v (kv_load (case file of None \<Rightarrow> [] | Some s \<Rightarrow> getlines s)))"
proof -
  let ?kv = "kv_load (case file of None \<Rightarrow> [] | Some s \<Rightarrow> getlines s)"
  show ok: "kv_ok (smap_put (key_value gk) v ?kv)"
    by (intro kv_ok_assign kv_ok_of_file key_value_range assms)
  have "sorted (map fst ?kv)" using kv_ok_of_file by (simp add: kv_ok_def)
  with kv_load_render [OF ok]
  show "kv_of_file (global_write_string True gk v file) = (kv_of_file file)(key_value gk \<mapsto> v)"
    by (simp add: kv_of_file_def global_write_string_def Let_def map_of_smap_put)
qed

lemma read_after_write:
  assumes "CHR ''\<newline>'' \<notin> set v"
  shows "global_read_string gk' (global_write_string True gk v file)
    = (case ((kv_of_file file)(key_value gk \<mapsto> v)) (key_value gk') of None \<Rightarrow> [] | Some x \<Rightarrow> x)"
proof -
  let ?kv = "kv_load (case file of None \<Rightarrow> [] | Some s \<Rightarrow> getlines s)"
  have "kv_ok (smap_put (key_value gk) v ?kv)" by (rule kv_of_write(2) [OF assms])
  moreover have "sorted (map fst ?kv)" using kv_ok_of_file by (simp add: kv_ok_def)
  ultimately show ?thesis
    by (simp add: global_read_string_def global_write_string_def Let_def getlines_render
        read_loop_render map_of_smap_put kv_of_file_def)
qed

section \<open>Properties\<close>

text \<open>\<open>hex_to_bytes\<close> inverts \<open>bytes_to_hex\<close> in either case.\<close>

theorem hex_roundtrip: "hex_to_bytes (bytes_to_hex bytes uppercase) = Inr bytes"
  by (rule hex_roundtrip_lemma)

text \<open>\<open>hex_to_bytes\<close> accepts exactly the strings of an even number of hex digits (it never fails in
  \<open>std::stoi\<close>), and printing what it accepted gives the input back up to the case of its letters.\<close>

theorem hex_to_bytes_exact:
  "case hex_to_bytes s of
     Inl e \<Rightarrow> (e = OddLength \<and> odd (length s))
       \<or> (e = InvalidHexCharacter \<and> even (length s) \<and> (\<exists>c \<in> set s. \<not> isxdigit c))
   | Inr bytes \<Rightarrow> length s = 2 * length bytes \<and> bytes_to_hex bytes False = map tolower s
       \<and> bytes_to_hex bytes True = map toupper s"
proof (cases "even (length s) \<and> list_all isxdigit s")
  case True
  moreover have "even (length s) \<Longrightarrow> length s = 2 * length (hex_pairs s)"
    by (induction s rule: hex_pairs.induct) auto
  ultimately show ?thesis by (simp add: hex_to_bytes_eq to_hex_pairs)
next
  case False
  then show ?thesis by (auto simp: hex_to_bytes_eq list_all_iff)
qed

text \<open>Writing a value without a line end to the global key file, whatever the file held, sets
  exactly that key in the table the file stands for; every later read of any key sees the result.\<close>

theorem global_write_updates:
  assumes "CHR ''\<newline>'' \<notin> set v"
  shows "kv_of_file (global_write_string True gk v file) = (kv_of_file file)(key_value gk \<mapsto> v)
    \<and> global_read_string gk (global_write_string True gk v file) = v
    \<and> (gk' \<noteq> gk \<longrightarrow> global_read_string gk' (global_write_string True gk v file)
         = (case kv_of_file file (key_value gk') of None \<Rightarrow> [] | Some x \<Rightarrow> x))"
proof -
  have "gk' \<noteq> gk \<Longrightarrow> key_value gk' \<noteq> key_value gk" by (cases gk; cases gk') auto
  then show ?thesis
    using kv_of_write(1) [OF assms] read_after_write [OF assms] by auto
qed

theorem global_write_updates_witness:
  "global_read_string VIN (global_write_string True VIN ''LSV123'' (Some ''junk'')) = ''LSV123''"
  using global_write_updates [of "''LSV123''" VIN "Some ''junk''" TBOX_SN] by simp

text \<open>A value with a line end is not stored as one value: the read gives the part before it, and the
  rest of the value can set another key.\<close>

theorem global_write_injects:
  "let file = global_write_string True BATTERY_PACK_SN ''B1'' None;
       file' = global_write_string True CURRENT_ICCID (''A'' @ [CHR ''\<newline>''] @ ''3=EVIL'') file
   in global_read_string BATTERY_PACK_SN file = ''B1''
      \<and> global_read_string CURRENT_ICCID file' = ''A''
      \<and> global_read_string BATTERY_PACK_SN file' = ''EVIL''"
  by code_simp

text \<open>\<open>aes_decrypt\<close> refuses a key, an IV or a ciphertext of the wrong length before any library
  call, and otherwise returns exactly the bytes the library wrote: the update's followed by the
  final block's, when they fit the buffer.\<close>

theorem aes_decrypt_result:
  assumes "\<And>out1 out2. evp_update lib key iv data = Some out1 \<Longrightarrow> evp_final lib key iv data = Some out2
             \<Longrightarrow> length out1 + length out2 \<le> length data"
  shows "aes_decrypt lib data key iv =
    (if length key \<noteq> 16 then Inl AesKeyLength
     else if length iv \<noteq> 16 then Inl AesIvLength
     else if length data mod 16 \<noteq> 0 \<or> length data = 0 then Inl AesDataLength
     else if \<not> evp_ctx_new lib then Inl AesContext
     else if \<not> evp_init lib key iv then Inl AesInit
     else case (evp_update lib key iv data, evp_final lib key iv data) of
       (None, _) \<Rightarrow> Inl AesUpdate
     | (Some out1, None) \<Rightarrow> Inl AesFinal
     | (Some out1, Some out2) \<Rightarrow> Inr (out1 @ out2))"
proof (cases "evp_update lib key iv data")
  case (Some out1)
  then show ?thesis
  proof (cases "evp_final lib key iv data")
    case (Some out2)
    with \<open>evp_update lib key iv data = Some out1\<close> assms [of out1 out2]
    have "length out1 + length out2 \<le> length data" by simp
    then show ?thesis
      using Some \<open>evp_update lib key iv data = Some out1\<close>
      by (simp add: aes_decrypt_def aes_block_size_def write_at_def resize_to_def)
  qed (simp add: aes_decrypt_def aes_block_size_def Let_def)
qed (simp add: aes_decrypt_def aes_block_size_def Let_def)

theorem aes_decrypt_result_witness:
  "aes_decrypt \<lparr>evp_ctx_new = True, evp_init = (\<lambda>k v. True), evp_update = (\<lambda>k v d. Some (take 8 d)),
     evp_final = (\<lambda>k v d. Some [9])\<rparr> (replicate 16 1) (replicate 16 2) (replicate 16 3)
   = Inr (replicate 8 1 @ [9])"
  by (subst aes_decrypt_result) auto

section \<open>Clock\<close>

text \<open>
  The three readings of the system clock, from its count of nanoseconds: \<open>duration_cast\<close> truncates towards
  zero.
\<close>

definition trunc_div :: "int \<Rightarrow> int \<Rightarrow> int" where
  "trunc_div a b = sgn a * (\<bar>a\<bar> div b)"

definition get_current_timestamp_sec :: "int \<Rightarrow> int" where
  "get_current_timestamp_sec now_ns = trunc_div now_ns 1000000000"

definition get_current_timestamp_ms :: "int \<Rightarrow> int" where
  "get_current_timestamp_ms now_ns = trunc_div now_ns 1000000"

definition get_current_timestamp_us :: "int \<Rightarrow> int" where
  "get_current_timestamp_us now_ns = trunc_div now_ns 1000"

lemma trunc_div_pos: "0 \<le> a \<Longrightarrow> trunc_div a b = a div b"
  by (cases "a = 0") (simp_all add: trunc_div_def)

lemma trunc_div_minus: "trunc_div (- a) b = - trunc_div a b"
  by (simp add: trunc_div_def sgn_minus)

lemma trunc_div_trunc_div:
  assumes "0 < b" "0 < c"
  shows "trunc_div (trunc_div a b) c = trunc_div a (b * c)"
proof -
  have pos: "trunc_div (trunc_div x b) c = trunc_div x (b * c)" if "0 \<le> x" for x
    using that assms zdiv_zmult2_eq [of c x b] pos_imp_zdiv_nonneg_iff [OF assms(1), of x]
    by (simp only: trunc_div_pos)
  show ?thesis
  proof (cases "0 \<le> a")
    case False
    then have "trunc_div (trunc_div (- a) b) c = trunc_div (- a) (b * c)" by (intro pos) simp
    then show ?thesis by (simp only: trunc_div_minus neg_equal_iff_equal)
  qed (rule pos)
qed

text \<open>The three clock reads agree: the coarser value is the finer one divided again.\<close>

lemma timestamps_agree:
  "get_current_timestamp_sec t = trunc_div (get_current_timestamp_ms t) 1000"
  "get_current_timestamp_ms t = trunc_div (get_current_timestamp_us t) 1000"
  by (simp_all add: get_current_timestamp_sec_def get_current_timestamp_ms_def get_current_timestamp_us_def
      trunc_div_trunc_div)

section \<open>Base64 through OpenSSL\<close>

text \<open>
  What the BIO chain does: the bytes encoding leaves in the memory buffer, and what one \<open>BIO_read\<close> of at most
  so many bytes returns and writes.
\<close>

record bio =
  bio_encoded :: "string \<Rightarrow> string"
  bio_read :: "string \<Rightarrow> nat \<Rightarrow> int \<times> string"

definition base64_encode :: "bio \<Rightarrow> string \<Rightarrow> string" where
  "base64_encode lib input = bio_encoded lib input"

text \<open>
  \<open>BIO_new_mem_buf\<close> with length -1 measures the text with \<open>strlen\<close>.  A negative return becomes the size of
  the result: \<open>std::string\<close> throws \<open>std::length_error\<close> (None).
\<close>

definition base64_decode :: "bio \<Rightarrow> string \<Rightarrow> string option" where
  "base64_decode lib input =
     (let decodeLen = length input;
          (len, bytes) = bio_read lib (takeWhile (\<lambda>c. c \<noteq> CHR 0x00) input) decodeLen
      in if len < 0 then None else Some (take (nat len) (bytes @ replicate (decodeLen - length bytes) CHR 0x00)))"

text \<open>
  With a library that reads back what it encodes, in text without NUL bytes, decoding an encoded text gives it
  back, binary content included.  An input the library rejects with a negative count throws out of
  \<open>base64_decode\<close> instead of giving an empty text.
\<close>

lemma openssl_base64_roundtrip:
  assumes "CHR 0x00 \<notin> set (bio_encoded lib s)"
    and "bio_read lib (bio_encoded lib s) (length (bio_encoded lib s)) = (int (length s), s)"
  shows "base64_decode lib (base64_encode lib s) = Some s"
proof -
  have "takeWhile (\<lambda>c. c \<noteq> CHR 0x00) (bio_encoded lib s) = bio_encoded lib s"
    using assms(1) by (auto simp: takeWhile_eq_all_conv)
  then show ?thesis unfolding base64_decode_def base64_encode_def Let_def by (simp only: assms(2)) simp
qed

lemma openssl_base64_rejects:
  assumes "bio_read lib (takeWhile (\<lambda>c. c \<noteq> CHR 0x00) bad) (length bad) = (n, bs)" "n < 0"
  shows "base64_decode lib bad = None"
  using assms by (simp add: base64_decode_def)

end
