(* ===== verification/Store_Io.thy ===== *)
theory Store_Io
  imports Prelude "HOL-Library.Sublist"
begin

text \<open>
  The file layer of the store: \<open>PathResolver\<close> (\<open>src/store/store_path_resolver.cpp\<close>) and
  \<open>AtomicWriter\<close> (\<open>src/store/store_atomic_writer.cpp\<close>) over a model of what the POSIX calls they
  make promise.  A disk has directory entries, inodes with their bytes, and, for power loss, the
  entries each path may fall back to and the inodes whose bytes are on the medium.  Paths are
  compared as strings; \<open>Store_Names\<close> shows that keys without a slash have only one spelling, and what
  others (\<open>./k\<close>, \<open>a/../k\<close>) reach.
\<close>

section \<open>The disk\<close>

record disk =
  names :: "string \<rightharpoonup> nat"
  bytes_of :: "nat \<Rightarrow> string"
  synced :: "nat \<Rightarrow> bool"
  kept :: "string \<Rightarrow> nat option list"
  fresh :: nat
  dirs :: "string \<Rightarrow> bool"

definition file_at :: "disk \<Rightarrow> string \<Rightarrow> string option" where
  "file_at d p = map_option (bytes_of d) (names d p)"

subsection \<open>System calls\<close>

text \<open>\<open>open(p, O_WRONLY | O_CREAT | O_TRUNC)\<close>: the inode, emptied or new.\<close>

definition sys_creat :: "string \<Rightarrow> disk \<Rightarrow> nat \<times> disk" where
  "sys_creat p d =
     (case names d p of
        Some i \<Rightarrow> (i, d\<lparr>bytes_of := (bytes_of d)(i := []), synced := (synced d)(i := False)\<rparr>)
      | None \<Rightarrow> (fresh d, d\<lparr>names := (names d)(p \<mapsto> fresh d), kept := (kept d)(p := kept d p @ [Some (fresh d)]),
                    bytes_of := (bytes_of d)(fresh d := []), synced := (synced d)(fresh d := False),
                    fresh := fresh d + 1\<rparr>))"

definition sys_write :: "nat \<Rightarrow> string \<Rightarrow> disk \<Rightarrow> disk" where
  "sys_write i bs d = d\<lparr>bytes_of := (bytes_of d)(i := bytes_of d i @ bs), synced := (synced d)(i := False)\<rparr>"

definition sys_fsync :: "nat \<Rightarrow> disk \<Rightarrow> disk" where
  "sys_fsync i d = d\<lparr>synced := (synced d)(i := True)\<rparr>"

definition sys_rename :: "string \<Rightarrow> string \<Rightarrow> disk \<Rightarrow> disk option" where
  "sys_rename a b d =
     (case names d a of
        None \<Rightarrow> None
      | Some i \<Rightarrow> Some (d\<lparr>names := (names d)(a := None, b \<mapsto> i),
                     kept := (kept d)(a := kept d a @ [None], b := kept d b @ [Some i])\<rparr>))"

definition sys_unlink :: "string \<Rightarrow> disk \<Rightarrow> disk" where
  "sys_unlink p d =
     (if names d p = None then d
      else d\<lparr>names := (names d)(p := None), kept := (kept d)(p := kept d p @ [None])\<rparr>)"

text \<open>\<open>fsync\<close> of a directory: its entries are on the medium as they are now.\<close>

definition sys_fsync_dir :: "string \<Rightarrow> disk \<Rightarrow> disk" where
  "sys_fsync_dir dir d = d\<lparr>kept := (\<lambda>p. if prefix dir p then [names d p] else kept d p)\<rparr>"

text \<open>Power loss: each path falls back to an entry it may still have, synced inodes keep their bytes.\<close>

definition crash :: "disk \<Rightarrow> disk \<Rightarrow> bool" where
  "crash d d' \<longleftrightarrow> (\<forall>p. names d' p \<in> set (kept d p)) \<and> (\<forall>i. synced d i \<longrightarrow> bytes_of d' i = bytes_of d i)"

section \<open>PathResolver\<close>

record PathResolver =
  m_serviceName :: string
  m_storeRoot :: string

text \<open>The constructor throws \<open>std::invalid_argument\<close> on an empty service name (\<open>None\<close>).\<close>

definition PathResolver_new :: "string \<Rightarrow> string \<Rightarrow> PathResolver option" where
  "PathResolver_new serviceName storeRoot =
     (if serviceName = [] then None
      else Some \<lparr>m_serviceName = serviceName,
                 m_storeRoot = (if storeRoot \<noteq> [] \<and> last storeRoot \<noteq> CHR ''/'' then storeRoot @ ''/'' else storeRoot)\<rparr>)"

definition getStorePath :: "PathResolver \<Rightarrow> string" where
  "getStorePath pr = m_storeRoot pr @ m_serviceName pr @ ''/''"

definition getKeyPath :: "PathResolver \<Rightarrow> string \<Rightarrow> string" where
  "getKeyPath pr key = getStorePath pr @ key @ ''.dat''"

definition getTempPath :: "PathResolver \<Rightarrow> string \<Rightarrow> string" where
  "getTempPath pr key = getKeyPath pr key @ ''.tmp''"

definition getLockFilePath :: "PathResolver \<Rightarrow> string \<Rightarrow> string" where
  "getLockFilePath pr key = getKeyPath pr key @ ''.lock''"

text \<open>\<open>mk p\<close>: the kernel creates directory \<open>p\<close> when asked to.\<close>

definition ensureDirectory :: "(string \<Rightarrow> bool) \<Rightarrow> PathResolver \<Rightarrow> disk \<Rightarrow> bool \<times> disk" where
  "ensureDirectory mk pr d =
     (let root = m_storeRoot pr; svc = getStorePath pr;
          step = (\<lambda>p d. if dirs d p then (True, d)
                        else if mk p then (True, d\<lparr>dirs := (dirs d)(p := True)\<rparr>) else (False, d));
          (ok, d1) = step root d
      in if \<not> ok then (False, d1) else step svc d1)"

lemma ensureDirectory_ready:
  "ensureDirectory mk pr d = (True, d') \<Longrightarrow> dirs d' (m_storeRoot pr) \<and> dirs d' (getStorePath pr)"
  by (auto simp: ensureDirectory_def Let_def split: if_splits)

text \<open>Data, temporary and lock files of any keys never share a path.\<close>

definition data_path :: "string \<Rightarrow> bool" where
  "data_path p \<longleftrightarrow> suffix ''.dat'' p"

definition temp_path :: "string \<Rightarrow> bool" where
  "temp_path p \<longleftrightarrow> suffix ''.dat.tmp'' p"

lemma data_temp_disjoint: "data_path p \<Longrightarrow> temp_path p \<Longrightarrow> False"
proof -
  assume "data_path p" "temp_path p"
  then obtain a b where "p = a @ ''.dat''" "p = b @ ''.dat.tmp''"
    unfolding data_path_def temp_path_def suffix_def by auto
  then have "last p = CHR ''t''" "last p = CHR ''p''" by auto
  then show False by simp
qed

lemma key_path_data [simp]: "data_path (getKeyPath pr key)"
  by (simp add: data_path_def getKeyPath_def suffix_def)

lemma temp_path_temp [simp]: "temp_path (getTempPath pr key)"
  by (simp add: temp_path_def getTempPath_def getKeyPath_def suffix_def)

lemma getKeyPath_inj [simp]: "getKeyPath pr k = getKeyPath pr k' \<longleftrightarrow> k = k'"
  by (simp add: getKeyPath_def)

lemma getKeyPath_neq_temp [simp]: "getKeyPath pr k \<noteq> getTempPath pr k'" "getTempPath pr k' \<noteq> getKeyPath pr k"
  using data_temp_disjoint key_path_data temp_path_temp by metis+

lemma lock_path_not_data: "\<not> data_path (getLockFilePath pr key)"
proof
  assume "data_path (getLockFilePath pr key)"
  then have "last (getLockFilePath pr key) = CHR ''t''" by (auto simp: data_path_def suffix_def)
  then show False by (simp add: getLockFilePath_def)
qed

lemma key_path_in_dir [simp]: "prefix (getStorePath pr) (getKeyPath pr key)"
  by (simp add: getKeyPath_def)

section \<open>AtomicWriter\<close>

text \<open>What the kernel answers to the calls of one \<open>write\<close>: whether each succeeds, and how many bytes
  the write call takes (\<open>None\<close> for -1).\<close>

record io =
  io_creat :: bool
  io_written :: "nat option"
  io_open :: bool
  io_fsync :: bool
  io_rename :: bool
  io_opendir :: bool
  io_fsyncdir :: bool

text \<open>A run keeps the disks it went through, so that a power loss can be placed between any two
  calls.\<close>

type_synonym run = "disk list \<times> disk"

definition to :: "disk \<Rightarrow> run \<Rightarrow> run" where
  "to d' r = (fst r @ [snd r], d')"

definition now :: "run \<Rightarrow> disk" where
  "now r = snd r"

definition visited :: "run \<Rightarrow> disk set" where
  "visited r = set (fst r) \<union> {snd r}"

definition writeTempFile :: "io \<Rightarrow> string \<Rightarrow> string \<Rightarrow> run \<Rightarrow> bool \<times> run" where
  "writeTempFile io tempPath data r =
     (if \<not> io_creat io then (False, r)
      else
        (let (fd, d1) = sys_creat tempPath (now r); r1 = to d1 r in
         case io_written io of
           None \<Rightarrow> (False, r1)
         | Some n \<Rightarrow>
             (let w = min n (length data); r2 = to (sys_write fd (take w data) (now r1)) r1
              in (w = length data, r2))))"

definition syncFile :: "io \<Rightarrow> string \<Rightarrow> run \<Rightarrow> bool \<times> run" where
  "syncFile io filePath r =
     (case names (now r) filePath of
        None \<Rightarrow> (False, r)
      | Some fd \<Rightarrow>
          if \<not> io_open io then (False, r)
          else if io_fsync io then (True, to (sys_fsync fd (now r)) r) else (False, r))"

definition atomicRename :: "io \<Rightarrow> string \<Rightarrow> string \<Rightarrow> run \<Rightarrow> bool \<times> run" where
  "atomicRename io a b r =
     (if \<not> io_rename io then (False, r)
      else case sys_rename a b (now r) of None \<Rightarrow> (False, r) | Some d' \<Rightarrow> (True, to d' r))"

definition syncDirectory :: "io \<Rightarrow> string \<Rightarrow> run \<Rightarrow> bool \<times> run" where
  "syncDirectory io dirPath r =
     (if \<not> io_opendir io then (False, r)
      else if io_fsyncdir io then (True, to (sys_fsync_dir dirPath (now r)) r) else (False, r))"

definition AtomicWriter_write :: "io \<Rightarrow> PathResolver \<Rightarrow> string \<Rightarrow> string \<Rightarrow> run \<Rightarrow> bool \<times> run" where
  "AtomicWriter_write io pr key data r =
     (let tempPath = getTempPath pr key; finalPath = getKeyPath pr key;
          (ok1, r1) = writeTempFile io tempPath data r
      in if \<not> ok1 then (False, r1)
      else
        (let (ok2, r2) = syncFile io tempPath r1
         in if \<not> ok2 then (False, to (sys_unlink tempPath (now r2)) r2)
         else
           (let (ok3, r3) = atomicRename io tempPath finalPath r2
            in if \<not> ok3 then (False, to (sys_unlink tempPath (now r3)) r3)
            else
              (let (ok4, r4) = syncDirectory io (getStorePath pr) r3
               in if \<not> ok4 then (False, r4) else (True, r4)))))"

definition AtomicWriter_exists :: "PathResolver \<Rightarrow> string \<Rightarrow> disk \<Rightarrow> bool" where
  "AtomicWriter_exists pr key d = (names d (getKeyPath pr key) \<noteq> None)"

definition AtomicWriter_remove :: "bool \<Rightarrow> PathResolver \<Rightarrow> string \<Rightarrow> disk \<Rightarrow> bool \<times> disk" where
  "AtomicWriter_remove unlink_ok pr key d =
     (if unlink_ok \<and> names d (getKeyPath pr key) \<noteq> None then (True, sys_unlink (getKeyPath pr key) d)
      else (False, d))"

section \<open>The disk invariant\<close>

text \<open>No hard links; entries name allocated inodes; an inode a data path may fall back to is on the
  medium and no temporary file is open on it.\<close>

definition disk_inv :: "disk \<Rightarrow> bool" where
  "disk_inv d \<longleftrightarrow>
     (\<forall>p q i. names d p = Some i \<longrightarrow> names d q = Some i \<longrightarrow> p = q)
     \<and> (\<forall>p i. names d p = Some i \<longrightarrow> i < fresh d)
     \<and> (\<forall>p i. Some i \<in> set (kept d p) \<longrightarrow> i < fresh d)
     \<and> (\<forall>p. names d p \<in> set (kept d p))
     \<and> (\<forall>p i. data_path p \<longrightarrow> Some i \<in> set (kept d p) \<longrightarrow> synced d i)
     \<and> (\<forall>p q i. temp_path q \<longrightarrow> data_path p \<longrightarrow> names d q = Some i \<longrightarrow> Some i \<notin> set (kept d p))"

lemma disk_inv_creat [inv_intros]:
  "disk_inv d \<Longrightarrow> temp_path t \<Longrightarrow> disk_inv (snd (sys_creat t d))"
  unfolding disk_inv_def sys_creat_def
  by (auto split: option.splits if_splits dest: data_temp_disjoint intro: less_SucI)

lemma disk_inv_write [inv_intros]:
  "disk_inv d \<Longrightarrow> temp_path t \<Longrightarrow> names d t = Some i \<Longrightarrow> disk_inv (sys_write i bs d)"
  unfolding disk_inv_def sys_write_def by auto

lemma disk_inv_fsync [inv_intros]: "disk_inv d \<Longrightarrow> disk_inv (sys_fsync i d)"
  unfolding disk_inv_def sys_fsync_def by auto

lemma disk_inv_unlink [inv_intros]: "disk_inv d \<Longrightarrow> disk_inv (sys_unlink p d)"
  unfolding disk_inv_def sys_unlink_def by (auto split: if_splits)

lemma disk_inv_fsync_dir [inv_intros]: "disk_inv d \<Longrightarrow> disk_inv (sys_fsync_dir dir d)"
  unfolding disk_inv_def sys_fsync_dir_def
  by (auto split: if_splits dest: data_temp_disjoint) (metis data_temp_disjoint)

lemma disk_inv_rename [inv_intros]:
  assumes "disk_inv d" "sys_rename t f d = Some d'" "temp_path t" "data_path f"
    and "\<And>i. names d t = Some i \<Longrightarrow> synced d i"
  shows "disk_inv d'"
proof -
  obtain i where i: "names d t = Some i"
    and d': "d' = d\<lparr>names := (names d)(t := None, f \<mapsto> i),
                   kept := (kept d)(t := kept d t @ [None], f := kept d f @ [Some i])\<rparr>"
    using assms(2) by (auto simp: sys_rename_def split: option.splits)
  have "t \<noteq> f" using assms(3,4) data_temp_disjoint by blast
  then show ?thesis
    using assms(1,3,4) assms(5) [OF i] i unfolding disk_inv_def d'
    by (auto split: if_splits dest: data_temp_disjoint)
qed

text \<open>Nothing a reader of data files could see has changed, now or after a power loss.\<close>

definition same_data :: "disk \<Rightarrow> disk \<Rightarrow> bool" where
  "same_data d d' \<longleftrightarrow> (\<forall>p. data_path p \<longrightarrow> names d' p = names d p \<and> kept d' p = kept d p
     \<and> (\<forall>i. Some i \<in> set (kept d p) \<longrightarrow> bytes_of d' i = bytes_of d i))"

lemma same_data_refl [simp, intro]: "same_data d d"
  by (simp add: same_data_def)

lemma same_data_trans [trans]: "same_data a b \<Longrightarrow> same_data b c \<Longrightarrow> same_data a c"
  by (simp add: same_data_def)

lemma same_data_creat: "disk_inv d \<Longrightarrow> temp_path t \<Longrightarrow> same_data d (snd (sys_creat t d))"
  unfolding same_data_def sys_creat_def disk_inv_def
  by (auto split: option.splits dest: data_temp_disjoint)

lemma same_data_write:
  "disk_inv d \<Longrightarrow> temp_path t \<Longrightarrow> names d t = Some i \<Longrightarrow> same_data d (sys_write i bs d)"
  unfolding same_data_def sys_write_def disk_inv_def by auto

lemma same_data_fsync: "same_data d (sys_fsync i d)"
  by (simp add: same_data_def sys_fsync_def)

lemma same_data_unlink: "temp_path t \<Longrightarrow> same_data d (sys_unlink t d)"
  by (auto simp: same_data_def sys_unlink_def dest: data_temp_disjoint)

lemmas same_data_intros = same_data_creat same_data_write same_data_fsync same_data_unlink

text \<open>The contents a path may have after a power loss.\<close>

definition may_hold :: "disk \<Rightarrow> string \<Rightarrow> string option set" where
  "may_hold d p = map_option (bytes_of d) ` set (kept d p)"

lemma crash_may_hold:
  assumes "disk_inv d" "data_path p" "crash d d'"
  shows "file_at d' p \<in> may_hold d p"
proof (cases "names d' p")
  case None
  with assms(3) have "None \<in> set (kept d p)" unfolding crash_def by metis
  with None show ?thesis unfolding may_hold_def file_at_def by (metis image_eqI option.map_disc_iff)
next
  case (Some i)
  with assms(3) have i: "Some i \<in> set (kept d p)" unfolding crash_def by metis
  with assms(1,2) have "synced d i" unfolding disk_inv_def by blast
  with assms(3) have "bytes_of d' i = bytes_of d i" unfolding crash_def by blast
  with i Some show ?thesis by (force simp: may_hold_def file_at_def)
qed

lemma same_data_file:
  assumes "disk_inv d" "same_data d d'" "data_path p"
  shows "file_at d' p = file_at d p" and "may_hold d' p = may_hold d p"
proof -
  have e: "map_option (bytes_of d') e = map_option (bytes_of d) e" if "e \<in> set (kept d p)" for e
    using that assms(2,3) unfolding same_data_def by (induction e) auto
  have "names d p \<in> set (kept d p)" using assms(1) by (simp add: disk_inv_def)
  from e [OF this] show "file_at d' p = file_at d p"
    using assms(2,3) by (simp add: same_data_def file_at_def)
  from e show "may_hold d' p = may_hold d p"
    using assms(2,3) unfolding may_hold_def same_data_def by (metis (no_types, lifting) image_cong)
qed

lemma file_may_hold: "disk_inv d \<Longrightarrow> file_at d p \<in> may_hold d p"
  by (simp add: disk_inv_def file_at_def may_hold_def)

section \<open>The steps of a write\<close>

lemma now_to [simp]: "now (to d' r) = d'" "visited (to d' r) = insert d' (visited r)"
  by (auto simp: now_def to_def visited_def)

lemma now_visited [simp]: "now r \<in> visited r"
  by (simp add: now_def visited_def)

text \<open>A step that works on the temporary file only.\<close>

definition quiet :: "run \<Rightarrow> run \<Rightarrow> bool" where
  "quiet r r' \<longleftrightarrow> disk_inv (now r') \<and> same_data (now r) (now r')
     \<and> (\<forall>x \<in> visited r'. x \<in> visited r \<or> disk_inv x \<and> same_data (now r) x)"

lemma quiet_refl: "disk_inv (now r) \<Longrightarrow> quiet r r"
  by (simp add: quiet_def)

lemma quiet_to:
  "disk_inv (now r) \<Longrightarrow> disk_inv d' \<Longrightarrow> same_data (now r) d' \<Longrightarrow> quiet r (to d' r)"
  by (auto simp: quiet_def)

lemma quiet_trans: "quiet a b \<Longrightarrow> quiet b c \<Longrightarrow> quiet a c"
  unfolding quiet_def by (meson same_data_trans)

lemma sys_creat_props:
  "sys_creat t d = (i, d') \<Longrightarrow> names d' t = Some i \<and> bytes_of d' i = []"
  by (auto simp: sys_creat_def split: option.splits)

lemma writeTempFile_quiet:
  assumes "disk_inv (now r)" "temp_path t" "writeTempFile io t data r = (ok, r')"
  shows "quiet r r' \<and> (ok \<longrightarrow> (\<exists>i. names (now r') t = Some i \<and> bytes_of (now r') i = data))"
proof (cases "io_creat io")
  case False
  with assms quiet_refl show ?thesis by (simp add: writeTempFile_def)
next
  case True
  obtain fd d1 where c: "sys_creat t (now r) = (fd, d1)" by fastforce
  have inv1: "disk_inv d1" and same1: "same_data (now r) d1"
    using disk_inv_creat [OF assms(1,2)] same_data_creat [OF assms(1,2)] c by simp_all
  then have q1: "quiet r (to d1 r)" using assms(1) by (intro quiet_to)
  show ?thesis
  proof (cases "io_written io")
    case None
    with assms(3) True c q1 show ?thesis by (auto simp: writeTempFile_def)
  next
    case (Some n)
    let ?bs = "take (min n (length data)) data"
    have fd: "names d1 t = Some fd" "bytes_of d1 fd = []" using sys_creat_props [OF c] by auto
    have "quiet (to d1 r) (to (sys_write fd ?bs d1) (to d1 r))"
      using disk_inv_write [OF inv1 assms(2) fd(1)] same_data_write [OF inv1 assms(2) fd(1)] inv1
      by (intro quiet_to) simp_all
    then have "quiet r (to (sys_write fd ?bs d1) (to d1 r))" by (rule quiet_trans [OF q1])
    moreover have "ok = (min n (length data) = length data)"
      and "r' = to (sys_write fd ?bs d1) (to d1 r)"
      using assms(3) True c Some by (auto simp: writeTempFile_def Let_def)
    ultimately show ?thesis using fd by (auto simp: sys_write_def)
  qed
qed

lemma syncFile_quiet:
  assumes "disk_inv (now r)" "syncFile io t r = (ok, r')"
  shows "quiet r r' \<and> names (now r') = names (now r) \<and> bytes_of (now r') = bytes_of (now r)
    \<and> (ok \<longrightarrow> (\<forall>i. names (now r) t = Some i \<longrightarrow> synced (now r') i))"
  using assms quiet_refl [OF assms(1)] quiet_to [OF assms(1) disk_inv_fsync [OF assms(1)] same_data_fsync]
  by (auto simp: syncFile_def sys_fsync_def split: option.splits if_splits)

lemma unlink_quiet:
  "disk_inv (now r) \<Longrightarrow> temp_path t \<Longrightarrow> quiet r (to (sys_unlink t (now r)) r)"
  by (intro quiet_to disk_inv_unlink same_data_unlink)

text \<open>The one step a reader can see.\<close>

lemma rename_effect:
  assumes "disk_inv d" "sys_rename t f d = Some d'" "temp_path t" "data_path f"
    and "names d t = Some i" "bytes_of d i = data" "data_path q"
  shows "file_at d' q = (if q = f then Some data else file_at d q)"
    and "may_hold d' q = (if q = f then insert (Some data) (may_hold d q) else may_hold d q)"
proof -
  have "q \<noteq> t" "f \<noteq> t" using assms(3,4,7) data_temp_disjoint by blast+
  with assms(1,2,5,6)
  show "file_at d' q = (if q = f then Some data else file_at d q)"
    and "may_hold d' q = (if q = f then insert (Some data) (may_hold d q) else may_hold d q)"
    by (auto simp: sys_rename_def file_at_def may_hold_def)
qed

lemma fsync_dir_effect:
  "file_at (sys_fsync_dir dir d) q = file_at d q"
  "may_hold (sys_fsync_dir dir d) q = (if prefix dir q then {file_at d q} else may_hold d q)"
  by (auto simp: sys_fsync_dir_def file_at_def may_hold_def)

text \<open>Every disk a write goes through: the key's file may fall back to what it may have held before or
  to the new data, every other data file to what it may have held before.\<close>

definition write_safe :: "disk \<Rightarrow> string \<Rightarrow> string \<Rightarrow> disk \<Rightarrow> bool" where
  "write_safe d fp data x \<longleftrightarrow> disk_inv x
     \<and> may_hold x fp \<subseteq> insert (Some data) (may_hold d fp)
     \<and> (\<forall>q. data_path q \<longrightarrow> q \<noteq> fp \<longrightarrow> may_hold x q \<subseteq> may_hold d q \<and> file_at x q = file_at d q)"

lemma write_safe_same:
  "disk_inv d \<Longrightarrow> disk_inv x \<Longrightarrow> same_data d x \<Longrightarrow> data_path fp \<Longrightarrow> write_safe d fp data x"
  using same_data_file [of d x] by (auto simp: write_safe_def)

lemma quiet_safe:
  assumes "disk_inv d" "data_path fp" "quiet ([], d) r" "x \<in> visited r"
  shows "write_safe d fp data x"
proof -
  have "x = d \<or> disk_inv x \<and> same_data d x"
    using assms(3,4) by (auto simp: quiet_def now_def visited_def)
  then show ?thesis
    using write_safe_same [OF assms(1) _ _ assms(2)] assms(1) same_data_refl by auto
qed

lemma write_safe_renamed:
  assumes "disk_inv d" "quiet ([], d) r" "data_path fp" "temp_path t"
    and "names (now r) t = Some i" "bytes_of (now r) i = data" "synced (now r) i"
    and "sys_rename t fp (now r) = Some d'"
  shows "write_safe d fp data d'" and "file_at d' fp = Some data"
proof -
  have inv: "disk_inv (now r)" and same: "same_data d (now r)"
    using assms(2) by (simp_all add: quiet_def now_def)
  have "disk_inv d'"
    by (rule disk_inv_rename [OF inv assms(8,4,3)]) (use assms(5,7) in simp)
  moreover note rename_effect [OF inv assms(8,4,3,5,6)] same_data_file [OF assms(1) same]
  ultimately show "write_safe d fp data d'" and "file_at d' fp = Some data"
    using assms(3) by (auto simp: write_safe_def)
qed

lemma write_safe_fsync_dir:
  "disk_inv d \<Longrightarrow> write_safe d fp data x \<Longrightarrow> write_safe d fp data (sys_fsync_dir dir x)"
  using file_may_hold [of x] file_may_hold [of d]
  by (auto simp: write_safe_def fsync_dir_effect intro: disk_inv_fsync_dir)

lemma quiet_file:
  "disk_inv d \<Longrightarrow> data_path fp \<Longrightarrow> quiet ([], d) r \<Longrightarrow> file_at (now r) fp = file_at d fp"
  by (rule same_data_file) (auto simp: quiet_def now_def)

lemma AtomicWriter_write_effect:
  assumes inv: "disk_inv d" and run: "AtomicWriter_write io pr key data ([], d) = (ok, r')"
  shows "(\<forall>x \<in> visited r'. write_safe d (getKeyPath pr key) data x)
    \<and> (ok \<longrightarrow> file_at (now r') (getKeyPath pr key) = Some data
           \<and> may_hold (now r') (getKeyPath pr key) = {Some data})
    \<and> (\<not> ok \<longrightarrow> file_at (now r') (getKeyPath pr key) = file_at d (getKeyPath pr key)
           \<or> file_at (now r') (getKeyPath pr key) = Some data \<and> \<not> (io_opendir io \<and> io_fsyncdir io))"
proof -
  let ?t = "getTempPath pr key" and ?f = "getKeyPath pr key" and ?r = "([], d) :: run"
  have start: "disk_inv (now ?r)" using inv by (simp add: now_def)
  have final: ?thesis if "quiet ?r r'" "\<not> ok"
    using that quiet_safe [OF inv key_path_data that(1)] quiet_file [OF inv key_path_data that(1)] by simp
  obtain ok1 r1 where s1: "writeTempFile io ?t data ?r = (ok1, r1)" by (rule prod.exhaust)
  from writeTempFile_quiet [OF start _ s1]
  have q1: "quiet ?r r1" and w1: "ok1 \<Longrightarrow> \<exists>i. names (now r1) ?t = Some i \<and> bytes_of (now r1) i = data" by auto
  have inv1: "disk_inv (now r1)" using q1 by (simp add: quiet_def)
  obtain ok2 r2 where s2: "syncFile io ?t r1 = (ok2, r2)" by (rule prod.exhaust)
  from syncFile_quiet [OF inv1 s2] have q2: "quiet ?r r2" and same2: "names (now r2) = names (now r1)"
    "bytes_of (now r2) = bytes_of (now r1)"
    and w2: "ok2 \<Longrightarrow> names (now r1) ?t = Some i \<Longrightarrow> synced (now r2) i" for i
    using quiet_trans [OF q1] by auto
  have inv2: "disk_inv (now r2)" using q2 by (simp add: quiet_def)
  obtain ok3 r3 where s3: "atomicRename io ?t ?f r2 = (ok3, r3)" by (rule prod.exhaust)
  obtain ok4 r4 where s4: "syncDirectory io (getStorePath pr) r3 = (ok4, r4)" by (rule prod.exhaust)
  note run' = run [unfolded AtomicWriter_write_def Let_def, simplified s1 prod.case if_True s2 s3 s4]
  consider "\<not> ok1" | "ok1" "\<not> ok2" | "ok1" "ok2" "\<not> ok3" | "ok1" "ok2" "ok3" by blast
  then show ?thesis
  proof cases
    case 1
    with run' s1 q1 final show ?thesis by simp
  next
    case 2
    with run' s2 quiet_trans [OF q2 unlink_quiet [OF inv2, of ?t]] final show ?thesis by auto
  next
    case 3
    then have "r3 = r2" using s3 by (auto simp: atomicRename_def split: if_splits option.splits)
    with 3 run' s2 s3 quiet_trans [OF q2 unlink_quiet [OF inv2, of ?t]] final show ?thesis by auto
  next
    case 4
    then obtain i where i: "names (now r2) ?t = Some i" "bytes_of (now r2) i = data" "synced (now r2) i"
      using w1 w2 same2 by metis
    obtain d3 where d3: "sys_rename ?t ?f (now r2) = Some d3" and r3: "r3 = to d3 r2"
      using 4 s3 by (auto simp: atomicRename_def split: if_splits option.splits)
    note ren = write_safe_renamed [OF inv q2 key_path_data temp_path_temp i d3]
    have vis: "\<forall>x \<in> visited r3. write_safe d ?f data x"
      using ren(1) quiet_safe [OF inv key_path_data q2] by (auto simp: r3)
    show ?thesis
    proof (cases ok4)
      case True
      then have r4: "r4 = to (sys_fsync_dir (getStorePath pr) d3) r3"
        using s4 r3 by (auto simp: syncDirectory_def split: if_splits)
      have "ok" "r' = r4" using run' 4 True s2 s3 s4 by auto
      then show ?thesis
        using vis ren write_safe_fsync_dir [OF inv ren(1)] by (auto simp: r4 fsync_dir_effect)
    next
      case False
      then have "r4 = r3" and "\<not> (io_opendir io \<and> io_fsyncdir io)"
        using s4 by (auto simp: syncDirectory_def split: if_splits)
      moreover have "\<not> ok" "r' = r4" using run' 4 False s2 s3 s4 by auto
      ultimately show ?thesis using vis ren by (auto simp: r3)
    qed
  qed
qed

end
