(* ===== verification/Store_Lock.thy ===== *)
theory Store_Lock
  imports Store_Io "HOL-Library.List_Lexorder" "HOL-Library.Char_ord"
begin

text \<open>
  \<open>FileLock\<close> (\<open>src/store/store_file_lock.cpp\<close>): an advisory \<open>flock\<close> on \<open><key>.dat.lock\<close>, created
  on acquire and unlinked on release, over a kernel with path entries, inodes, open file
  descriptions and lock owners.  The lock files are kept apart from the data files of
  \<open>Store_Io\<close>, whose paths they never share.
\<close>

section \<open>The kernel\<close>

text \<open>An open file description is named by its process and descriptor number.\<close>

type_synonym ofd_id = "nat \<times> int"

record kern =
  path_ino :: "string \<rightharpoonup> nat"
  next_ino :: nat
  open_fds :: "ofd_id \<rightharpoonup> nat"
  owner :: "nat \<rightharpoonup> ofd_id"
  next_fd :: nat

definition kern_init :: kern where
  "kern_init = \<lparr>path_ino = Map.empty, next_ino = 0, open_fds = Map.empty, owner = Map.empty, next_fd = 3\<rparr>"

text \<open>\<open>open(path, O_CREAT | O_RDWR)\<close>; descriptor numbers are not reused in the model.\<close>

definition k_open :: "nat \<Rightarrow> string \<Rightarrow> kern \<Rightarrow> int \<times> kern" where
  "k_open p path k =
     (let fd = int (next_fd k);
          i = (case path_ino k path of Some i \<Rightarrow> i | None \<Rightarrow> next_ino k)
      in (fd, k\<lparr>path_ino := (path_ino k)(path \<mapsto> i),
                next_ino := (if path_ino k path = None then next_ino k + 1 else next_ino k),
                open_fds := (open_fds k)((p, fd) \<mapsto> i), next_fd := next_fd k + 1\<rparr>))"

text \<open>\<open>flock(fd, LOCK_EX | LOCK_NB)\<close>.\<close>

definition k_flock :: "nat \<Rightarrow> int \<Rightarrow> kern \<Rightarrow> bool \<times> kern" where
  "k_flock p fd k =
     (case open_fds k (p, fd) of
        None \<Rightarrow> (False, k)
      | Some i \<Rightarrow> if owner k i = None \<or> owner k i = Some (p, fd)
                then (True, k\<lparr>owner := (owner k)(i \<mapsto> (p, fd))\<rparr>) else (False, k))"

definition k_unlock :: "nat \<Rightarrow> int \<Rightarrow> kern \<Rightarrow> kern" where
  "k_unlock p fd k =
     (case open_fds k (p, fd) of
        None \<Rightarrow> k
      | Some i \<Rightarrow> if owner k i = Some (p, fd) then k\<lparr>owner := (owner k)(i := None)\<rparr> else k)"

text \<open>Closing the descriptor drops a lock it still holds.\<close>

definition k_close :: "nat \<Rightarrow> int \<Rightarrow> kern \<Rightarrow> kern" where
  "k_close p fd k = (let k1 = k_unlock p fd k in k1\<lparr>open_fds := (open_fds k1)((p, fd) := None)\<rparr>)"

definition k_unlink :: "string \<Rightarrow> kern \<Rightarrow> kern" where
  "k_unlink path k = k\<lparr>path_ino := (path_ino k)(path := None)\<rparr>"

section \<open>FileLock\<close>

text \<open>\<open>opens\<close>: the kernel can open the lock file at all.\<close>

definition tryFileLock :: "bool \<Rightarrow> nat \<Rightarrow> string \<Rightarrow> kern \<Rightarrow> int option \<times> kern" where
  "tryFileLock opens p lockPath k =
     (if \<not> opens then (None, k)
      else
        (let (fd, k1) = k_open p lockPath k; (ok, k2) = k_flock p fd k1
         in if \<not> ok then (None, k_close p fd k2) else (Some fd, k2)))"

definition releaseFileLock :: "nat \<Rightarrow> int \<Rightarrow> kern \<Rightarrow> kern" where
  "releaseFileLock p fd k = (if fd \<ge> 0 then k_close p fd (k_unlock p fd k) else k)"

text \<open>What happens around an acquire: whether opening works, what the rest of the system does to the
  kernel between two attempts, and by how much each pause exceeds its 10 ms.\<close>

record lock_env =
  env_opens :: bool
  env_between :: "nat \<Rightarrow> kern \<Rightarrow> kern"
  env_extra :: "nat \<Rightarrow> nat"

function acquire_loop :: "lock_env \<Rightarrow> nat \<Rightarrow> string \<Rightarrow> nat \<Rightarrow> nat \<Rightarrow> nat \<Rightarrow> kern \<Rightarrow> int option \<times> kern" where
  "acquire_loop env p path timeoutMs elapsed n k =
     (case tryFileLock (env_opens env) p path k of
        (Some fd, k1) \<Rightarrow> (Some fd, k1)
      | (None, k1) \<Rightarrow>
          if elapsed \<ge> timeoutMs then (None, k1)
          else acquire_loop env p path timeoutMs (elapsed + 10 + env_extra env n) (n + 1) (env_between env n k1))"
  by pat_completeness auto
termination
  by (relation "measure (\<lambda>(env, p, path, t, e, n, k). t - e)") auto

declare acquire_loop.simps [simp del]

text \<open>\<open>m_lockFds\<close> is the object's state; the process number selects its descriptors.\<close>

type_synonym lock_fds = "(string \<times> int) list"

definition FileLock_acquire ::
    "lock_env \<Rightarrow> PathResolver \<Rightarrow> nat \<Rightarrow> string \<Rightarrow> nat \<Rightarrow> lock_fds \<Rightarrow> kern \<Rightarrow> bool \<times> lock_fds \<times> kern" where
  "FileLock_acquire env pr p key timeoutMs fds k =
     (if map_of fds key \<noteq> None then (True, fds, k)
      else
        (let lockPath = getLockFilePath pr key;
             (r, k1) = (if timeoutMs = 0 then tryFileLock (env_opens env) p lockPath k
                        else acquire_loop env p lockPath timeoutMs 0 0 k)
         in case r of
              None \<Rightarrow> (False, fds, k1)
            | Some fd \<Rightarrow> (True, smap_put key fd fds, k1)))"

definition FileLock_release :: "PathResolver \<Rightarrow> nat \<Rightarrow> string \<Rightarrow> lock_fds \<Rightarrow> kern \<Rightarrow> lock_fds \<times> kern" where
  "FileLock_release pr p key fds k =
     (case map_of fds key of
        None \<Rightarrow> (fds, k)
      | Some fd \<Rightarrow> (smap_erase key fds, k_unlink (getLockFilePath pr key) (releaseFileLock p fd k)))"

definition FileLock_isHeld :: "string \<Rightarrow> lock_fds \<Rightarrow> bool" where
  "FileLock_isHeld key fds = (map_of fds key \<noteq> None)"

text \<open>The destructor: every lock is dropped, the files stay.\<close>

definition FileLock_destroy :: "nat \<Rightarrow> lock_fds \<Rightarrow> kern \<Rightarrow> lock_fds \<times> kern" where
  "FileLock_destroy p fds k = ([], foldl (\<lambda>k (key, fd). releaseFileLock p fd k) k fds)"

section \<open>Kernel invariant\<close>

text \<open>Owners are open descriptions of the inode they own; descriptor numbers are fresh.\<close>

definition kern_inv :: "kern \<Rightarrow> bool" where
  "kern_inv k \<longleftrightarrow>
     (\<forall>i o'. owner k i = Some o' \<longrightarrow> open_fds k o' = Some i)
     \<and> (\<forall>p fd i. open_fds k (p, fd) = Some i \<longrightarrow> 0 \<le> fd \<and> fd < int (next_fd k) \<and> i < next_ino k)
     \<and> (\<forall>path i. path_ino k path = Some i \<longrightarrow> i < next_ino k)
     \<and> (\<forall>path path' i. path_ino k path = Some i \<longrightarrow> path_ino k path' = Some i \<longrightarrow> path = path')"

lemma kern_inv_init: "kern_inv kern_init"
  by (simp add: kern_inv_def kern_init_def)

lemma kern_inv_open [inv_intros]: "kern_inv k \<Longrightarrow> kern_inv (snd (k_open p path k))"
  unfolding kern_inv_def k_open_def
  by (auto simp: Let_def split: option.splits if_splits intro: less_SucI)
    (fastforce intro: less_SucI)+

lemma kern_inv_flock [inv_intros]: "kern_inv k \<Longrightarrow> kern_inv (snd (k_flock p fd k))"
  unfolding kern_inv_def k_flock_def by (auto split: option.splits if_splits)

lemma kern_inv_unlock [inv_intros]: "kern_inv k \<Longrightarrow> kern_inv (k_unlock p fd k)"
  unfolding kern_inv_def k_unlock_def by (auto split: option.splits if_splits)

lemma kern_inv_close [inv_intros]:
  assumes "kern_inv k"
  shows "kern_inv (k_close p fd k)"
proof -
  have own: "\<And>i o'. owner k i = Some o' \<Longrightarrow> open_fds k o' = Some i"
    using assms unfolding kern_inv_def by blast
  have "owner (k_unlock p fd k) i \<noteq> Some (p, fd)" for i
    using own [of i "(p, fd)"] by (auto simp: k_unlock_def split: option.splits)
  then show ?thesis
    using kern_inv_unlock [OF assms, of p fd] unfolding kern_inv_def k_close_def
    by (simp add: Let_def)
qed

lemma kern_inv_unlink [inv_intros]: "kern_inv k \<Longrightarrow> kern_inv (k_unlink path k)"
  unfolding kern_inv_def k_unlink_def by auto

lemma kern_inv_try [inv_intros]: "kern_inv k \<Longrightarrow> kern_inv (snd (tryFileLock opens p path k))"
  unfolding tryFileLock_def
  by (auto simp: Let_def split: prod.splits intro: kern_inv_close)
    (metis kern_inv_close kern_inv_flock kern_inv_open snd_conv)+

lemma kern_inv_releaseFileLock [inv_intros]: "kern_inv k \<Longrightarrow> kern_inv (releaseFileLock p fd k)"
  by (simp add: releaseFileLock_def kern_inv_close kern_inv_unlock)

section \<open>Whole operations exclude each other\<close>

text \<open>
  Processes that acquire (one attempt), release and shut down, each operation without
  interruption.
\<close>

record locks =
  kernel :: kern
  held :: "nat \<Rightarrow> lock_fds"

definition attempt :: "bool \<Rightarrow> nat \<Rightarrow> kern \<Rightarrow> lock_env" where
  "attempt opens n k = \<lparr>env_opens = opens, env_between = (\<lambda>_. id), env_extra = (\<lambda>_. 0)\<rparr>"

inductive lock_op :: "PathResolver \<Rightarrow> locks \<Rightarrow> locks \<Rightarrow> bool" for pr where
  op_acquire: "FileLock_acquire (attempt opens p (kernel s)) pr p key 0 (held s p) (kernel s) = (ok, fds, k)
    \<Longrightarrow> lock_op pr s (s\<lparr>kernel := k, held := (held s)(p := fds)\<rparr>)"
| op_release: "FileLock_release pr p key (held s p) (kernel s) = (fds, k)
    \<Longrightarrow> lock_op pr s (s\<lparr>kernel := k, held := (held s)(p := fds)\<rparr>)"
| op_destroy: "FileLock_destroy p (held s p) (kernel s) = (fds, k)
    \<Longrightarrow> lock_op pr s (s\<lparr>kernel := k, held := (held s)(p := fds)\<rparr>)"

inductive_cases lock_opE: "lock_op pr s s'"

inductive lock_reach :: "PathResolver \<Rightarrow> locks \<Rightarrow> bool" for pr where
  reach_init: "lock_reach pr \<lparr>kernel = kern_init, held = (\<lambda>_. [])\<rparr>"
| reach_op: "lock_reach pr s \<Longrightarrow> lock_op pr s s' \<Longrightarrow> lock_reach pr s'"

text \<open>A held key owns the inode its lock path names.\<close>

definition owns :: "PathResolver \<Rightarrow> kern \<Rightarrow> nat \<Rightarrow> string \<Rightarrow> int \<Rightarrow> bool" where
  "owns pr k p key fd \<longleftrightarrow> (\<exists>i. path_ino k (getLockFilePath pr key) = Some i \<and> owner k i = Some (p, fd))"

definition locks_inv :: "PathResolver \<Rightarrow> locks \<Rightarrow> bool" where
  "locks_inv pr s \<longleftrightarrow> kern_inv (kernel s) \<and> (\<forall>p. smap_ok (held s p))
     \<and> (\<forall>p key fd. map_of (held s p) key = Some fd \<longrightarrow> owns pr (kernel s) p key fd)"

lemma lock_path_inj [simp]: "getLockFilePath pr k = getLockFilePath pr k' \<longleftrightarrow> k = k'"
  by (simp add: getLockFilePath_def)

lemma try_success:
  assumes "kern_inv k" "tryFileLock opens p (getLockFilePath pr key) k = (Some fd, k')"
  shows "owns pr k' p key fd" and "\<And>q key' fd'. owns pr k q key' fd' \<Longrightarrow> owns pr k' q key' fd'"
proof -
  have "owner k (next_ino k) = None"
  proof (rule ccontr)
    assume "owner k (next_ino k) \<noteq> None"
    then obtain q fd where "owner k (next_ino k) = Some (q, fd)" by auto
    with assms(1) have "open_fds k (q, fd) = Some (next_ino k)" unfolding kern_inv_def by blast
    with assms(1) have "next_ino k < next_ino k" unfolding kern_inv_def by blast
    then show False by simp
  qed
  then show "owns pr k' p key fd" and "\<And>q key' fd'. owns pr k q key' fd' \<Longrightarrow> owns pr k' q key' fd'"
    using assms(2)
    by (auto simp: tryFileLock_def k_open_def k_flock_def owns_def Let_def split: if_splits option.splits)
qed

lemma try_failure:
  assumes "kern_inv k" "tryFileLock opens p (getLockFilePath pr key) k = (None, k')"
    and "owns pr k q key' fd'"
  shows "owns pr k' q key' fd'"
proof -
  have "owner k i \<noteq> Some (p, int (next_fd k))" for i
    using assms(1) unfolding kern_inv_def by (metis less_irrefl)
  with assms(2,3) show ?thesis
    by (auto simp: tryFileLock_def k_open_def k_flock_def k_close_def k_unlock_def owns_def Let_def
        split: if_splits option.splits)
qed

lemma releaseFileLock_keeps:
  assumes "owns pr k q key' fd'" "(q, fd') \<noteq> (p, fd)"
  shows "owns pr (releaseFileLock p fd k) q key' fd'"
proof -
  have "path_ino (releaseFileLock p fd k) = path_ino k"
    by (simp add: releaseFileLock_def k_close_def k_unlock_def Let_def split: option.splits)
  moreover have "owner (releaseFileLock p fd k) i = Some (q, fd')" if "owner k i = Some (q, fd')" for i
    using that assms(2)
    by (auto simp: releaseFileLock_def k_close_def k_unlock_def Let_def split: option.splits)
  ultimately show ?thesis using assms(1) by (auto simp: owns_def)
qed

lemma owns_inj:
  "kern_inv k \<Longrightarrow> owns pr k p key fd \<Longrightarrow> owns pr k p key' fd \<Longrightarrow> key = key'"
  unfolding owns_def kern_inv_def by (metis lock_path_inj option.inject)

lemma owns_unique: "owns pr k p key fd \<Longrightarrow> owns pr k q key fd' \<Longrightarrow> p = q \<and> fd = fd'"
  unfolding owns_def by auto

lemma kern_inv_destroy:
  "kern_inv k \<Longrightarrow> kern_inv (foldl (\<lambda>k (key, fd). releaseFileLock p fd k) k fds)"
  by (induction fds arbitrary: k) (auto intro: kern_inv_releaseFileLock)

lemma destroy_keeps:
  "owns pr k q key' fd' \<Longrightarrow> q \<noteq> p \<Longrightarrow> owns pr (foldl (\<lambda>k (key, fd). releaseFileLock p fd k) k fds) q key' fd'"
  by (induction fds arbitrary: k) (auto intro: releaseFileLock_keeps)

lemma locks_inv_step:
  assumes "locks_inv pr s" "lock_op pr s s'"
  shows "locks_inv pr s'"
  using assms(2)
proof cases
  case (op_acquire opens p key ok fds k)
  have inv: "kern_inv (kernel s)" and ok: "smap_ok (held s p)"
    and own: "\<And>p key fd. map_of (held s p) key = Some fd \<Longrightarrow> owns pr (kernel s) p key fd"
    using assms(1) by (auto simp: locks_inv_def)
  show ?thesis
  proof (cases "map_of (held s p) key")
    case None
    let ?t = "tryFileLock opens p (getLockFilePath pr key) (kernel s)"
    have ki: "kern_inv (snd ?t)" by (rule kern_inv_try [OF inv])
    show ?thesis
    proof (cases "fst ?t")
      case N: None
      then have "?t = (None, k)" "fds = held s p"
        using op_acquire(2) None by (auto simp: FileLock_acquire_def attempt_def split: prod.splits)
      with ki try_failure [OF inv] own assms(1) show ?thesis
        unfolding op_acquire(1) locks_inv_def by auto
    next
      case (Some fd)
      then have "?t = (Some fd, k)" "fds = smap_put key fd (held s p)"
        using op_acquire(2) None by (auto simp: FileLock_acquire_def attempt_def split: prod.splits)
      with ki try_success [OF inv, of opens p pr key fd k] own ok assms(1) show ?thesis
        unfolding op_acquire(1) locks_inv_def by auto
    qed
  next
    case (Some fd)
    with op_acquire have "fds = held s p" "k = kernel s" by (auto simp: FileLock_acquire_def)
    with assms(1) show ?thesis unfolding op_acquire(1) by (simp add: locks_inv_def)
  qed
next
  case (op_release p key fds k)
  have inv: "kern_inv (kernel s)" and ok: "smap_ok (held s p)"
    and own: "\<And>p key fd. map_of (held s p) key = Some fd \<Longrightarrow> owns pr (kernel s) p key fd"
    using assms(1) by (auto simp: locks_inv_def)
  show ?thesis
  proof (cases "map_of (held s p) key")
    case None
    with op_release have "fds = held s p" "k = kernel s" by (auto simp: FileLock_release_def)
    with assms(1) show ?thesis unfolding op_release(1) by (simp add: locks_inv_def)
  next
    case (Some fd)
    let ?k1 = "releaseFileLock p fd (kernel s)"
    have fds: "fds = smap_erase key (held s p)" and k: "k = k_unlink (getLockFilePath pr key) ?k1"
      using op_release(2) Some by (auto simp: FileLock_release_def)
    have keep: "owns pr k q key' fd'" if h: "map_of (held s q) key' = Some fd'" "q = p \<longrightarrow> key' \<noteq> key" for q key' fd'
    proof -
      have ow: "owns pr (kernel s) q key' fd'" "owns pr (kernel s) p key fd" using own h(1) Some by auto
      then have "(q, fd') \<noteq> (p, fd)" using owns_inj [OF inv] h(2) by auto
      moreover have "key' \<noteq> key" using owns_unique ow h(2) by blast
      ultimately show ?thesis
        using releaseFileLock_keeps [OF ow(1)] by (auto simp: k k_unlink_def owns_def)
    qed
    have "kern_inv k" unfolding k by (intro kern_inv_unlink kern_inv_releaseFileLock inv)
    with keep ok assms(1) show ?thesis
      unfolding op_release(1) locks_inv_def fds by (auto split: if_splits)
  qed
next
  case (op_destroy p fds k)
  then have "fds = []" and k: "k = foldl (\<lambda>k (key, fd). releaseFileLock p fd k) (kernel s) (held s p)"
    by (auto simp: FileLock_destroy_def)
  moreover have "kern_inv k" unfolding k using assms(1) by (intro kern_inv_destroy) (simp add: locks_inv_def)
  moreover have "owns pr k q key fd" if "map_of (held s q) key = Some fd" "q \<noteq> p" for q key fd
    unfolding k using that assms(1) by (intro destroy_keeps) (simp_all add: locks_inv_def)
  ultimately show ?thesis
    using assms(1) unfolding op_destroy(1) locks_inv_def by simp
qed

lemma locks_inv_reach: "lock_reach pr s \<Longrightarrow> locks_inv pr s"
proof (induction rule: lock_reach.induct)
  case reach_init
  then show ?case by (simp add: locks_inv_def kern_inv_init)
next
  case (reach_op s s')
  then show ?case by (blast intro: locks_inv_step)
qed

section \<open>What an acquire gives and a release takes\<close>

lemma try_no_leak:
  assumes "kern_inv k" "tryFileLock opens p path k = (None, k')"
  shows "open_fds k' = open_fds k"
proof -
  have "open_fds k (p, int (next_fd k)) = None"
    using assms(1) unfolding kern_inv_def by (metis less_irrefl option.exhaust)
  with assms(2) show ?thesis
    by (auto simp: tryFileLock_def k_open_def k_flock_def k_close_def k_unlock_def Let_def
        split: if_splits option.splits)
qed

lemma acquire_loop_owns:
  assumes "kern_inv k" "\<And>n k. kern_inv k \<Longrightarrow> kern_inv (env_between env n k)"
    and "acquire_loop env p (getLockFilePath pr key) t e n k = (Some fd, k')"
  shows "owns pr k' p key fd \<and> kern_inv k'"
  using assms
proof (induction env p "getLockFilePath pr key" t e n k rule: acquire_loop.induct)
  case (1 env p t e n k)
  obtain r k1 where t: "tryFileLock (env_opens env) p (getLockFilePath pr key) k = (r, k1)"
    by (rule prod.exhaust)
  have inv1: "kern_inv k1" using kern_inv_try [OF "1.prems"(1)] t by (metis snd_conv)
  show ?case
  proof (cases r)
    case (Some fd1)
    with "1.prems"(3) t have "fd1 = fd" "k1 = k'" by (auto simp: acquire_loop.simps [of env p _ t e n k])
    with try_success(1) [OF "1.prems"(1)] t Some inv1 show ?thesis by auto
  next
    case None
    with "1.prems"(3) t have e: "\<not> e \<ge> t"
      and rec: "acquire_loop env p (getLockFilePath pr key) t (e + 10 + env_extra env n) (n + 1) (env_between env n k1)
             = (Some fd, k')"
      by (auto simp: acquire_loop.simps [of env p _ t e n k] split: if_splits)
    have "kern_inv (env_between env n k1)" using "1.prems"(2) inv1 by blast
    with "1.hyps" [OF t [symmetric]] None e rec "1.prems"(2) show ?thesis by auto
  qed
qed

text \<open>A process's turn: acquire with any timeout, then release.\<close>

lemma FileLock_acquire_owns:
  assumes "kern_inv k" "\<And>n k. kern_inv k \<Longrightarrow> kern_inv (env_between env n k)" "map_of fds key = None"
    and "FileLock_acquire env pr p key timeoutMs fds k = (True, fds', k')"
  shows "\<exists>fd. fds' = smap_put key fd fds \<and> owns pr k' p key fd \<and> kern_inv k'"
proof -
  let ?path = "getLockFilePath pr key"
  obtain r k1 where r: "(if timeoutMs = 0 then tryFileLock (env_opens env) p ?path k
                        else acquire_loop env p ?path timeoutMs 0 0 k) = (r, k1)"
    by (rule prod.exhaust)
  with assms(3,4) obtain fd where fd: "r = Some fd" "fds' = smap_put key fd fds" "k' = k1"
    by (auto simp: FileLock_acquire_def Let_def split: option.splits)
  have "owns pr k1 p key fd \<and> kern_inv k1"
  proof (cases "timeoutMs = 0")
    case True
    with r fd have t: "tryFileLock (env_opens env) p ?path k = (Some fd, k1)" by simp
    with try_success(1) [OF assms(1) t] kern_inv_try [OF assms(1), of "env_opens env" p ?path]
    show ?thesis by simp
  next
    case False
    with r fd have "acquire_loop env p ?path timeoutMs 0 0 k = (Some fd, k1)" by simp
    from acquire_loop_owns [OF assms(1,2) this] show ?thesis .
  qed
  with fd show ?thesis by blast
qed

lemma release_frees:
  assumes "owns pr k p key fd" "kern_inv k"
  shows "path_ino (k_unlink (getLockFilePath pr key) (releaseFileLock p fd k)) (getLockFilePath pr key) = None"
    and "open_fds (releaseFileLock p fd k) (p, fd) = None"
    and "\<forall>i. owner (releaseFileLock p fd k) i \<noteq> Some (p, fd)"
proof -
  obtain i where i: "owner k i = Some (p, fd)" using assms(1) by (auto simp: owns_def)
  with assms(2) have o: "open_fds k (p, fd) = Some i" and fd: "fd \<ge> 0" unfolding kern_inv_def by blast+
  have uniq: "j = i" if "owner k j = Some (p, fd)" for j
    using that o assms(2) unfolding kern_inv_def by (metis option.inject)
  show "\<forall>j. owner (releaseFileLock p fd k) j \<noteq> Some (p, fd)"
    and "open_fds (releaseFileLock p fd k) (p, fd) = None"
    using i o fd by (auto simp: releaseFileLock_def k_close_def k_unlock_def Let_def dest: uniq)
  show "path_ino (k_unlink (getLockFilePath pr key) (releaseFileLock p fd k)) (getLockFilePath pr key) = None"
    by (simp add: k_unlink_def)
qed

section \<open>Properties\<close>

text \<open>C19. Processes whose acquire attempts, releases and shutdowns run without interruption never hold
  the lock of one key at the same time.\<close>

theorem lock_mutual_exclusion:
  assumes "lock_reach pr s" "FileLock_isHeld key (held s p)" "FileLock_isHeld key (held s q)"
  shows "p = q"
proof -
  obtain fd fd' where "map_of (held s p) key = Some fd" "map_of (held s q) key = Some fd'"
    using assms(2,3) by (auto simp: FileLock_isHeld_def)
  with locks_inv_reach [OF assms(1)] have "owns pr (kernel s) p key fd" "owns pr (kernel s) q key fd'"
    by (simp_all add: locks_inv_def)
  then show ?thesis using owns_unique by blast
qed

theorem lock_mutual_exclusion_witness:
  "\<exists>s. lock_reach \<lparr>m_serviceName = ''svc'', m_storeRoot = ''/d/''\<rparr> s
     \<and> FileLock_isHeld ''k'' (held s 1) \<and> (\<forall>q. FileLock_isHeld ''k'' (held s q) \<longrightarrow> q = 1)"
proof -
  let ?pr = "\<lparr>m_serviceName = ''svc'', m_storeRoot = ''/d/''\<rparr>"
  let ?s0 = "\<lparr>kernel = kern_init, held = (\<lambda>_. [])\<rparr>"
  let ?r = "FileLock_acquire (attempt True 1 (kernel ?s0)) ?pr 1 ''k'' 0 (held ?s0 1) (kernel ?s0)"
  have h: "fst (snd ?r) = [(''k'', 3)]"
    by (simp add: FileLock_acquire_def attempt_def tryFileLock_def k_open_def k_flock_def kern_init_def Let_def)
  let ?s = "?s0\<lparr>kernel := snd (snd ?r), held := (held ?s0)(1 := fst (snd ?r))\<rparr>"
  have "?r = (fst ?r, fst (snd ?r), snd (snd ?r))" by simp
  then have reach: "lock_reach ?pr ?s"
    by (rule reach_op [OF reach_init op_acquire])
  have one: "FileLock_isHeld ''k'' (held ?s 1)"
    unfolding FileLock_isHeld_def using h by simp
  have "FileLock_isHeld ''k'' (held ?s q) \<Longrightarrow> q = 1" for q
    by (rule lock_mutual_exclusion [OF reach _ one])
  with reach one show ?thesis by blast
qed

text \<open>The calls inside a release are not one step: a process that opened the lock file before the
  holder's release and locks it after the release owns an unlinked file, and a third process locks
  a new file of the same name, so two processes hold the lock of the key.\<close>

theorem lock_unlink_race:
  "let path = getLockFilePath pr key;
       (ra, k1) = tryFileLock True 0 path kern_init;
       (fdb, k2) = k_open 1 path k1;
       k3 = releaseFileLock 0 (the ra) k2;
       (okb, k4) = k_flock 1 fdb k3;
       k5 = k_unlink path k4;
       (rc, k6) = tryFileLock True 2 path k5
   in ra \<noteq> None \<and> okb \<and> rc \<noteq> None \<and> owner k6 0 = Some (1, fdb) \<and> owner k6 1 = Some (2, the rc)"
  by (simp add: tryFileLock_def k_open_def k_flock_def kern_init_def releaseFileLock_def k_close_def
      k_unlock_def k_unlink_def Let_def)

text \<open>A key this object already holds is acquired again at once, with no change: the lock does not
  keep two threads of one process apart, and the first release frees it for both.\<close>

theorem lock_not_exclusive_in_process:
  assumes "FileLock_isHeld key fds"
  shows "FileLock_acquire env pr p key timeoutMs fds k = (True, fds, k)
    \<and> \<not> FileLock_isHeld key (fst (FileLock_release pr p key fds k))"
  using assms by (auto simp: FileLock_isHeld_def FileLock_acquire_def FileLock_release_def split: option.splits)

theorem lock_not_exclusive_in_process_witness:
  "FileLock_acquire (attempt True 1 kern_init) \<lparr>m_serviceName = ''svc'', m_storeRoot = ''/d/''\<rparr> 1 ''k'' 1000 [(''k'', 3)] kern_init = (True, [(''k'', 3)], kern_init)"
  using lock_not_exclusive_in_process [of "''k''" "[(''k'', 3)]" "attempt True 1 kern_init"
    "\<lparr>m_serviceName = ''svc'', m_storeRoot = ''/d/''\<rparr>" 1 1000 kern_init]
  by (simp add: FileLock_isHeld_def)

end
