(* ===== verification/Store.thy ===== *)
theory Store
  imports Store_Lock Utils
begin

text \<open>
  The key-value store (\<open>src/store/store.cpp\<close>, \<open>include/store.h\<close>) with its serializer
  (\<open>src/store/store_serializer.h\<close>, \<open>.cpp\<close>) and flush policy (\<open>src/store/store_flush_policy.cpp\<close>),
  over the atomic writer of \<open>Store_Io\<close> and the file lock of \<open>Store_Lock\<close>.  The store refines a map
  from keys to bytes.
\<close>

section \<open>Types (store_types.h)\<close>

datatype StoreError = kPathUnavailable | kAtomicWriteFailed | kLockFailed | kSerializationFailed | kKeyNotFound

record StoreErrorInfo =
  err_code :: StoreError
  err_message :: string
  err_key :: string

definition store_error :: "StoreError \<Rightarrow> string \<Rightarrow> string \<Rightarrow> StoreErrorInfo" where
  "store_error c m k = \<lparr>err_code = c, err_message = m, err_key = k\<rparr>"

section \<open>Serializer\<close>

text \<open>The two template members at one type, and whether the type is \<open>std::string\<close>.\<close>

record 'v codec =
  serialize :: "'v \<Rightarrow> string"
  deserialize :: "string \<Rightarrow> 'v option"
  is_string :: bool

definition int_codec :: "int codec" where
  "int_codec = \<lparr>serialize = show_int, deserialize = (\<lambda>s. if s = [] then None else stoi 10 s), is_string = False\<rparr>"

text \<open>Extraction of a \<open>bool\<close> reads a number and fails unless it is 0 or 1.\<close>

definition bool_codec :: "bool codec" where
  "bool_codec =
     \<lparr>serialize = (\<lambda>b. if b then ''1'' else ''0''),
      deserialize = (\<lambda>s. if s = [] then None
                         else if stoi 10 s = Some 0 then Some False
                         else if stoi 10 s = Some 1 then Some True else None),
      is_string = False\<rparr>"

definition string_codec :: "string codec" where
  "string_codec = \<lparr>serialize = (\<lambda>s. s), deserialize = Some, is_string = True\<rparr>"

text \<open>What the store relies on: a stored value reads back, and only strings serialize to nothing.\<close>

locale value_codec =
  fixes cd :: "'v codec" and valid :: "'v \<Rightarrow> bool"
  assumes read_back: "valid v \<Longrightarrow> deserialize cd (serialize cd v) = Some v"
    and nonempty: "valid v \<Longrightarrow> \<not> is_string cd \<Longrightarrow> serialize cd v \<noteq> []"
begin

lemma never_rejected: "valid v \<Longrightarrow> \<not> (serialize cd v = [] \<and> \<not> is_string cd)"
  using nonempty by blast

lemma serialize_inj: "valid v \<Longrightarrow> valid w \<Longrightarrow> serialize cd v = serialize cd w \<Longrightarrow> v = w"
  using read_back by (metis option.inject)

end

interpretation int_values: value_codec int_codec "\<lambda>v. - int_max - 1 \<le> v \<and> v \<le> int_max"
  by unfold_locales (auto simp: int_codec_def stoi_show_int)

lemma stoi_01: "stoi 10 ''0'' = Some 0" "stoi 10 ''1'' = Some 1"
  by code_simp+

interpretation bool_values: value_codec bool_codec "\<lambda>v. True"
  by unfold_locales (auto simp: bool_codec_def stoi_01)

interpretation string_values: value_codec string_codec "\<lambda>v. True"
  by unfold_locales (auto simp: string_codec_def)

section \<open>FlushPolicy\<close>

record FlushPolicyConfig =
  enableDebounce :: bool
  debounceMs :: nat
  maxDirtyCount :: nat
  enableBatch :: bool

definition default_flush_config :: FlushPolicyConfig where
  "default_flush_config = \<lparr>enableDebounce = True, debounceMs = 1000, maxDirtyCount = 10, enableBatch = True\<rparr>"

text \<open>Times are nanoseconds of the steady clock; \<open>t\<close> is the reading an operation takes.\<close>

record DirtyEntry =
  dirty :: bool
  lastDirtyTime :: nat

record FlushPolicy =
  fp_config :: FlushPolicyConfig
  m_dirtyEntries :: "(string \<times> DirtyEntry) list"

definition FlushPolicy_new :: "FlushPolicyConfig \<Rightarrow> FlushPolicy" where
  "FlushPolicy_new c = \<lparr>fp_config = c, m_dirtyEntries = []\<rparr>"

definition markDirty :: "nat \<Rightarrow> string \<Rightarrow> FlushPolicy \<Rightarrow> FlushPolicy" where
  "markDirty t key fp =
     fp\<lparr>m_dirtyEntries := smap_put key \<lparr>dirty = True, lastDirtyTime = t\<rparr> (m_dirtyEntries fp)\<rparr>"

definition clearDirty :: "string \<Rightarrow> FlushPolicy \<Rightarrow> FlushPolicy" where
  "clearDirty key fp = fp\<lparr>m_dirtyEntries := smap_erase key (m_dirtyEntries fp)\<rparr>"

definition isDirty :: "string \<Rightarrow> FlushPolicy \<Rightarrow> bool" where
  "isDirty key fp = (case map_of (m_dirtyEntries fp) key of Some e \<Rightarrow> dirty e | None \<Rightarrow> False)"

definition checkDebounce :: "nat \<Rightarrow> DirtyEntry \<Rightarrow> FlushPolicy \<Rightarrow> bool" where
  "checkDebounce t e fp = ((t - lastDirtyTime e) div 1000000 \<ge> debounceMs (fp_config fp))"

definition shouldFlush :: "nat \<Rightarrow> FlushPolicy \<Rightarrow> bool" where
  "shouldFlush t fp =
     (if m_dirtyEntries fp = [] then False
      else
        (let dirtyCount = length (filter (\<lambda>p. dirty (snd p)) (m_dirtyEntries fp)) in
         if dirtyCount \<ge> maxDirtyCount (fp_config fp) then True
         else if enableDebounce (fp_config fp)
              then list_ex (\<lambda>p. dirty (snd p) \<and> checkDebounce t (snd p) fp) (m_dirtyEntries fp)
              else False))"

definition getDirtyKeys :: "FlushPolicy \<Rightarrow> string list" where
  "getDirtyKeys fp = map fst (filter (\<lambda>p. dirty (snd p)) (m_dirtyEntries fp))"

definition reset :: "FlushPolicy \<Rightarrow> FlushPolicy" where
  "reset fp = fp\<lparr>m_dirtyEntries := []\<rparr>"

section \<open>Store::Impl\<close>

text \<open>The world a store works on: the disk, the lock kernel and the number of its process.\<close>

record world =
  w_disk :: disk
  w_kern :: kern
  w_pid :: nat

record Store =
  m_pathResolver :: PathResolver
  m_fileLock :: lock_fds
  m_flushPolicy :: FlushPolicy
  m_ready :: bool

text \<open>\<open>Store::open\<close>; \<open>None\<close> is the exception of the path resolver.\<close>

definition Store_open :: "(string \<Rightarrow> bool) \<Rightarrow> string \<Rightarrow> string \<Rightarrow> world \<Rightarrow> (Store \<times> world) option" where
  "Store_open mk serviceName storeRoot w =
     (case PathResolver_new serviceName storeRoot of
        None \<Rightarrow> None
      | Some pr \<Rightarrow>
          (let (ok, d) = ensureDirectory mk pr (w_disk w)
           in Some (\<lparr>m_pathResolver = pr, m_fileLock = [], m_flushPolicy = FlushPolicy_new default_flush_config,
                     m_ready = ok\<rparr>, w\<lparr>w_disk := d\<rparr>)))"

definition lock_key :: "lock_env \<Rightarrow> string \<Rightarrow> Store \<Rightarrow> world \<Rightarrow> bool \<times> Store \<times> world" where
  "lock_key le key st w =
     (let (ok, fds, k) = FileLock_acquire le (m_pathResolver st) (w_pid w) key 1000 (m_fileLock st) (w_kern w)
      in (ok, st\<lparr>m_fileLock := fds\<rparr>, w\<lparr>w_kern := k\<rparr>))"

definition unlock_key :: "string \<Rightarrow> Store \<Rightarrow> world \<Rightarrow> Store \<times> world" where
  "unlock_key key st w =
     (let (fds, k) = FileLock_release (m_pathResolver st) (w_pid w) key (m_fileLock st) (w_kern w)
      in (st\<lparr>m_fileLock := fds\<rparr>, w\<lparr>w_kern := k\<rparr>))"

definition write_key :: "io \<Rightarrow> string \<Rightarrow> string \<Rightarrow> Store \<Rightarrow> world \<Rightarrow> bool \<times> world" where
  "write_key io key bytes st w =
     (let (ok, r) = AtomicWriter_write io (m_pathResolver st) key bytes ([], w_disk w)
      in (ok, w\<lparr>w_disk := now r\<rparr>))"

definition save :: "'v codec \<Rightarrow> lock_env \<Rightarrow> io \<Rightarrow> string \<Rightarrow> 'v \<Rightarrow> Store \<Rightarrow> world
    \<Rightarrow> (StoreErrorInfo + unit) \<times> Store \<times> world" where
  "save cd le io key val st w =
     (if \<not> m_ready st then (Inl (store_error kPathUnavailable ''Store not ready'' key), st, w)
      else
        (let (locked, st1, w1) = lock_key le key st w in
         if \<not> locked then (Inl (store_error kLockFailed ''Failed to acquire lock'' key), st1, w1)
         else
           (let bytes = serialize cd val in
            if bytes = [] \<and> \<not> is_string cd then
              (let (st2, w2) = unlock_key key st1 w1
               in (Inl (store_error kSerializationFailed ''Failed to serialize value'' key), st2, w2))
            else
              (let (written, w2) = write_key io key bytes st1 w1 in
               if \<not> written then
                 (let (st3, w3) = unlock_key key st1 w2
                  in (Inl (store_error kAtomicWriteFailed ''Failed to write atomically'' key), st3, w3))
               else
                 (let st2 = st1\<lparr>m_flushPolicy := clearDirty key (m_flushPolicy st1)\<rparr>;
                      (st3, w3) = unlock_key key st2 w2
                  in (Inr (), st3, w3))))))"

text \<open>\<open>opens\<close>: the input stream could be opened.\<close>

definition load :: "'v codec \<Rightarrow> bool \<Rightarrow> string \<Rightarrow> Store \<Rightarrow> world \<Rightarrow> StoreErrorInfo + 'v" where
  "load cd opens key st w =
     (if \<not> m_ready st then Inl (store_error kPathUnavailable ''Store not ready'' key)
      else if \<not> AtomicWriter_exists (m_pathResolver st) key (w_disk w)
           then Inl (store_error kKeyNotFound ''Key not found'' key)
      else if \<not> opens then Inl (store_error kAtomicWriteFailed ''Failed to open file'' key)
      else
        (let bytes = the (file_at (w_disk w) (getKeyPath (m_pathResolver st) key))
         in case deserialize cd bytes of
              None \<Rightarrow> Inl (store_error kSerializationFailed ''Failed to deserialize value'' key)
            | Some v \<Rightarrow> Inr v))"

definition loadOr :: "'v codec \<Rightarrow> bool \<Rightarrow> string \<Rightarrow> 'v \<Rightarrow> Store \<Rightarrow> world \<Rightarrow> StoreErrorInfo + 'v" where
  "loadOr cd opens key defaultValue st w =
     (case load cd opens key st w of
        Inr v \<Rightarrow> Inr v
      | Inl e \<Rightarrow> if err_code e = kKeyNotFound then Inr defaultValue else Inl e)"

definition has :: "string \<Rightarrow> Store \<Rightarrow> world \<Rightarrow> bool" where
  "has key st w = (if \<not> m_ready st then False else AtomicWriter_exists (m_pathResolver st) key (w_disk w))"

definition remove :: "lock_env \<Rightarrow> bool \<Rightarrow> string \<Rightarrow> Store \<Rightarrow> world \<Rightarrow> (StoreErrorInfo + unit) \<times> Store \<times> world" where
  "remove le unlink_ok key st w =
     (if \<not> m_ready st then (Inl (store_error kPathUnavailable ''Store not ready'' key), st, w)
      else
        (let (locked, st1, w1) = lock_key le key st w in
         if \<not> locked then (Inl (store_error kLockFailed ''Failed to acquire lock'' key), st1, w1)
         else
           (let (_, d) = AtomicWriter_remove unlink_ok (m_pathResolver st1) key (w_disk w1);
                w2 = w1\<lparr>w_disk := d\<rparr>;
                st2 = st1\<lparr>m_flushPolicy := clearDirty key (m_flushPolicy st1)\<rparr>;
                (st3, w3) = unlock_key key st2 w2
            in (Inr (), st3, w3))))"

definition flush :: "Store \<Rightarrow> Store" where
  "flush st = st\<lparr>m_flushPolicy := reset (m_flushPolicy st)\<rparr>"

definition isReady :: "Store \<Rightarrow> bool" where
  "isReady st = m_ready st"

text \<open>The destructor of \<open>Impl\<close> is the one of its members: the lock object lets go of what it holds.\<close>

definition Store_destroy :: "Store \<Rightarrow> world \<Rightarrow> world" where
  "Store_destroy st w = w\<lparr>w_kern := snd (FileLock_destroy (w_pid w) (m_fileLock st) (w_kern w))\<rparr>"

text \<open>\<open>entries\<close>: what \<open>readdir\<close> delivers (\<open>None\<close>: the directory cannot be opened); \<open>rm p\<close>: the kernel
  removes directory \<open>p\<close>.\<close>

definition parent_of :: "string \<Rightarrow> string" where
  "parent_of p = rev (dropWhile (\<lambda>c. c \<noteq> CHR ''/'') (rev (butlast p)))"

definition sys_rmdir :: "(string \<Rightarrow> bool) \<Rightarrow> string \<Rightarrow> disk \<Rightarrow> disk" where
  "sys_rmdir rm p d = (if rm p then d\<lparr>dirs := (dirs d)(p := False)\<rparr> else d)"

definition cleanup :: "string list option \<Rightarrow> (string \<Rightarrow> bool) \<Rightarrow> Store \<Rightarrow> world \<Rightarrow> Store \<times> world" where
  "cleanup entries rm st w =
     (if \<not> m_ready st then (st, w)
      else case entries of
        None \<Rightarrow> (st, w)
      | Some es \<Rightarrow>
          (let storePath = getStorePath (m_pathResolver st);
               d1 = foldl (\<lambda>d name. if name = ''.'' \<or> name = ''..'' then d
                                    else sys_unlink (storePath @ name) d) (w_disk w) es;
               d2 = sys_rmdir rm storePath d1;
               d3 = sys_rmdir rm (parent_of storePath) d2
           in (st\<lparr>m_ready := False\<rparr>, w\<lparr>w_disk := d3\<rparr>)))"

section \<open>What the store relies on of the writer\<close>

text \<open>
  A backend of cells: a put either replaces one cell or reports a failure and leaves the old or the new
  content; no operation touches another cell.
\<close>

locale cell_backend =
  fixes ok :: "'d \<Rightarrow> bool"
    and get :: "'d \<Rightarrow> 'k \<Rightarrow> 'b option"
    and put :: "'o \<Rightarrow> 'k \<Rightarrow> 'b \<Rightarrow> 'd \<Rightarrow> bool \<times> 'd"
    and del :: "bool \<Rightarrow> 'k \<Rightarrow> 'd \<Rightarrow> bool \<times> 'd"
  assumes put_ok: "ok d \<Longrightarrow> put p k b d = (r, d') \<Longrightarrow> ok d'"
    and put_get: "ok d \<Longrightarrow> put p k b d = (True, d') \<Longrightarrow> get d' k = Some b"
    and put_fail: "ok d \<Longrightarrow> put p k b d = (False, d') \<Longrightarrow> get d' k = get d k \<or> get d' k = Some b"
    and put_other: "ok d \<Longrightarrow> put p k b d = (r, d') \<Longrightarrow> k' \<noteq> k \<Longrightarrow> get d' k' = get d k'"
    and del_ok: "ok d \<Longrightarrow> del u k d = (r, d') \<Longrightarrow> ok d'"
    and del_get: "ok d \<Longrightarrow> del u k d = (True, d') \<Longrightarrow> get d' k = None"
    and del_fail: "ok d \<Longrightarrow> del u k d = (False, d') \<Longrightarrow> get d' k = get d k"
    and del_other: "ok d \<Longrightarrow> del u k d = (r, d') \<Longrightarrow> k' \<noteq> k \<Longrightarrow> get d' k' = get d k'"
begin

text \<open>A request is a put (\<open>Inl\<close>) or a delete (\<open>Inr\<close>); a history runs them in order.\<close>

definition request :: "'o \<times> 'k \<times> 'b + bool \<times> 'k \<Rightarrow> 'd \<Rightarrow> 'd" where
  "request q d = (case q of Inl (p, k, b) \<Rightarrow> snd (put p k b d) | Inr (u, k) \<Rightarrow> snd (del u k d))"

definition about :: "'k \<Rightarrow> 'o \<times> 'k \<times> 'b + bool \<times> 'k \<Rightarrow> bool" where
  "about k q = (case q of Inl (p, k', b) \<Rightarrow> k' = k | Inr (u, k') \<Rightarrow> k' = k)"

lemma request_ok: "ok d \<Longrightarrow> ok (request q d)"
proof (cases q)
  case (Inl a)
  obtain p k b where "a = (p, k, b)" by (rule prod_cases3)
  with Inl show "ok d \<Longrightarrow> ok (request q d)"
    using put_ok [of d p k b "fst (put p k b d)" "snd (put p k b d)"] by (simp add: request_def)
next
  case (Inr a)
  obtain u k where "a = (u, k)" by (rule prod.exhaust)
  with Inr show "ok d \<Longrightarrow> ok (request q d)"
    using del_ok [of d u k "fst (del u k d)" "snd (del u k d)"] by (simp add: request_def)
qed

lemma request_frame: "ok d \<Longrightarrow> \<not> about k' q \<Longrightarrow> get (request q d) k' = get d k'"
proof (cases q)
  case (Inl a)
  obtain p k b where "a = (p, k, b)" by (rule prod_cases3)
  with Inl show "ok d \<Longrightarrow> \<not> about k' q \<Longrightarrow> get (request q d) k' = get d k'"
    using put_other [of d p k b "fst (put p k b d)" "snd (put p k b d)" k']
    by (simp add: request_def about_def)
next
  case (Inr a)
  obtain u k where "a = (u, k)" by (rule prod.exhaust)
  with Inr show "ok d \<Longrightarrow> \<not> about k' q \<Longrightarrow> get (request q d) k' = get d k'"
    using del_other [of d u k "fst (del u k d)" "snd (del u k d)" k']
    by (simp add: request_def about_def)
qed

definition history :: "('o \<times> 'k \<times> 'b + bool \<times> 'k) list \<Rightarrow> 'd \<Rightarrow> 'd" where
  "history qs d = foldl (\<lambda>d q. request q d) d qs"

lemma history_ok: "ok d \<Longrightarrow> ok (history qs d)"
  unfolding history_def by (induction qs arbitrary: d) (simp_all add: request_ok)

lemma history_frame:
  "ok d \<Longrightarrow> \<forall>q \<in> set qs. \<not> about k q \<Longrightarrow> get (history qs d) k = get d k"
  unfolding history_def by (induction qs arbitrary: d) (simp_all add: request_ok request_frame)

text \<open>The last acknowledged put of a cell is what it holds.\<close>

lemma last_put:
  assumes "ok d" "fst (put p k b (history qs d))"
    and "\<forall>q \<in> set rs. \<not> about k q"
  shows "get (history (qs @ Inl (p, k, b) # rs) d) k = Some b"
proof -
  let ?d = "history qs d"
  have ok: "ok ?d" using assms(1) by (rule history_ok)
  have "put p k b ?d = (True, snd (put p k b ?d))" using assms(2) by (simp add: prod_eq_iff)
  from put_ok [OF ok this] put_get [OF ok this]
  have "ok (snd (put p k b ?d))" and "get (snd (put p k b ?d)) k = Some b" by auto
  with history_frame [OF _ assms(3)] show ?thesis by (simp add: history_def request_def)
qed

end

definition cell :: "PathResolver \<Rightarrow> disk \<Rightarrow> string \<Rightarrow> string option" where
  "cell pr d key = file_at d (getKeyPath pr key)"

definition put_cell :: "PathResolver \<Rightarrow> io \<Rightarrow> string \<Rightarrow> string \<Rightarrow> disk \<Rightarrow> bool \<times> disk" where
  "put_cell pr io key b d = (let (ok, r) = AtomicWriter_write io pr key b ([], d) in (ok, now r))"

lemma file_at_unlink:
  "disk_inv d \<Longrightarrow> file_at (sys_unlink p d) q = (if q = p then None else file_at d q)"
  by (simp add: sys_unlink_def file_at_def)

lemma put_cell_effect:
  assumes "disk_inv d" "put_cell pr io key b d = (ok, d')"
  shows "disk_inv d'" and "ok \<Longrightarrow> cell pr d' key = Some b"
    and "\<not> ok \<Longrightarrow> cell pr d' key = cell pr d key \<or> cell pr d' key = Some b"
    and "key' \<noteq> key \<Longrightarrow> cell pr d' key' = cell pr d key'"
proof -
  obtain r where w: "AtomicWriter_write io pr key b ([], d) = (ok, r)" and d': "d' = now r"
    using assms(2) by (auto simp: put_cell_def split: prod.splits)
  from AtomicWriter_write_effect [OF assms(1) w]
  have safe: "write_safe d (getKeyPath pr key) b d'"
    and "ok \<Longrightarrow> cell pr d' key = Some b"
    and "\<not> ok \<Longrightarrow> cell pr d' key = cell pr d key \<or> cell pr d' key = Some b"
    by (auto simp: d' cell_def)
  then show "disk_inv d'" "ok \<Longrightarrow> cell pr d' key = Some b"
    "\<not> ok \<Longrightarrow> cell pr d' key = cell pr d key \<or> cell pr d' key = Some b"
    "key' \<noteq> key \<Longrightarrow> cell pr d' key' = cell pr d key'"
    by (auto simp: write_safe_def cell_def)
qed

interpretation cells: cell_backend disk_inv "cell pr" "put_cell pr" "\<lambda>u k d. AtomicWriter_remove u pr k d"
proof
  show "disk_inv d \<Longrightarrow> put_cell pr p k b d = (r, d') \<Longrightarrow> disk_inv d'" for d p k b r d'
    by (rule put_cell_effect(1))
  show "disk_inv d \<Longrightarrow> put_cell pr p k b d = (True, d') \<Longrightarrow> cell pr d' k = Some b" for d p k b d'
    using put_cell_effect(2) by blast
  show "disk_inv d \<Longrightarrow> put_cell pr p k b d = (False, d') \<Longrightarrow> cell pr d' k = cell pr d k \<or> cell pr d' k = Some b"
    for d p k b d'
    using put_cell_effect(3) by blast
  show "disk_inv d \<Longrightarrow> put_cell pr p k b d = (r, d') \<Longrightarrow> k' \<noteq> k \<Longrightarrow> cell pr d' k' = cell pr d k'"
    for d p k b r d' k'
    using put_cell_effect(4) by blast
  show "disk_inv d \<Longrightarrow> AtomicWriter_remove u pr k d = (r, d') \<Longrightarrow> disk_inv d'" for d u k r d'
    by (auto simp: AtomicWriter_remove_def intro: disk_inv_unlink split: if_splits)
  show "disk_inv d \<Longrightarrow> AtomicWriter_remove u pr k d = (True, d') \<Longrightarrow> cell pr d' k = None" for d u k d'
    by (auto simp: AtomicWriter_remove_def cell_def file_at_unlink split: if_splits)
  show "disk_inv d \<Longrightarrow> AtomicWriter_remove u pr k d = (False, d') \<Longrightarrow> cell pr d' k = cell pr d k" for d u k d'
    by (auto simp: AtomicWriter_remove_def split: if_splits)
  show "disk_inv d \<Longrightarrow> AtomicWriter_remove u pr k d = (r, d') \<Longrightarrow> k' \<noteq> k \<Longrightarrow> cell pr d' k' = cell pr d k'"
    for d u k r d' k'
    by (auto simp: AtomicWriter_remove_def cell_def file_at_unlink split: if_splits)
qed

section \<open>Operations\<close>

lemma smap_erase_put: "map_of m k = None \<Longrightarrow> smap_erase k (smap_put k v m) = m"
proof (induction k v m rule: smap_put.induct)
  case (2 k v k' v' r)
  have "map_of r k = None \<Longrightarrow> filter (\<lambda>p. fst p \<noteq> k) r = r"
    by (auto simp: filter_id_conv map_of_eq_None_iff image_iff)
  with 2 show ?case by (auto simp: smap_erase_def split: if_splits)
qed (simp add: smap_erase_def)

text \<open>Taking a free lock and giving it back leaves the object's table as it was, and neither call
  touches the disk or the other fields.\<close>

lemma lock_key_frame [frame_simps]:
  assumes "lock_key le key st w = (ok, st1, w1)"
  shows "w_disk w1 = w_disk w" "w_pid w1 = w_pid w" "m_pathResolver st1 = m_pathResolver st"
    "m_flushPolicy st1 = m_flushPolicy st" "m_ready st1 = m_ready st"
    "\<not> ok \<Longrightarrow> m_fileLock st1 = m_fileLock st"
  using assms
  by (auto simp: lock_key_def FileLock_acquire_def Let_def split: prod.splits if_splits option.splits)

lemma unlock_key_frame [frame_simps]:
  assumes "unlock_key key st w = (st1, w1)"
  shows "w_disk w1 = w_disk w" "w_pid w1 = w_pid w" "m_pathResolver st1 = m_pathResolver st"
    "m_flushPolicy st1 = m_flushPolicy st" "m_ready st1 = m_ready st"
  using assms by (auto simp: unlock_key_def split: prod.splits)

lemma lock_unlock:
  assumes "lock_key le key st w = (True, st1, w1)" "m_fileLock st = []"
    and "unlock_key key st2 w2 = (st3, w3)" "m_fileLock st2 = m_fileLock st1"
  shows "m_fileLock st3 = []"
proof -
  obtain fd where "m_fileLock st1 = smap_put key fd []"
    using assms(1,2)
    by (auto simp: lock_key_def FileLock_acquire_def Let_def split: prod.splits if_splits option.splits)
  with assms(3,4) show ?thesis
    by (auto simp: unlock_key_def FileLock_release_def smap_erase_def split: prod.splits)
qed

lemma write_key_frame [frame_simps]:
  assumes "write_key io key bytes st w = (ok, w1)"
  shows "w_kern w1 = w_kern w" "w_pid w1 = w_pid w"
    "put_cell (m_pathResolver st) io key bytes (w_disk w) = (ok, w_disk w1)"
  using assms by (auto simp: write_key_def put_cell_def split: prod.splits)

text \<open>The map from keys to bytes a store stands for.\<close>

definition contents :: "Store \<Rightarrow> world \<Rightarrow> string \<Rightarrow> string option" where
  "contents st w = cell (m_pathResolver st) (w_disk w)"

definition store_inv :: "Store \<Rightarrow> world \<Rightarrow> bool" where
  "store_inv st w \<longleftrightarrow> disk_inv (w_disk w) \<and> m_fileLock st = []"

lemma save_effect:
  assumes "store_inv st w" "save cd le io key val st w = (res, st', w')"
  shows "store_inv st' w' \<and> m_pathResolver st' = m_pathResolver st \<and> m_ready st' = m_ready st
    \<and> (\<forall>k. k \<noteq> key \<longrightarrow> contents st' w' k = contents st w k)
    \<and> (case res of
         Inr _ \<Rightarrow> m_ready st \<and> contents st' w' key = Some (serialize cd val) \<and> \<not> isDirty key (m_flushPolicy st')
       | Inl e \<Rightarrow> err_key e = key \<and> (contents st' w' key = contents st w key
           \<or> err_code e = kAtomicWriteFailed \<and> contents st' w' key = Some (serialize cd val)))"
proof (cases "m_ready st")
  case False
  with assms show ?thesis by (auto simp: save_def store_error_def)
next
  case True
  have inv: "disk_inv (w_disk w)" "m_fileLock st = []" using assms(1) by (auto simp: store_inv_def)
  obtain locked st1 w1 where l: "lock_key le key st w = (locked, st1, w1)" by (rule prod_cases3)
  note lf = lock_key_frame [OF l]
  show ?thesis
  proof (cases locked)
    case False
    with assms(2) True l lf inv show ?thesis by (auto simp: save_def store_error_def store_inv_def contents_def)
  next
    case locked: True
    show ?thesis
    proof (cases "serialize cd val = [] \<and> \<not> is_string cd")
      case True
      obtain st2 w2 where u: "unlock_key key st1 w1 = (st2, w2)" by (rule prod.exhaust)
      from True assms(2) \<open>m_ready st\<close> l locked u
      have "res = Inl (store_error kSerializationFailed ''Failed to serialize value'' key)" "st' = st2" "w' = w2"
        by (simp_all add: save_def Let_def)
      with lf unlock_key_frame [OF u] lock_unlock [OF l [unfolded eqTrueI [OF locked]] inv(2) u] inv show ?thesis
        by (auto simp: store_inv_def contents_def store_error_def)
    next
      case False
      obtain written w2 where wr: "write_key io key (serialize cd val) st1 w1 = (written, w2)" by (rule prod.exhaust)
      note wf = write_key_frame [OF wr]
      have put: "put_cell (m_pathResolver st) io key (serialize cd val) (w_disk w) = (written, w_disk w2)"
        using wf(3) lf by simp
      note eff = put_cell_effect [OF inv(1) put]
      define st2 where "st2 = (if written then st1\<lparr>m_flushPolicy := clearDirty key (m_flushPolicy st1)\<rparr> else st1)"
      obtain st3 w3 where u: "unlock_key key st2 w2 = (st3, w3)" by (rule prod.exhaust)
      have "res = (if written then Inr () else Inl (store_error kAtomicWriteFailed ''Failed to write atomically'' key))"
        "st' = st3" "w' = w3"
        using False assms(2) \<open>m_ready st\<close> l locked wr u
        by (auto simp: save_def Let_def st2_def split: if_splits)
      moreover have "m_fileLock st3 = []"
        by (rule lock_unlock [OF l [unfolded eqTrueI [OF locked]] inv(2) u]) (simp add: st2_def)
      moreover have "m_pathResolver st2 = m_pathResolver st" "m_ready st2 = m_ready st"
        "written \<Longrightarrow> m_flushPolicy st2 = clearDirty key (m_flushPolicy st)"
        using lf by (auto simp: st2_def)
      ultimately show ?thesis
        using unlock_key_frame [OF u] eff \<open>m_ready st\<close>
        by (auto simp: store_inv_def contents_def store_error_def isDirty_def clearDirty_def)
    qed
  qed
qed

lemma remove_effect:
  assumes "store_inv st w" "remove le unlink_ok key st w = (res, st', w')"
  shows "store_inv st' w' \<and> m_pathResolver st' = m_pathResolver st \<and> m_ready st' = m_ready st
    \<and> (\<forall>k. k \<noteq> key \<longrightarrow> contents st' w' k = contents st w k)
    \<and> (case res of
         Inr _ \<Rightarrow> m_ready st \<and> contents st' w' key = (if unlink_ok then None else contents st w key)
       | Inl e \<Rightarrow> err_key e = key \<and> contents st' w' key = contents st w key)"
proof (cases "m_ready st")
  case False
  with assms show ?thesis by (auto simp: remove_def store_error_def)
next
  case True
  have inv: "disk_inv (w_disk w)" "m_fileLock st = []" using assms(1) by (auto simp: store_inv_def)
  obtain locked st1 w1 where l: "lock_key le key st w = (locked, st1, w1)" by (rule prod_cases3)
  note lf = lock_key_frame [OF l]
  show ?thesis
  proof (cases locked)
    case False
    with assms(2) True l lf inv show ?thesis by (auto simp: remove_def store_error_def store_inv_def contents_def)
  next
    case locked: True
    obtain r d where rm: "AtomicWriter_remove unlink_ok (m_pathResolver st) key (w_disk w) = (r, d)" by (rule prod.exhaust)
    let ?w2 = "w1\<lparr>w_disk := d\<rparr>" and ?st2 = "st1\<lparr>m_flushPolicy := clearDirty key (m_flushPolicy st1)\<rparr>"
    obtain st3 w3 where u: "unlock_key key ?st2 ?w2 = (st3, w3)" by (rule prod.exhaust)
    have eq: "res = Inr ()" "st' = st3" "w' = w3"
      using assms(2) True l locked lf rm u by (auto simp: remove_def Let_def)
    have "m_fileLock st3 = []"
      by (rule lock_unlock [OF l [unfolded eqTrueI [OF locked]] inv(2) u]) simp
    moreover have "cell (m_pathResolver st) d key = (if unlink_ok then None else cell (m_pathResolver st) (w_disk w) key)"
      using rm inv(1)
      by (auto simp: AtomicWriter_remove_def cell_def sys_unlink_def file_at_def split: if_splits)
    moreover have "k \<noteq> key \<Longrightarrow> cell (m_pathResolver st) d k = cell (m_pathResolver st) (w_disk w) k" for k
      using cells.del_other [OF inv(1) rm] by blast
    moreover have "disk_inv d" by (rule cells.del_ok [OF inv(1) rm])
    ultimately show ?thesis
      using eq unlock_key_frame [OF u] lf True by (simp add: store_inv_def contents_def)
  qed
qed

lemma exists_contents: "AtomicWriter_exists (m_pathResolver st) key (w_disk w) \<longleftrightarrow> contents st w key \<noteq> None"
  by (simp add: AtomicWriter_exists_def contents_def cell_def file_at_def)

lemma has_contents: "has key st w \<longleftrightarrow> m_ready st \<and> contents st w key \<noteq> None"
  by (simp add: has_def AtomicWriter_exists_def contents_def cell_def file_at_def)

lemma load_contents:
  "load cd opens key st w =
     (if \<not> m_ready st then Inl (store_error kPathUnavailable ''Store not ready'' key)
      else case contents st w key of
        None \<Rightarrow> Inl (store_error kKeyNotFound ''Key not found'' key)
      | Some b \<Rightarrow> if \<not> opens then Inl (store_error kAtomicWriteFailed ''Failed to open file'' key)
          else case deserialize cd b of
            None \<Rightarrow> Inl (store_error kSerializationFailed ''Failed to deserialize value'' key)
          | Some v \<Rightarrow> Inr v)"
  by (auto simp: load_def exists_contents contents_def cell_def split: option.splits)

text \<open>Between operations the store holds no lock, so that its destruction touches nothing; and an operation fails
  for want of a directory exactly when the store says that it is not ready.\<close>

lemma store_destroy_idle: "store_inv st w \<Longrightarrow> Store_destroy st w = w"
  by (simp add: Store_destroy_def store_inv_def FileLock_destroy_def)

lemma unavailable_iff_not_ready:
  "save cd le io key val st w = (Inl e, st', w') \<Longrightarrow> err_code e = kPathUnavailable \<longleftrightarrow> \<not> isReady st"
  "load cd opens key st w = Inl e \<Longrightarrow> err_code e = kPathUnavailable \<longleftrightarrow> \<not> isReady st"
  "fst (remove le ok key st w) = Inl e \<Longrightarrow> err_code e = kPathUnavailable \<longleftrightarrow> \<not> isReady st"
  by (auto simp: save_def load_def remove_def isReady_def store_error_def Let_def split: if_splits prod.splits option.splits)

lemma cleanup_disk_inv:
  "disk_inv d \<Longrightarrow> disk_inv (foldl (\<lambda>d name. if name = ''.'' \<or> name = ''..'' then d else sys_unlink (p @ name) d) d es)"
  by (induction es arbitrary: d) (auto intro: disk_inv_unlink)

lemma cleanup_files:
  "file_at (foldl (\<lambda>d name. if name = ''.'' \<or> name = ''..'' then d else sys_unlink (p @ name) d) d es) q
   = (if q \<in> (\<lambda>n. p @ n) ` (set es - {''.'', ''..''}) then None else file_at d q)"
  by (induction es arbitrary: d) (auto simp: sys_unlink_def file_at_def)

section \<open>Properties\<close>

text \<open>C14. A save that returns makes every later load of the key, through any codec that reads its own
  output back, return the saved value, and leaves every other key's load as it was.\<close>

theorem save_then_load:
  assumes "value_codec cd valid" "valid val" "store_inv st w"
    and "save cd le io key val st w = (Inr u, st', w')"
  shows "load cd True key st' w' = Inr val \<and> loadOr cd True key dv st' w' = Inr val \<and> has key st' w'
    \<and> (k \<noteq> key \<longrightarrow> load cd' opens k st' w' = load cd' opens k st w)"
proof -
  have "m_ready st" "m_ready st' = m_ready st" "contents st' w' key = Some (serialize cd val)"
    "k \<noteq> key \<Longrightarrow> contents st' w' k = contents st w k"
    using save_effect [OF assms(3,4)] by auto
  then show ?thesis
    using value_codec.read_back [OF assms(1,2)]
    by (auto simp: load_contents loadOr_def has_contents)
qed

definition empty_world :: world where
  "empty_world =
     \<lparr>w_disk = \<lparr>names = Map.empty, bytes_of = (\<lambda>_. []), synced = (\<lambda>_. False), kept = (\<lambda>_. [None]),
                fresh = 0, dirs = (\<lambda>_. True)\<rparr>,
      w_kern = kern_init, w_pid = 1\<rparr>"

definition ready_store :: Store where
  "ready_store =
     \<lparr>m_pathResolver = \<lparr>m_serviceName = ''svc'', m_storeRoot = ''/d/''\<rparr>, m_fileLock = [],
      m_flushPolicy = FlushPolicy_new default_flush_config, m_ready = True\<rparr>"

definition good_io :: io where
  "good_io = \<lparr>io_creat = True, io_written = Some 100, io_open = True, io_fsync = True, io_rename = True,
              io_opendir = True, io_fsyncdir = True\<rparr>"

lemma empty_world_inv: "store_inv ready_store empty_world"
  by (simp add: store_inv_def ready_store_def empty_world_def disk_inv_def)

lemma save_runs: "fst (save int_codec (attempt True 1 kern_init) good_io ''k'' 42 ready_store empty_world) = Inr ()"
  by code_simp

theorem save_then_load_witness:
  "\<exists>st w. load int_codec True ''k'' st w = Inr 42"
proof -
  let ?r = "save int_codec (attempt True 1 kern_init) good_io ''k'' 42 ready_store empty_world"
  have "?r = (Inr (), fst (snd ?r), snd (snd ?r))" using save_runs by (simp add: prod_eq_iff)
  from save_then_load [OF int_values.value_codec_axioms [unfolded int_max_def] _ empty_world_inv this,
      of 0 "''z''" int_codec True]
  show ?thesis by auto
qed

text \<open>C40. A save that fails names the key, gives the lock back and leaves the stored bytes as they were;
  only FW-0102 can be reported with the new bytes in place.\<close>

theorem save_failure:
  assumes "store_inv st w" "save cd le io key val st w = (Inl e, st', w')"
  shows "err_key e = key \<and> store_inv st' w' \<and> m_fileLock st' = []
    \<and> (contents st' w' key = contents st w key
       \<or> err_code e = kAtomicWriteFailed \<and> contents st' w' key = Some (serialize cd val))
    \<and> (k \<noteq> key \<longrightarrow> contents st' w' k = contents st w k)"
  using save_effect [OF assms] by (auto simp: store_inv_def)

theorem save_failure_witness:
  "\<exists>e st w. save int_codec (attempt False 1 kern_init) good_io ''k'' 42 (ready_store\<lparr>m_ready := False\<rparr>) empty_world
     = (Inl e, st, w) \<and> err_key e = ''k''"
proof -
  let ?st = "ready_store\<lparr>m_ready := False\<rparr>"
  have run: "save int_codec (attempt False 1 kern_init) good_io ''k'' 42 ?st empty_world
      = (Inl (store_error kPathUnavailable ''Store not ready'' ''k''), ?st, empty_world)"
    by (simp add: save_def)
  have "store_inv ?st empty_world" using empty_world_inv by (simp add: store_inv_def)
  from save_failure [OF this run]
  have "err_key (store_error kPathUnavailable ''Store not ready'' ''k'') = ''k''" by (rule conjunct1)
  with run show ?thesis by (intro exI conjI)
qed

text \<open>C4. Power loss at any point of an atomic write, after any answers of the kernel to its calls, leaves
  the key's file with bytes it could have had before or with all of the new bytes, and every other
  data file as it could have been; after a write that returned true only the new bytes are left.\<close>

theorem atomic_write_crash_safe:
  assumes "disk_inv d" "AtomicWriter_write io pr key data ([], d) = (ok, r)"
    and "x \<in> visited r" "crash x d'"
  shows "(file_at d' (getKeyPath pr key) = Some data \<or> file_at d' (getKeyPath pr key) \<in> may_hold d (getKeyPath pr key))
    \<and> (k \<noteq> key \<longrightarrow> file_at d' (getKeyPath pr k) \<in> may_hold d (getKeyPath pr k))
    \<and> (ok \<and> x = now r \<longrightarrow> file_at d' (getKeyPath pr key) = Some data)"
proof -
  have safe: "write_safe d (getKeyPath pr key) data x"
    and fin: "ok \<Longrightarrow> may_hold (now r) (getKeyPath pr key) = {Some data}"
    using AtomicWriter_write_effect [OF assms(1,2)] assms(3) by auto
  have holds: "file_at d' (getKeyPath pr q) \<in> may_hold x (getKeyPath pr q)" for q
    using crash_may_hold [of x "getKeyPath pr q" d'] safe assms(4) by (auto simp: write_safe_def)
  have "file_at d' (getKeyPath pr key) \<in> insert (Some data) (may_hold d (getKeyPath pr key))"
    using holds safe by (auto simp: write_safe_def)
  moreover have "k \<noteq> key \<Longrightarrow> file_at d' (getKeyPath pr k) \<in> may_hold d (getKeyPath pr k)"
    using holds [of k] safe [unfolded write_safe_def, THEN conjunct2, THEN conjunct2, rule_format, of "getKeyPath pr k"]
    by auto
  moreover have "ok \<Longrightarrow> x = now r \<Longrightarrow> file_at d' (getKeyPath pr key) = Some data"
    using holds [of key] fin by simp
  ultimately show ?thesis by blast
qed

theorem atomic_write_crash_safe_witness:
  "\<exists>ok r. AtomicWriter_write good_io (m_pathResolver ready_store) ''k'' ''v'' ([], w_disk empty_world) = (ok, r)
     \<and> (\<forall>d'. crash (now r) d' \<longrightarrow> file_at d' ''/d/svc/k.dat'' \<in> {None, Some ''v''})"
proof -
  have inv: "disk_inv (w_disk empty_world)" using empty_world_inv by (simp add: store_inv_def)
  obtain ok r where run: "AtomicWriter_write good_io (m_pathResolver ready_store) ''k'' ''v'' ([], w_disk empty_world) = (ok, r)"
    by (rule prod.exhaust)
  have path: "getKeyPath (m_pathResolver ready_store) ''k'' = ''/d/svc/k.dat''"
    by (simp add: getKeyPath_def getStorePath_def ready_store_def)
  have old: "may_hold (w_disk empty_world) p = {None}" for p by (simp add: may_hold_def empty_world_def)
  have safe: "file_at d' ''/d/svc/k.dat'' \<in> {None, Some ''v''}" if "crash (now r) d'" for d'
  proof -
    from atomic_write_crash_safe [OF inv run now_visited that, of "''k''"]
    have "file_at d' ''/d/svc/k.dat'' = Some ''v'' \<or> file_at d' ''/d/svc/k.dat'' \<in> {None}"
      by (simp only: path old)
    then show ?thesis by auto
  qed
  show ?thesis
    by (rule exI [of _ ok], rule exI [of _ r], intro conjI allI impI) (fact run, rule safe)
qed

text \<open>When only the directory sync fails, save reports FW-0102 although every reader already sees the
  new value.\<close>

theorem save_reports_failure_after_commit:
  "let r = save string_codec (attempt True 1 kern_init) (good_io\<lparr>io_fsyncdir := False\<rparr>) ''k'' ''v'' ready_store empty_world
   in fst r = Inl (store_error kAtomicWriteFailed ''Failed to write atomically'' ''k'')
     \<and> load string_codec True ''k'' (fst (snd r)) (snd (snd r)) = Inr ''v''"
  by code_simp

text \<open>\<open>loadOr\<close> gives the default exactly when the key has no file; any other failure of the load is
  passed on.\<close>

theorem loadOr_default:
  "loadOr cd opens key dv st w =
     (if m_ready st \<and> contents st w key = None then Inr dv else load cd opens key st w)"
  by (auto simp: loadOr_def load_contents store_error_def split: option.splits)

text \<open>\<open>remove\<close> returns normally whether or not the file could be deleted: the key is gone only if the
  unlink worked; other keys are untouched and the lock is given back.\<close>

theorem remove_result:
  assumes "store_inv st w" "remove le unlink_ok key st w = (Inr u, st', w')"
  shows "store_inv st' w' \<and> has key st' w' = (\<not> unlink_ok \<and> has key st w)
    \<and> (k \<noteq> key \<longrightarrow> contents st' w' k = contents st w k)"
  using remove_effect [OF assms] by (auto simp: has_contents split: if_splits)

theorem remove_result_witness:
  "\<exists>st w. \<not> has ''k'' st w \<and> m_ready st"
proof -
  let ?r = "remove (attempt True 1 kern_init) True ''k'' ready_store empty_world"
  have ok: "fst ?r = Inr ()"
    by code_simp
  then have run: "?r = (Inr (), fst (snd ?r), snd (snd ?r))" by (simp add: prod_eq_iff)
  from remove_result [OF empty_world_inv run] remove_effect [OF empty_world_inv run]
  show ?thesis by auto
qed

text \<open>The flush policy tracks a set of keys: a mark adds one, a clear removes one, the dirty keys come
  out sorted and without repetition, and a flush is due exactly when some key is dirty and the
  count limit is reached or some entry has outlived the debounce time.\<close>

theorem flush_policy_set:
  assumes "smap_ok (m_dirtyEntries fp)" "\<forall>p \<in> set (m_dirtyEntries fp). dirty (snd p)"
  shows "set (getDirtyKeys (markDirty t key fp)) = insert key (set (getDirtyKeys fp))
    \<and> set (getDirtyKeys (clearDirty key fp)) = set (getDirtyKeys fp) - {key}
    \<and> getDirtyKeys (reset fp) = []
    \<and> sorted (getDirtyKeys fp) \<and> distinct (getDirtyKeys fp)
    \<and> (isDirty key fp \<longleftrightarrow> key \<in> set (getDirtyKeys fp))
    \<and> (shouldFlush t fp \<longleftrightarrow> getDirtyKeys fp \<noteq> []
         \<and> (maxDirtyCount (fp_config fp) \<le> length (getDirtyKeys fp)
            \<or> enableDebounce (fp_config fp)
              \<and> (\<exists>p \<in> set (m_dirtyEntries fp). debounceMs (fp_config fp) \<le> (t - lastDirtyTime (snd p)) div 1000000)))"
proof -
  let ?m = "m_dirtyEntries fp"
  have all: "filter (\<lambda>p. dirty (snd p)) ?m = ?m" using assms(2) by (simp add: filter_id_conv)
  have keys: "getDirtyKeys fp = map fst ?m" by (simp add: getDirtyKeys_def all)
  have "\<forall>p \<in> set (smap_put key \<lparr>dirty = True, lastDirtyTime = t\<rparr> ?m). dirty (snd p)"
    using assms(2) set_smap_put [of _ key _ ?m] by fastforce
  then have mark: "getDirtyKeys (markDirty t key fp) = map fst (smap_put key \<lparr>dirty = True, lastDirtyTime = t\<rparr> ?m)"
    by (simp add: getDirtyKeys_def markDirty_def filter_id_conv [THEN iffD2])
  have clear: "set (getDirtyKeys (clearDirty key fp)) = set (getDirtyKeys fp) - {key}"
    using assms(2) by (auto simp: getDirtyKeys_def clearDirty_def smap_erase_def)
  have reset: "getDirtyKeys (reset fp) = []" by (simp add: getDirtyKeys_def reset_def)
  have "dirty e" if "map_of ?m key = Some e" for e
    using that assms(2) map_of_SomeD [of ?m key e] by fastforce
  then have "isDirty key fp \<longleftrightarrow> map_of ?m key \<noteq> None"
    by (auto simp: isDirty_def split: option.splits)
  then have dirty: "isDirty key fp \<longleftrightarrow> key \<in> set (getDirtyKeys fp)"
    by (simp add: keys map_of_eq_None_iff)
  show ?thesis
    using assms mark clear dirty reset smap_keys_put [of key _ ?m]
    by (auto simp: keys all shouldFlush_def checkDebounce_def list_ex_iff smap_ok_def Let_def)
qed

theorem flush_policy_set_witness:
  "let fp = markDirty 5 ''b'' (markDirty 3 ''a'' (FlushPolicy_new default_flush_config))
   in set (getDirtyKeys (markDirty 9 ''c'' fp)) = {''a'', ''b'', ''c''} \<and> sorted (getDirtyKeys fp)"
proof -
  let ?fp = "markDirty 5 ''b'' (markDirty 3 ''a'' (FlushPolicy_new default_flush_config))"
  have "\<forall>p \<in> set (m_dirtyEntries ?fp). dirty (snd p)" "smap_ok (m_dirtyEntries ?fp)"
    "set (getDirtyKeys ?fp) = {''a'', ''b''}"
    by code_simp+
  with flush_policy_set [of ?fp 9 "''c''"] show ?thesis by (simp add: Let_def) auto
qed

end
