(* ===== verification/Store_Concurrent.thy ===== *)
theory Store_Concurrent
  imports Store
begin

text \<open>
  Several processes that save, remove and load the same keys at once: the writers go through the steps of
  \<open>Store::Impl::save\<close> and \<open>remove\<close> (\<open>src/store/store.cpp\<close>) one call of \<open>FileLock\<close> or \<open>AtomicWriter\<close> at a time,
  in any interleaving, the readers open the data file without the lock and read it later, and a process may die
  between any two of its steps.  Each process has one store object and one thread that uses it.  The calls of a
  lock operation are one step: \<open>Store_Lock_Calls\<close> takes them apart.
\<close>

section \<open>Processes\<close>

datatype job = SaveJob string | RemoveJob

text \<open>Where a process is; \<open>Reading i v\<close> has opened inode \<open>i\<close> when its bytes were \<open>v\<close>.\<close>

datatype pc =
    Idle
  | Holding string job
  | Written string string
  | Flushed string string
  | Renamed string
  | Failed string
  | Leaving string
  | Reading nat string

fun pc_key :: "pc \<Rightarrow> string option" where
  "pc_key (Holding key j) = Some key"
| "pc_key (Written key data) = Some key"
| "pc_key (Flushed key data) = Some key"
| "pc_key (Renamed key) = Some key"
| "pc_key (Failed key) = Some key"
| "pc_key (Leaving key) = Some key"
| "pc_key Idle = None"
| "pc_key (Reading i v) = None"

text \<open>\<open>c_past\<close> collects what each key's file has held; nothing reads it.\<close>

record conc =
  c_locks :: locks
  c_disk :: disk
  c_pc :: "nat \<Rightarrow> pc"
  c_past :: "string \<Rightarrow> string option set"

definition set_locks :: "nat \<Rightarrow> lock_fds \<Rightarrow> kern \<Rightarrow> conc \<Rightarrow> conc" where
  "set_locks p fds k s = s\<lparr>c_locks := (c_locks s)\<lparr>kernel := k, held := (held (c_locks s))(p := fds)\<rparr>\<rparr>"

definition goto :: "nat \<Rightarrow> pc \<Rightarrow> disk \<Rightarrow> conc \<Rightarrow> conc" where
  "goto p c d s = s\<lparr>c_disk := d, c_pc := (c_pc s)(p := c)\<rparr>"

definition commits :: "string \<Rightarrow> string option \<Rightarrow> conc \<Rightarrow> conc" where
  "commits key v s = s\<lparr>c_past := (c_past s)(key := insert v (c_past s key))\<rparr>"

text \<open>One step of process \<open>p\<close>.\<close>

inductive proc_step :: "PathResolver \<Rightarrow> nat \<Rightarrow> conc \<Rightarrow> conc \<Rightarrow> bool" for pr p where
  st_acquire: "c_pc s p = Idle
    \<Longrightarrow> FileLock_acquire (attempt opens p (kernel (c_locks s))) pr p key 0 (held (c_locks s) p) (kernel (c_locks s)) = (ok, fds, k)
    \<Longrightarrow> proc_step pr p s (set_locks p fds k (goto p (if ok then Holding key j else Idle) (c_disk s) s))"
| st_write: "c_pc s p = Holding key (SaveJob data)
    \<Longrightarrow> writeTempFile io (getTempPath pr key) data ([], c_disk s) = (ok, r)
    \<Longrightarrow> proc_step pr p s (goto p (if ok then Written key data else Leaving key) (now r) s)"
| st_sync: "c_pc s p = Written key data
    \<Longrightarrow> syncFile io (getTempPath pr key) ([], c_disk s) = (ok, r)
    \<Longrightarrow> proc_step pr p s (goto p (if ok then Flushed key data else Failed key) (now r) s)"
| st_rename: "c_pc s p = Flushed key data
    \<Longrightarrow> atomicRename io (getTempPath pr key) (getKeyPath pr key) ([], c_disk s) = (True, r)
    \<Longrightarrow> proc_step pr p s (commits key (Some data) (goto p (Renamed key) (now r) s))"
| st_rename_fails: "c_pc s p = Flushed key data
    \<Longrightarrow> atomicRename io (getTempPath pr key) (getKeyPath pr key) ([], c_disk s) = (False, r)
    \<Longrightarrow> proc_step pr p s (goto p (Failed key) (now r) s)"
| st_unlink: "c_pc s p = Failed key
    \<Longrightarrow> proc_step pr p s (goto p (Leaving key) (sys_unlink (getTempPath pr key) (c_disk s)) s)"
| st_sync_dir: "c_pc s p = Renamed key
    \<Longrightarrow> syncDirectory io (getStorePath pr) ([], c_disk s) = (ok, r)
    \<Longrightarrow> proc_step pr p s (goto p (Leaving key) (now r) s)"
| st_remove: "c_pc s p = Holding key RemoveJob
    \<Longrightarrow> AtomicWriter_remove u pr key (c_disk s) = (True, d)
    \<Longrightarrow> proc_step pr p s (commits key None (goto p (Leaving key) d s))"
| st_remove_fails: "c_pc s p = Holding key RemoveJob
    \<Longrightarrow> AtomicWriter_remove u pr key (c_disk s) = (False, d)
    \<Longrightarrow> proc_step pr p s (goto p (Leaving key) d s)"
| st_release: "c_pc s p = Leaving key
    \<Longrightarrow> FileLock_release pr p key (held (c_locks s) p) (kernel (c_locks s)) = (fds, k)
    \<Longrightarrow> proc_step pr p s (set_locks p fds k (goto p Idle (c_disk s) s))"
| st_open: "c_pc s p = Idle \<Longrightarrow> names (c_disk s) (getKeyPath pr key) = Some i
    \<Longrightarrow> proc_step pr p s (goto p (Reading i (bytes_of (c_disk s) i)) (c_disk s) s)"
| st_close: "c_pc s p = Reading i v \<Longrightarrow> proc_step pr p s (goto p Idle (c_disk s) s)"
| st_die: "FileLock_destroy p (held (c_locks s) p) (kernel (c_locks s)) = (fds, k)
    \<Longrightarrow> proc_step pr p s (set_locks p fds k (goto p Idle (c_disk s) s))"

inductive_cases proc_stepE: "proc_step pr p s s'"

text \<open>All start idle, on any disk whose past holds what its files may hold.\<close>

definition conc_init :: "PathResolver \<Rightarrow> conc \<Rightarrow> bool" where
  "conc_init pr s \<longleftrightarrow> c_locks s = \<lparr>kernel = kern_init, held = (\<lambda>_. [])\<rparr> \<and> disk_inv (c_disk s)
     \<and> (\<forall>p. c_pc s p = Idle) \<and> (\<forall>key. c_past s key = may_hold (c_disk s) (getKeyPath pr key))"

inductive conc_reach :: "PathResolver \<Rightarrow> conc \<Rightarrow> bool" for pr where
  conc_start: "conc_init pr s \<Longrightarrow> conc_reach pr s"
| conc_step: "conc_reach pr s \<Longrightarrow> proc_step pr p s s' \<Longrightarrow> conc_reach pr s'"

section \<open>What a step of one writer leaves alone\<close>

text \<open>Between the two disks only the entries \<open>t\<close> and \<open>f\<close> and the inode \<open>t\<close> names have changed.\<close>

definition works_on :: "string \<Rightarrow> string \<Rightarrow> disk \<Rightarrow> disk \<Rightarrow> bool" where
  "works_on t f d d' \<longleftrightarrow> fresh d \<le> fresh d'
     \<and> (\<forall>q. q \<noteq> t \<longrightarrow> q \<noteq> f \<longrightarrow> names d' q = names d q)
     \<and> (\<forall>i < fresh d. names d t \<noteq> Some i \<longrightarrow> names d' t \<noteq> Some i \<and> bytes_of d' i = bytes_of d i
          \<and> (synced d i \<longrightarrow> synced d' i))"

named_theorems works_on_intros

lemma works_on_refl [works_on_intros]: "works_on t f d d"
  by (simp add: works_on_def)

lemma works_on_trans: "works_on t f a b \<Longrightarrow> works_on t f b c \<Longrightarrow> works_on t f a c"
  unfolding works_on_def by (metis order_less_le_trans order_trans)

lemma works_on_creat [works_on_intros]: "works_on t f d (snd (sys_creat t d))"
  by (auto simp: works_on_def sys_creat_def split: option.splits)

lemma works_on_write [works_on_intros]: "names d t = Some i \<Longrightarrow> works_on t f d (sys_write i bs d)"
  by (auto simp: works_on_def sys_write_def)

lemma works_on_fsync [works_on_intros]: "works_on t f d (sys_fsync i d)"
  by (auto simp: works_on_def sys_fsync_def)

lemma works_on_unlink [works_on_intros]: "q = t \<or> q = f \<Longrightarrow> works_on t f d (sys_unlink q d)"
  by (auto simp: works_on_def sys_unlink_def)

lemma works_on_rename [works_on_intros]: "sys_rename t f d = Some d' \<Longrightarrow> t \<noteq> f \<Longrightarrow> works_on t f d d'"
  by (auto simp: works_on_def sys_rename_def split: option.splits)

lemma works_on_fsync_dir [works_on_intros]: "works_on t f d (sys_fsync_dir dir d)"
  by (auto simp: works_on_def sys_fsync_dir_def)

lemma works_on_writeTempFile:
  assumes "writeTempFile io t data ([], d) = (ok, r)"
  shows "works_on t f d (now r)"
proof -
  obtain i d1 where c: "sys_creat t d = (i, d1)" by (rule prod.exhaust)
  have one: "works_on t f d d1" using works_on_creat [of t f d] c by simp
  have two: "works_on t f d (sys_write i bs d1)" for bs
    by (rule works_on_trans [OF one works_on_write]) (use sys_creat_props [OF c] in blast)
  show ?thesis using assms c one two
    by (auto simp: writeTempFile_def now_def to_def Let_def works_on_refl split: if_splits option.splits)
qed

section \<open>The invariant\<close>

text \<open>What the place of a process says of the disk.\<close>

definition data_here :: "PathResolver \<Rightarrow> disk \<Rightarrow> pc \<Rightarrow> bool" where
  "data_here pr d c \<longleftrightarrow> (case c of
     Written key data \<Rightarrow> (\<exists>i. names d (getTempPath pr key) = Some i \<and> bytes_of d i = data)
   | Flushed key data \<Rightarrow> (\<exists>i. names d (getTempPath pr key) = Some i \<and> bytes_of d i = data \<and> synced d i)
   | Reading i v \<Rightarrow> i < fresh d \<and> bytes_of d i = v \<and> (\<forall>q. temp_path q \<longrightarrow> names d q \<noteq> Some i)
   | _ \<Rightarrow> True)"

definition conc_inv :: "PathResolver \<Rightarrow> conc \<Rightarrow> bool" where
  "conc_inv pr s \<longleftrightarrow> locks_inv pr (c_locks s) \<and> disk_inv (c_disk s)
     \<and> (\<forall>p key. FileLock_isHeld key (held (c_locks s) p) \<longleftrightarrow> pc_key (c_pc s p) = Some key)
     \<and> (\<forall>p. data_here pr (c_disk s) (c_pc s p))
     \<and> (\<forall>key. may_hold (c_disk s) (getKeyPath pr key) \<subseteq> c_past s key)"

lemma one_writer:
  assumes "conc_inv pr s" "pc_key (c_pc s p) = Some key" "pc_key (c_pc s q) = Some key"
  shows "p = q"
proof -
  have "FileLock_isHeld key (held (c_locks s) p)" "FileLock_isHeld key (held (c_locks s) q)"
    using assms by (simp_all add: conc_inv_def)
  then obtain fd fd' where "map_of (held (c_locks s) p) key = Some fd" "map_of (held (c_locks s) q) key = Some fd'"
    by (auto simp: FileLock_isHeld_def)
  then have "owns pr (kernel (c_locks s)) p key fd" "owns pr (kernel (c_locks s)) q key fd'"
    using assms(1) by (simp_all add: conc_inv_def locks_inv_def)
  then show ?thesis using owns_unique by blast
qed

lemma getTempPath_inj [simp]: "getTempPath pr k = getTempPath pr k' \<longleftrightarrow> k = k'"
  by (simp add: getTempPath_def)

lemma disk_invD:
  assumes "disk_inv d" "names d p = Some i"
  shows "i < fresh d" and "names d q = Some i \<Longrightarrow> q = p"
  using assms by (auto simp: disk_inv_def)

text \<open>The temporary file of a process is out of the reach of the others.\<close>

lemma temp_frame:
  assumes "disk_inv d" "works_on (getTempPath pr key) (getKeyPath pr key) d d'" "key' \<noteq> key"
    and "names d (getTempPath pr key') = Some i"
  shows "names d' (getTempPath pr key') = Some i \<and> bytes_of d' i = bytes_of d i \<and> (synced d i \<longrightarrow> synced d' i)"
proof -
  have "names d (getTempPath pr key) \<noteq> Some i"
    using disk_invD(2) [OF assms(1,4), of "getTempPath pr key"] assms(3) by auto
  with disk_invD(1) [OF assms(1,4)] assms(2-4) show ?thesis by (simp add: works_on_def)
qed

lemma read_frame:
  assumes "works_on (getTempPath pr key) (getKeyPath pr key) d d'" "data_here pr d (Reading i v)"
  shows "data_here pr d' (Reading i v)"
proof -
  have i: "i < fresh d" "bytes_of d i = v" "\<And>q. temp_path q \<Longrightarrow> names d q \<noteq> Some i"
    using assms(2) by (auto simp: data_here_def)
  have "names d' q \<noteq> Some i" if "temp_path q" for q
  proof (cases "q = getTempPath pr key")
    case True
    with i assms(1) show ?thesis by (simp add: works_on_def)
  next
    case False
    moreover have "q \<noteq> getKeyPath pr key" using that data_temp_disjoint key_path_data by blast
    ultimately show ?thesis using i(3) [OF that] assms(1) by (simp add: works_on_def)
  qed
  with i assms(1) show ?thesis by (simp add: works_on_def data_here_def)
qed

lemma data_here_frame:
  assumes "disk_inv d" "works_on (getTempPath pr key) (getKeyPath pr key) d d'" "pc_key c \<noteq> Some key"
    and "data_here pr d c"
  shows "data_here pr d' c"
proof (cases c)
  case (Reading i v)
  with read_frame [OF assms(2)] assms(4) show ?thesis by blast
next
  case (Written key' data)
  with temp_frame [OF assms(1,2), of key'] assms(3,4) show ?thesis by (auto simp: data_here_def)
next
  case (Flushed key' data)
  with temp_frame [OF assms(1,2), of key'] assms(3,4) show ?thesis by (auto simp: data_here_def)
qed (simp_all add: data_here_def)

text \<open>The kinds of step: a writer changes the disk, a process changes its locks, a reader moves.\<close>

lemma writer_step:
  assumes "conc_inv pr s" "pc_key (c_pc s p) = Some key" "pc_key c = Some key"
    and "works_on (getTempPath pr key) (getKeyPath pr key) (c_disk s) d'" "disk_inv d'" "data_here pr d' c"
    and "\<forall>k. may_hold d' (getKeyPath pr k) \<subseteq> past k"
  shows "conc_inv pr ((goto p c d' s)\<lparr>c_past := past\<rparr>)"
proof -
  have "data_here pr d' (c_pc s q)" if "q \<noteq> p" for q
  proof (rule data_here_frame [OF _ assms(4)])
    show "pc_key (c_pc s q) \<noteq> Some key" using one_writer [OF assms(1,2)] that by blast
  qed (use assms(1) in \<open>simp_all add: conc_inv_def\<close>)
  with assms show ?thesis by (auto simp: conc_inv_def goto_def)
qed

lemma writer_step_same_past:
  assumes "conc_inv pr s" "pc_key (c_pc s p) = Some key" "pc_key c = Some key"
    and "works_on (getTempPath pr key) (getKeyPath pr key) (c_disk s) d'" "disk_inv d'" "data_here pr d' c"
    and "\<forall>k. may_hold d' (getKeyPath pr k) \<subseteq> c_past s k"
  shows "conc_inv pr (goto p c d' s)"
  using writer_step [OF assms] by (simp add: goto_def)

lemma lock_step:
  assumes "conc_inv pr s" "lock_op pr (c_locks s) ((c_locks s)\<lparr>kernel := k, held := (held (c_locks s))(p := fds)\<rparr>)"
    and "\<forall>key. FileLock_isHeld key fds \<longleftrightarrow> pc_key c = Some key" "data_here pr (c_disk s) c"
  shows "conc_inv pr (set_locks p fds k (goto p c (c_disk s) s))"
proof -
  have "locks_inv pr ((c_locks s)\<lparr>kernel := k, held := (held (c_locks s))(p := fds)\<rparr>)"
    using locks_inv_step [OF _ assms(2)] assms(1) by (simp add: conc_inv_def)
  with assms(1,3,4) show ?thesis by (simp add: conc_inv_def goto_def set_locks_def)
qed

lemma reader_step:
  assumes "conc_inv pr s" "pc_key (c_pc s p) = None" "pc_key c = None" "data_here pr (c_disk s) c"
  shows "conc_inv pr (goto p c (c_disk s) s)"
  using assms by (auto simp: conc_inv_def goto_def)

text \<open>What an acquire and a release leave held.\<close>

lemma acquire_held:
  assumes "smap_ok fds" "FileLock_acquire env pr p key t fds k = (ok, fds', k')"
  shows "FileLock_isHeld key' fds' \<longleftrightarrow> FileLock_isHeld key' fds \<or> ok \<and> key' = key"
  using assms by (auto simp: FileLock_acquire_def FileLock_isHeld_def Let_def split: if_splits prod.splits option.splits)

lemma release_held:
  assumes "FileLock_release pr p key fds k = (fds', k')"
  shows "FileLock_isHeld key' fds' \<longleftrightarrow> FileLock_isHeld key' fds \<and> key' \<noteq> key"
  using assms by (auto simp: FileLock_release_def FileLock_isHeld_def split: option.splits if_splits)

section \<open>Every step keeps the invariant\<close>

lemma quiet_now:
  assumes "disk_inv d" "quiet ([], d) r"
  shows "disk_inv (now r)" and "may_hold (now r) (getKeyPath pr k) = may_hold d (getKeyPath pr k)"
    and "file_at (now r) (getKeyPath pr k) = file_at d (getKeyPath pr k)"
  using assms same_data_file [of d "now r" "getKeyPath pr k"] by (simp_all add: quiet_def now_def)

lemma start_now: "disk_inv d \<Longrightarrow> disk_inv (now ([], d))"
  by (simp add: now_def)

lemma write_keeps:
  assumes "conc_inv pr s" "c_pc s p = Holding key (SaveJob data)"
    and "writeTempFile io (getTempPath pr key) data ([], c_disk s) = (ok, r)"
  shows "conc_inv pr (goto p (if ok then Written key data else Leaving key) (now r) s)"
proof (rule writer_step_same_past [OF assms(1)])
  have inv: "disk_inv (c_disk s)" using assms(1) by (simp add: conc_inv_def)
  note w = writeTempFile_quiet [OF start_now [OF inv] temp_path_temp assms(3)]
  note q = quiet_now [OF inv, of r]
  show "disk_inv (now r)" using q w by blast
  show "data_here pr (now r) (if ok then Written key data else Leaving key)" using w by (simp add: data_here_def)
  show "\<forall>k. may_hold (now r) (getKeyPath pr k) \<subseteq> c_past s k" using q(2) w assms(1) by (simp add: conc_inv_def)
qed (use assms works_on_writeTempFile [OF assms(3)] in simp_all)

lemma sync_keeps:
  assumes "conc_inv pr s" "c_pc s p = Written key data"
    and "syncFile io (getTempPath pr key) ([], c_disk s) = (ok, r)"
  shows "conc_inv pr (goto p (if ok then Flushed key data else Failed key) (now r) s)"
proof (rule writer_step_same_past [OF assms(1)])
  have inv: "disk_inv (c_disk s)" using assms(1) by (simp add: conc_inv_def)
  have here: "data_here pr (c_disk s) (Written key data)" using assms(1,2) unfolding conc_inv_def by metis
  note w = syncFile_quiet [OF start_now [OF inv] assms(3)]
  note q = quiet_now [OF inv, of r]
  show "disk_inv (now r)" using q w by blast
  show "data_here pr (now r) (if ok then Flushed key data else Failed key)"
    using w here by (auto simp: data_here_def now_def)
  show "\<forall>k. may_hold (now r) (getKeyPath pr k) \<subseteq> c_past s k" using q(2) w assms(1) by (simp add: conc_inv_def)
  show "works_on (getTempPath pr key) (getKeyPath pr key) (c_disk s) (now r)"
    using assms(3) by (auto simp: syncFile_def now_def to_def works_on_intros split: option.splits if_splits)
qed (use assms in simp_all)

lemma rename_cases:
  assumes "atomicRename io a b ([], d) = (ok, r)"
  obtains (failed) "\<not> ok" "now r = d" | (renamed) d' where "ok" "sys_rename a b d = Some d'" "now r = d'"
  using assms by (auto simp: atomicRename_def now_def to_def split: if_splits option.splits)

lemma rename_step_effect:
  assumes "conc_inv pr s" "c_pc s p = Flushed key data"
    and "sys_rename (getTempPath pr key) (getKeyPath pr key) (c_disk s) = Some d'"
  shows "disk_inv d'"
    and "file_at d' (getKeyPath pr k) = (if k = key then Some data else file_at (c_disk s) (getKeyPath pr k))"
    and "may_hold d' (getKeyPath pr k) \<subseteq> (if k = key then insert (Some data) (c_past s k) else c_past s k)"
proof -
  have inv: "disk_inv (c_disk s)" using assms(1) by (simp add: conc_inv_def)
  have "data_here pr (c_disk s) (Flushed key data)" using assms(1,2) unfolding conc_inv_def by metis
  then obtain i where i: "names (c_disk s) (getTempPath pr key) = Some i" "bytes_of (c_disk s) i = data" "synced (c_disk s) i"
    by (auto simp: data_here_def)
  show "disk_inv d'" by (rule disk_inv_rename [OF inv assms(3)]) (use i in simp_all)
  note e = rename_effect [OF inv assms(3) temp_path_temp key_path_data i(1,2) key_path_data, of pr k]
  show "file_at d' (getKeyPath pr k) = (if k = key then Some data else file_at (c_disk s) (getKeyPath pr k))"
    using e(1) by simp
  have "may_hold (c_disk s) (getKeyPath pr k) \<subseteq> c_past s k" using assms(1) by (simp add: conc_inv_def)
  then show "may_hold d' (getKeyPath pr k) \<subseteq> (if k = key then insert (Some data) (c_past s k) else c_past s k)"
    using e(2) by auto
qed

lemma rename_keeps:
  assumes "conc_inv pr s" "c_pc s p = Flushed key data"
    and "sys_rename (getTempPath pr key) (getKeyPath pr key) (c_disk s) = Some d'"
  shows "conc_inv pr (commits key (Some data) (goto p (Renamed key) d' s))"
proof -
  note e = rename_step_effect [OF assms]
  have "may_hold d' (getKeyPath pr k) \<subseteq> ((c_past s)(key := insert (Some data) (c_past s key))) k" for k
    using e(3) [of k] by (cases "k = key") simp_all
  moreover have "works_on (getTempPath pr key) (getKeyPath pr key) (c_disk s) d'"
    by (rule works_on_rename [OF assms(3)]) simp
  ultimately have "conc_inv pr ((goto p (Renamed key) d' s)\<lparr>c_past := (c_past s)(key := insert (Some data) (c_past s key))\<rparr>)"
    by (intro writer_step [OF assms(1)])
      (use assms e(1) in \<open>simp_all add: data_here_def\<close>)
  then show ?thesis by (simp add: commits_def goto_def)
qed

lemma unlink_effect:
  "file_at (sys_unlink f d) q = (if q = f then None else file_at d q)"
  "may_hold (sys_unlink f d) q \<subseteq> (if q = f then insert None (may_hold d q) else may_hold d q)"
  by (auto simp: sys_unlink_def file_at_def may_hold_def)

lemma remove_keeps:
  assumes "conc_inv pr s" "c_pc s p = Holding key RemoveJob"
  shows "conc_inv pr (commits key None (goto p (Leaving key) (sys_unlink (getKeyPath pr key) (c_disk s)) s))"
proof -
  let ?d = "sys_unlink (getKeyPath pr key) (c_disk s)"
  have "may_hold ?d (getKeyPath pr k) \<subseteq> ((c_past s)(key := insert None (c_past s key))) k" for k
  proof -
    have "may_hold (c_disk s) (getKeyPath pr k) \<subseteq> c_past s k" using assms(1) by (simp add: conc_inv_def)
    with unlink_effect(2) [of "getKeyPath pr key" "c_disk s" "getKeyPath pr k"] show ?thesis
      by (cases "k = key") (simp_all, blast+)
  qed
  then have "conc_inv pr ((goto p (Leaving key) ?d s)\<lparr>c_past := (c_past s)(key := insert None (c_past s key))\<rparr>)"
    by (intro writer_step [OF assms(1)] works_on_unlink disk_inv_unlink)
      (use assms in \<open>simp_all add: data_here_def conc_inv_def\<close>)
  then show ?thesis by (simp add: commits_def goto_def)
qed

lemma failed_keeps:
  assumes "conc_inv pr s" "c_pc s p = Failed key"
  shows "conc_inv pr (goto p (Leaving key) (sys_unlink (getTempPath pr key) (c_disk s)) s)"
proof (rule writer_step_same_past [OF assms(1)])
  let ?d = "sys_unlink (getTempPath pr key) (c_disk s)"
  have inv: "disk_inv (c_disk s)" using assms(1) by (simp add: conc_inv_def)
  show "\<forall>k. may_hold ?d (getKeyPath pr k) \<subseteq> c_past s k"
    using same_data_file(2) [OF inv same_data_unlink [OF temp_path_temp] key_path_data] assms(1)
    by (simp add: conc_inv_def)
  show "disk_inv ?d" by (rule disk_inv_unlink [OF inv])
  show "works_on (getTempPath pr key) (getKeyPath pr key) (c_disk s) ?d" by (rule works_on_unlink) simp
qed (use assms in \<open>simp_all add: data_here_def\<close>)

lemma sync_dir_keeps:
  assumes "conc_inv pr s" "c_pc s p = Renamed key"
    and "syncDirectory io (getStorePath pr) ([], c_disk s) = (ok, r)"
  shows "conc_inv pr (goto p (Leaving key) (now r) s)"
proof (rule writer_step_same_past [OF assms(1)])
  have inv: "disk_inv (c_disk s)" and past: "\<forall>k. may_hold (c_disk s) (getKeyPath pr k) \<subseteq> c_past s k"
    using assms(1) by (simp_all add: conc_inv_def)
  have r: "now r = c_disk s \<or> now r = sys_fsync_dir (getStorePath pr) (c_disk s)"
    using assms(3) by (auto simp: syncDirectory_def now_def to_def split: if_splits)
  show "disk_inv (now r)" using r inv disk_inv_fsync_dir by auto
  show "\<forall>k. may_hold (now r) (getKeyPath pr k) \<subseteq> c_past s k"
  proof
    fix k
    have "may_hold (now r) (getKeyPath pr k) \<subseteq> may_hold (c_disk s) (getKeyPath pr k)"
      using r file_may_hold [OF inv] by (auto simp: fsync_dir_effect)
    with past show "may_hold (now r) (getKeyPath pr k) \<subseteq> c_past s k" by blast
  qed
  show "works_on (getTempPath pr key) (getKeyPath pr key) (c_disk s) (now r)"
    using r by (auto intro: works_on_intros)
qed (use assms in \<open>simp_all add: data_here_def\<close>)

lemma idle_holds_nothing: "conc_inv pr s \<Longrightarrow> pc_key (c_pc s p) = None \<Longrightarrow> \<not> FileLock_isHeld key (held (c_locks s) p)"
  by (simp add: conc_inv_def)

lemma open_keeps:
  assumes "conc_inv pr s" "c_pc s p = Idle" "names (c_disk s) (getKeyPath pr key) = Some i"
  shows "conc_inv pr (goto p (Reading i (bytes_of (c_disk s) i)) (c_disk s) s)"
proof (rule reader_step [OF assms(1)])
  have inv: "disk_inv (c_disk s)" using assms(1) by (simp add: conc_inv_def)
  have "names (c_disk s) q \<noteq> Some i" if "temp_path q" for q
    using disk_invD(2) [OF inv assms(3), of q] that data_temp_disjoint key_path_data by blast
  with disk_invD(1) [OF inv assms(3)] show "data_here pr (c_disk s) (Reading i (bytes_of (c_disk s) i))"
    by (simp add: data_here_def)
qed (use assms(2) in simp_all)

lemma conc_inv_step:
  assumes "conc_inv pr s" "proc_step pr p s s'"
  shows "conc_inv pr s'"
  using assms(2)
proof cases
  case (st_acquire opens key ok fds k j)
  have held: "FileLock_isHeld x fds \<longleftrightarrow> ok \<and> x = key" for x
    using acquire_held [OF _ st_acquire(3), of x] idle_holds_nothing [OF assms(1), of p x] st_acquire(2) assms(1)
    by (simp add: conc_inv_def locks_inv_def)
  show ?thesis unfolding st_acquire(1)
    by (rule lock_step [OF assms(1) op_acquire [OF st_acquire(3)]]) (auto simp: held data_here_def)
next
  case (st_write key data io ok r)
  then show ?thesis using write_keeps [OF assms(1)] by simp
next
  case (st_sync key data io ok r)
  then show ?thesis using sync_keeps [OF assms(1)] by simp
next
  case (st_rename key data io r)
  then show ?thesis using rename_keeps [OF assms(1)] by (auto elim!: rename_cases)
next
  case (st_rename_fails key data io r)
  then have "now r = c_disk s" by (auto elim!: rename_cases)
  with st_rename_fails assms(1) show ?thesis
    by (simp only:) (rule writer_step_same_past [OF assms(1)],
      auto simp: data_here_def conc_inv_def intro: works_on_refl)
next
  case (st_unlink key)
  then show ?thesis using failed_keeps [OF assms(1)] by simp
next
  case (st_sync_dir key io ok r)
  then show ?thesis using sync_dir_keeps [OF assms(1)] by simp
next
  case (st_remove key u d)
  then have "d = sys_unlink (getKeyPath pr key) (c_disk s)" by (auto simp: AtomicWriter_remove_def split: if_splits)
  with st_remove show ?thesis using remove_keeps [OF assms(1)] by simp
next
  case (st_remove_fails key u d)
  then have "d = c_disk s" by (auto simp: AtomicWriter_remove_def split: if_splits)
  with st_remove_fails assms(1) show ?thesis
    by (simp only:) (rule writer_step_same_past [OF assms(1)],
      auto simp: data_here_def conc_inv_def intro: works_on_refl)
next
  case (st_release key fds k)
  have "FileLock_isHeld x (held (c_locks s) p) \<longleftrightarrow> x = key" for x
    using assms(1) st_release(2) by (auto simp: conc_inv_def)
  then have held: "\<not> FileLock_isHeld x fds" for x using release_held [OF st_release(3), of x] by simp
  show ?thesis unfolding st_release(1)
    by (rule lock_step [OF assms(1) op_release [OF st_release(3)]]) (auto simp: held data_here_def)
next
  case (st_open key i)
  then show ?thesis using open_keeps [OF assms(1)] by simp
next
  case (st_close i v)
  then show ?thesis using reader_step [OF assms(1)] by (simp add: data_here_def)
next
  case (st_die fds k)
  then have held: "\<not> FileLock_isHeld x fds" for x by (simp add: FileLock_destroy_def FileLock_isHeld_def)
  show ?thesis unfolding st_die(1)
    by (rule lock_step [OF assms(1) op_destroy [OF st_die(2)]]) (auto simp: held data_here_def)
qed

lemma conc_inv_init: "conc_init pr s \<Longrightarrow> conc_inv pr s"
  by (simp add: conc_init_def conc_inv_def locks_inv_def kern_inv_init FileLock_isHeld_def data_here_def)

lemma conc_inv_reach: "conc_reach pr s \<Longrightarrow> conc_inv pr s"
  by (induction rule: conc_reach.induct) (auto intro: conc_inv_init conc_inv_step)

section \<open>A process alone\<close>

text \<open>The calls do not look at the disks a run went through.\<close>

lemma run_forgets:
  "fst (syncFile io t ([], now r)) = fst (syncFile io t r) \<and> now (snd (syncFile io t ([], now r))) = now (snd (syncFile io t r))"
  "fst (atomicRename io a b ([], now r)) = fst (atomicRename io a b r) \<and> now (snd (atomicRename io a b ([], now r))) = now (snd (atomicRename io a b r))"
  "fst (syncDirectory io dir ([], now r)) = fst (syncDirectory io dir r) \<and> now (snd (syncDirectory io dir ([], now r))) = now (snd (syncDirectory io dir r))"
  by (auto simp: syncFile_def atomicRename_def syncDirectory_def now_def to_def split: option.splits)

text \<open>
  A writer no one interrupts leaves the disk \<open>AtomicWriter::write\<close> leaves: the steps are that function, cut at
  its calls.
\<close>

lemma alone_writes:
  assumes "c_pc s p = Holding key (SaveJob data)"
  shows "\<exists>s'. (proc_step pr p)\<^sup>*\<^sup>* s s' \<and> c_pc s' p = Leaving key
    \<and> c_disk s' = now (snd (AtomicWriter_write io pr key data ([], c_disk s)))"
proof -
  let ?t = "getTempPath pr key" and ?f = "getKeyPath pr key"
  obtain ok1 r1 where w1: "writeTempFile io ?t data ([], c_disk s) = (ok1, r1)" by (rule prod.exhaust)
  obtain ok2 r2 where w2: "syncFile io ?t r1 = (ok2, r2)" by (rule prod.exhaust)
  obtain ok3 r3 where w3: "atomicRename io ?t ?f r2 = (ok3, r3)" by (rule prod.exhaust)
  obtain ok4 r4 where w4: "syncDirectory io (getStorePath pr) r3 = (ok4, r4)" by (rule prod.exhaust)
  obtain r2' where v2: "syncFile io ?t ([], now r1) = (ok2, r2')" "now r2' = now r2"
    using run_forgets(1) [of io ?t r1] w2 by (cases "syncFile io ?t ([], now r1)") simp
  obtain r3' where v3: "atomicRename io ?t ?f ([], now r2) = (ok3, r3')" "now r3' = now r3"
    using run_forgets(2) [of io ?t ?f r2] w3 by (cases "atomicRename io ?t ?f ([], now r2)") simp
  obtain r4' where v4: "syncDirectory io (getStorePath pr) ([], now r3) = (ok4, r4')" "now r4' = now r4"
    using run_forgets(3) [of io "getStorePath pr" r3] w4 by (cases "syncDirectory io (getStorePath pr) ([], now r3)") simp
  have total: "now (snd (AtomicWriter_write io pr key data ([], c_disk s)))
      = (if ok1 then if ok2 then if ok3 then now r4 else sys_unlink ?t (now r3) else sys_unlink ?t (now r2) else now r1)"
    by (simp add: AtomicWriter_write_def Let_def w1 w2 w3 w4)
  let ?s1 = "goto p (if ok1 then Written key data else Leaving key) (now r1) s"
  let ?s2 = "goto p (if ok2 then Flushed key data else Failed key) (now r2) ?s1"
  have s1: "(proc_step pr p)\<^sup>*\<^sup>* s ?s1" by (rule r_into_rtranclp) (rule st_write [OF assms w1])
  have s2: "(proc_step pr p)\<^sup>*\<^sup>* s ?s2" if ok1
  proof (rule rtranclp.rtrancl_into_rtrancl [OF s1])
    have "c_pc ?s1 p = Written key data" "syncFile io ?t ([], c_disk ?s1) = (ok2, r2')"
      using that v2(1) by (simp_all add: goto_def)
    from st_sync [OF this] show "proc_step pr p ?s1 ?s2" by (simp only: v2(2))
  qed
  have unlinks: "\<exists>s'. (proc_step pr p)\<^sup>*\<^sup>* s s' \<and> c_pc s' p = Leaving key \<and> c_disk s' = sys_unlink ?t (c_disk x)"
    if "(proc_step pr p)\<^sup>*\<^sup>* s x" "c_pc x p = Failed key" for x
    by (intro exI conjI, rule rtranclp.rtrancl_into_rtrancl [OF that(1) st_unlink [OF that(2)]]) (simp_all add: goto_def)
  consider "\<not> ok1" | "ok1" "\<not> ok2" | "ok1" "ok2" "\<not> ok3" | "ok1" "ok2" "ok3" by blast
  then show ?thesis
  proof cases
    case 1
    with s1 show ?thesis unfolding total by (intro exI [of _ ?s1]) (simp add: goto_def)
  next
    case 2
    with unlinks [OF s2] show ?thesis unfolding total by (simp add: goto_def)
  next
    case 3
    let ?s3 = "goto p (Failed key) (now r3) ?s2"
    have "c_pc ?s2 p = Flushed key data" "atomicRename io ?t ?f ([], c_disk ?s2) = (False, r3')"
      using v3(1) 3 by (simp_all add: goto_def)
    from st_rename_fails [OF this] have "proc_step pr p ?s2 ?s3" by (simp only: v3(2))
    then have "(proc_step pr p)\<^sup>*\<^sup>* s ?s3" by (rule rtranclp.rtrancl_into_rtrancl [OF s2 [OF 3(1)]])
    from unlinks [OF this] 3 show ?thesis unfolding total by (simp add: goto_def)
  next
    case 4
    let ?s3 = "commits key (Some data) (goto p (Renamed key) (now r3) ?s2)"
    have "c_pc ?s2 p = Flushed key data" "atomicRename io ?t ?f ([], c_disk ?s2) = (True, r3')"
      using v3(1) 4 by (simp_all add: goto_def)
    from st_rename [OF this] have "proc_step pr p ?s2 ?s3" by (simp only: v3(2))
    then have s3: "(proc_step pr p)\<^sup>*\<^sup>* s ?s3" by (rule rtranclp.rtrancl_into_rtrancl [OF s2 [OF 4(1)]])
    have "c_pc ?s3 p = Renamed key" "syncDirectory io (getStorePath pr) ([], c_disk ?s3) = (ok4, r4')"
      using v4(1) by (simp_all add: goto_def commits_def)
    from st_sync_dir [OF this] have "proc_step pr p ?s3 (goto p (Leaving key) (now r4) ?s3)" by (simp only: v4(2))
    then have "(proc_step pr p)\<^sup>*\<^sup>* s (goto p (Leaving key) (now r4) ?s3)"
      by (rule rtranclp.rtrancl_into_rtrancl [OF s3])
    with 4 show ?thesis unfolding total
      by (intro exI [of _ "goto p (Leaving key) (now r4) ?s3"]) (simp add: goto_def)
  qed
qed

section \<open>Properties\<close>

text \<open>What every reader that loads now finds: one cell per key.\<close>

definition visible :: "PathResolver \<Rightarrow> conc \<Rightarrow> string \<Rightarrow> string option" where
  "visible pr s = (\<lambda>key. file_at (c_disk s) (getKeyPath pr key))"



text \<open>
  Power loss at any point of any interleaving leaves each key with contents it had at some moment: never a part
  of a save, never bytes of another key.
\<close>

theorem concurrent_crash_safe:
  assumes "conc_reach pr s" "crash (c_disk s) d"
  shows "file_at d (getKeyPath pr key) \<in> c_past s key"
  using conc_inv_reach [OF assms(1)] crash_may_hold [OF _ key_path_data assms(2), of pr key]
  unfolding conc_inv_def by blast

definition quiet_system :: conc where
  "quiet_system = \<lparr>c_locks = \<lparr>kernel = kern_init, held = (\<lambda>_. [])\<rparr>, c_disk = w_disk empty_world,
     c_pc = (\<lambda>_. Idle), c_past = (\<lambda>_. {None})\<rparr>"

definition sample_resolver :: PathResolver where
  "sample_resolver = m_pathResolver ready_store"

lemma quiet_system_reach: "conc_reach sample_resolver quiet_system"
  using empty_world_inv
  by (intro conc_start) (simp add: conc_init_def quiet_system_def store_inv_def may_hold_def empty_world_def)

text \<open>Process 1 saves \<open>''v''\<close> under \<open>''k''\<close> up to the rename.\<close>

lemma sample_run:
  "\<exists>s. conc_reach sample_resolver s \<and> c_pc s 1 = Flushed ''k'' ''v'' \<and> c_pc s 2 = Idle"
proof -
  let ?pr = sample_resolver and ?s0 = quiet_system
  let ?a = "FileLock_acquire (attempt True 1 (kernel (c_locks ?s0))) ?pr 1 ''k'' 0 (held (c_locks ?s0) 1) (kernel (c_locks ?s0))"
  have "fst ?a" by (simp add: FileLock_acquire_def attempt_def tryFileLock_def k_open_def k_flock_def kern_init_def
      quiet_system_def Let_def)
  then obtain fds k where a: "?a = (True, fds, k)" by (metis prod.collapse)
  let ?s1 = "set_locks 1 fds k (goto 1 (Holding ''k'' (SaveJob ''v'')) (c_disk ?s0) ?s0)"
  have "c_pc ?s0 1 = Idle" by (simp add: quiet_system_def)
  from st_acquire [OF this a, of "SaveJob ''v''"] have r1: "conc_reach ?pr ?s1"
    by (intro conc_step [OF quiet_system_reach]) simp
  let ?w = "writeTempFile good_io (getTempPath ?pr ''k'') ''v'' ([], c_disk ?s1)"
  have "fst ?w" by (simp add: writeTempFile_def good_io_def sys_creat_def Let_def split: option.split)
  then obtain r where w: "?w = (True, r)" by (metis prod.collapse)
  let ?s2 = "goto 1 (Written ''k'' ''v'') (now r) ?s1"
  have "c_pc ?s1 1 = Holding ''k'' (SaveJob ''v'')" by (simp add: goto_def set_locks_def)
  from st_write [OF this w] have r2: "conc_reach ?pr ?s2" by (intro conc_step [OF r1]) simp
  have here: "data_here ?pr (c_disk ?s2) (c_pc ?s2 1)" using conc_inv_reach [OF r2] by (simp add: conc_inv_def)
  let ?y = "syncFile good_io (getTempPath ?pr ''k'') ([], c_disk ?s2)"
  have "fst ?y" using here by (auto simp: data_here_def goto_def syncFile_def good_io_def now_def)
  then obtain r' where y: "?y = (True, r')" by (metis prod.collapse)
  have "c_pc ?s2 1 = Written ''k'' ''v''" by (simp add: goto_def)
  from st_sync [OF this y] have "conc_reach ?pr (goto 1 (Flushed ''k'' ''v'') (now r') ?s2)"
    by (intro conc_step [OF r2]) simp
  then show ?thesis by (intro exI conjI) (assumption, simp_all add: goto_def set_locks_def quiet_system_def)
qed

lemma flushed_renames:
  assumes "conc_reach pr s" "c_pc s p = Flushed key data"
  shows "\<exists>r. atomicRename good_io (getTempPath pr key) (getKeyPath pr key) ([], c_disk s) = (True, r)"
proof -
  have "data_here pr (c_disk s) (Flushed key data)"
    using conc_inv_reach [OF assms(1)] assms(2) unfolding conc_inv_def by metis
  then show ?thesis by (auto simp: data_here_def atomicRename_def sys_rename_def good_io_def now_def)
qed



theorem concurrent_crash_safe_witness:
  "file_at (w_disk empty_world) (getKeyPath sample_resolver ''k'') \<in> c_past quiet_system ''k''"
  by (rule concurrent_crash_safe [OF quiet_system_reach])
    (simp add: crash_def quiet_system_def empty_world_def)

end
