(* ===== verification/Store_Handle.thy ===== *)
theory Store_Handle
  imports Store
begin

text \<open>
  The public class \<open>Store\<close> (\<open>include/store.h\<close>, the end of \<open>src/store/store.cpp\<close>): movable variables that own an
  implementation or nothing, several of them in one process, over the same or different services, used one after
  another by one thread.  A method called on a variable that was moved from dereferences a null pointer, which is
  the value \<open>None\<close>.
\<close>

section \<open>Variables\<close>

record stores =
  st_world :: world
  st_impl :: "nat \<Rightarrow> Store option"

definition stores_start :: "world \<Rightarrow> stores" where
  "stores_start w = \<lparr>st_world = w, st_impl = (\<lambda>_. None)\<rparr>"

text \<open>The explicit instantiations of the value type, without \<open>double\<close>.\<close>

datatype stored = IntValue int | BoolValue bool | StringValue string

fun bytes_of_stored :: "stored \<Rightarrow> string" where
  "bytes_of_stored (IntValue i) = serialize int_codec i"
| "bytes_of_stored (BoolValue b) = serialize bool_codec b"
| "bytes_of_stored (StringValue t) = serialize string_codec t"

fun save_stored :: "stored \<Rightarrow> lock_env \<Rightarrow> io \<Rightarrow> string \<Rightarrow> Store \<Rightarrow> world \<Rightarrow> (StoreErrorInfo + unit) \<times> Store \<times> world" where
  "save_stored (IntValue i) le io key st w = save int_codec le io key i st w"
| "save_stored (BoolValue b) le io key st w = save bool_codec le io key b st w"
| "save_stored (StringValue t) le io key st w = save string_codec le io key t st w"

text \<open>A load at the type of a value.\<close>

fun load_like :: "stored \<Rightarrow> bool \<Rightarrow> string \<Rightarrow> Store \<Rightarrow> world \<Rightarrow> StoreErrorInfo + stored" where
  "load_like (IntValue _) opens key st w = map_sum id IntValue (load int_codec opens key st w)"
| "load_like (BoolValue _) opens key st w = map_sum id BoolValue (load bool_codec opens key st w)"
| "load_like (StringValue _) opens key st w = map_sum id StringValue (load string_codec opens key st w)"

text \<open>A method forwards to the implementation of its variable.\<close>

definition with_impl :: "nat \<Rightarrow> (Store \<Rightarrow> world \<Rightarrow> 'r \<times> Store \<times> world) \<Rightarrow> stores \<Rightarrow> ('r \<times> stores) option" where
  "with_impl h f s =
     (case st_impl s h of
        None \<Rightarrow> None
      | Some st \<Rightarrow> (case f st (st_world s) of (r, st', w') \<Rightarrow> Some (r, s\<lparr>st_world := w', st_impl := (st_impl s)(h \<mapsto> st')\<rparr>)))"

text \<open>The end of what a variable owns.\<close>

definition drop_impl :: "nat \<Rightarrow> stores \<Rightarrow> stores" where
  "drop_impl h s =
     (case st_impl s h of
        None \<Rightarrow> s
      | Some st \<Rightarrow> s\<lparr>st_world := Store_destroy st (st_world s), st_impl := (st_impl s)(h := None)\<rparr>)"

text \<open>Construction and assignment by move: a new variable is one that owns nothing.\<close>

definition move_impl :: "nat \<Rightarrow> nat \<Rightarrow> stores \<Rightarrow> stores" where
  "move_impl h other s =
     (if h = other then s
      else let s1 = drop_impl h s in s1\<lparr>st_impl := (st_impl s1)(other := None, h := st_impl s1 other)\<rparr>)"

text \<open>\<open>h = Store::open(...)\<close>; an empty service name throws and leaves \<open>h\<close> alone.\<close>

definition open_into :: "(string \<Rightarrow> bool) \<Rightarrow> nat \<Rightarrow> string \<Rightarrow> string \<Rightarrow> stores \<Rightarrow> bool \<times> stores" where
  "open_into mk h serviceName storeRoot s =
     (case Store_open mk serviceName storeRoot (st_world s) of
        None \<Rightarrow> (False, s)
      | Some (st, w) \<Rightarrow> (let s1 = drop_impl h (s\<lparr>st_world := w\<rparr>) in (True, s1\<lparr>st_impl := (st_impl s1)(h \<mapsto> st)\<rparr>)))"

datatype store_op =
    Open "string \<Rightarrow> bool" nat string string
  | Move nat nat
  | Drop nat
  | Save nat stored lock_env io string
  | Remove nat lock_env bool string
  | Flush nat
  | Cleanup nat "string list option" "string \<Rightarrow> bool"

text \<open>The result says whether the call returned rather than threw.\<close>

fun store_step :: "store_op \<Rightarrow> stores \<Rightarrow> (bool \<times> stores) option" where
  "store_step (Open mk h svc root) s = Some (open_into mk h svc root s)"
| "store_step (Move h other) s = Some (True, move_impl h other s)"
| "store_step (Drop h) s = Some (True, drop_impl h s)"
| "store_step (Save h v le io key) s = map_option (\<lambda>(r, s'). (isl r = False, s')) (with_impl h (save_stored v le io key) s)"
| "store_step (Remove h le u key) s = map_option (\<lambda>(r, s'). (isl r = False, s')) (with_impl h (remove le u key) s)"
| "store_step (Flush h) s = map_option (\<lambda>(r, s'). (True, s')) (with_impl h (\<lambda>st w. ((), flush st, w)) s)"
| "store_step (Cleanup h entries rm) s = map_option (\<lambda>(r, s'). (True, s')) (with_impl h (\<lambda>st w. ((), cleanup entries rm st w)) s)"

fun run_stores :: "store_op list \<Rightarrow> stores \<Rightarrow> stores option" where
  "run_stores [] s = Some s"
| "run_stores (op # ops) s = (case store_step op s of None \<Rightarrow> None | Some (_, s') \<Rightarrow> run_stores ops s')"

section \<open>The stores of a process share one disk\<close>

definition on_disk :: "stores \<Rightarrow> string \<Rightarrow> string option" where
  "on_disk s p = file_at (w_disk (st_world s)) p"

definition stores_ok :: "stores \<Rightarrow> bool" where
  "stores_ok s \<longleftrightarrow> disk_inv (w_disk (st_world s)) \<and> (\<forall>h st. st_impl s h = Some st \<longrightarrow> m_fileLock st = [])"

text \<open>The files an operation may change.\<close>

fun touched :: "store_op \<Rightarrow> stores \<Rightarrow> string set" where
  "touched (Save h v le io key) s = (case st_impl s h of None \<Rightarrow> {} | Some st \<Rightarrow> {getKeyPath (m_pathResolver st) key})"
| "touched (Remove h le u key) s = (case st_impl s h of None \<Rightarrow> {} | Some st \<Rightarrow> {getKeyPath (m_pathResolver st) key})"
| "touched (Cleanup h es rm) s =
     (case (st_impl s h, es) of (Some st, Some entries) \<Rightarrow> (\<lambda>n. getStorePath (m_pathResolver st) @ n) ` set entries | _ \<Rightarrow> {})"
| "touched _ s = {}"

fun untouched :: "string \<Rightarrow> store_op list \<Rightarrow> stores \<Rightarrow> bool" where
  "untouched p [] s = True"
| "untouched p (op # ops) s = (p \<notin> touched op s \<and> (case store_step op s of None \<Rightarrow> True | Some (_, s') \<Rightarrow> untouched p ops s'))"

lemma save_disk:
  assumes "save cd le io key val st w = (res, st', w')"
  shows "w_disk w' = w_disk w \<or> (\<exists>ok. put_cell (m_pathResolver st) io key (serialize cd val) (w_disk w) = (ok, w_disk w'))"
proof -
  obtain locked st1 w1 where l: "lock_key le key st w = (locked, st1, w1)" by (rule prod_cases3)
  obtain written w2 where wr: "write_key io key (serialize cd val) st1 w1 = (written, w2)" by (rule prod.exhaust)
  note frames = lock_key_frame [OF l] write_key_frame [OF wr]
  show ?thesis
    using assms l wr frames unlock_key_frame(1)
    by (auto simp: save_def Let_def split: if_splits prod.splits)
qed

lemma save_disk_frame:
  assumes "save cd le io key val st w = (res, st', w')" "disk_inv (w_disk w)" "data_path q" "q \<noteq> getKeyPath (m_pathResolver st) key"
  shows "file_at (w_disk w') q = file_at (w_disk w) q"
  using save_disk [OF assms(1)]
proof
  assume "\<exists>ok. put_cell (m_pathResolver st) io key (serialize cd val) (w_disk w) = (ok, w_disk w')"
  then obtain ok r where r: "AtomicWriter_write io (m_pathResolver st) key (serialize cd val) ([], w_disk w) = (ok, r)" "w_disk w' = now r"
    by (auto simp: put_cell_def split: prod.splits)
  from AtomicWriter_write_effect [OF assms(2) r(1)] have "write_safe (w_disk w) (getKeyPath (m_pathResolver st) key) (serialize cd val) (now r)"
    by (simp add: visited_def now_def)
  then show ?thesis using assms(3,4) r(2) by (simp add: write_safe_def)
qed simp

lemma remove_disk_frame:
  assumes "remove le u key st w = (res, st', w')" "disk_inv (w_disk w)" "q \<noteq> getKeyPath (m_pathResolver st) key"
  shows "file_at (w_disk w') q = file_at (w_disk w) q"
proof -
  obtain locked st1 w1 where l: "lock_key le key st w = (locked, st1, w1)" by (rule prod_cases3)
  obtain r d where rm: "AtomicWriter_remove u (m_pathResolver st1) key (w_disk w1) = (r, d)" by (rule prod.exhaust)
  note frames = lock_key_frame [OF l]
  have "file_at d q = file_at (w_disk w) q"
    using rm assms(2,3) frames by (auto simp: AtomicWriter_remove_def file_at_unlink split: if_splits)
  then show ?thesis
    using assms(1) l rm frames unlock_key_frame(1) by (auto simp: remove_def Let_def split: if_splits prod.splits)
qed

lemma cleanup_frame:
  assumes "cleanup entries rm st w = (st', w')"
  shows "disk_inv (w_disk w) \<Longrightarrow> disk_inv (w_disk w')" "m_fileLock st' = m_fileLock st" "m_pathResolver st' = m_pathResolver st"
    "(\<And>ns. entries = Some ns \<Longrightarrow> q \<notin> (\<lambda>n. getStorePath (m_pathResolver st) @ n) ` set ns) \<Longrightarrow> file_at (w_disk w') q = file_at (w_disk w) q"
proof -
  have dirs: "disk_inv (sys_rmdir rm p d) = disk_inv d" "file_at (sys_rmdir rm p d) q = file_at d q" for p d
    by (simp_all add: sys_rmdir_def disk_inv_def file_at_def)
  show "disk_inv (w_disk w) \<Longrightarrow> disk_inv (w_disk w')" "m_fileLock st' = m_fileLock st" "m_pathResolver st' = m_pathResolver st"
    using assms by (auto simp: cleanup_def Let_def dirs cleanup_disk_inv split: if_splits option.splits)
  show "file_at (w_disk w') q = file_at (w_disk w) q"
    if "\<And>ns. entries = Some ns \<Longrightarrow> q \<notin> (\<lambda>n. getStorePath (m_pathResolver st) @ n) ` set ns"
    using assms that by (auto simp: cleanup_def Let_def dirs cleanup_files split: if_splits option.splits)
qed

text \<open>What a method keeps of its implementation, whatever the value type.\<close>

lemma save_stored_effect:
  assumes "store_inv st w" "save_stored v le io key st w = (res, st', w')"
  shows "store_inv st' w' \<and> m_pathResolver st' = m_pathResolver st
    \<and> (isl res \<or> m_ready st' \<and> contents st' w' key = Some (bytes_of_stored v))"
    and "data_path q \<Longrightarrow> q \<noteq> getKeyPath (m_pathResolver st) key \<Longrightarrow> file_at (w_disk w') q = file_at (w_disk w) q"
proof -
  have inv: "disk_inv (w_disk w)" using assms(1) by (simp add: store_inv_def)
  show "store_inv st' w' \<and> m_pathResolver st' = m_pathResolver st
    \<and> (isl res \<or> m_ready st' \<and> contents st' w' key = Some (bytes_of_stored v))"
    using assms(2) by (cases v; cases res) (auto dest!: save_effect [OF assms(1)])
  show "data_path q \<Longrightarrow> q \<noteq> getKeyPath (m_pathResolver st) key \<Longrightarrow> file_at (w_disk w') q = file_at (w_disk w) q"
    using assms(2) by (cases v) (auto dest!: save_disk_frame [OF _ inv])
qed

lemma step_keeps:
  assumes "stores_ok s" "store_step op s = Some (r, s')"
  shows "stores_ok s'" and "data_path p \<Longrightarrow> p \<notin> touched op s \<Longrightarrow> on_disk s' p = on_disk s p"
proof -
  have one: "store_inv st (st_world s)" if "st_impl s h = Some st" for h st
    using assms(1) that by (simp add: stores_ok_def store_inv_def)
  have drop: "st_world (drop_impl h s) = st_world s" "stores_ok (drop_impl h s)" for h
    using assms(1) one store_destroy_idle by (auto simp: drop_impl_def stores_ok_def split: option.splits)
  have "stores_ok s' \<and> (data_path p \<longrightarrow> p \<notin> touched op s \<longrightarrow> on_disk s' p = on_disk s p)"
  proof (cases op)
    case (Open mk h svc root)
    show ?thesis
    proof (cases "Store_open mk svc root (st_world s)")
      case (Some sw)
      obtain st w where sw: "sw = (st, w)" by (rule prod.exhaust)
      have new: "m_fileLock st = []" "disk_inv (w_disk w) = disk_inv (w_disk (st_world s))" "file_at (w_disk w) p = file_at (w_disk (st_world s)) p"
        using Some sw by (auto simp: Store_open_def ensureDirectory_def Let_def disk_inv_def file_at_def split: option.splits if_splits prod.splits)
      have "st_world (drop_impl h (s\<lparr>st_world := w\<rparr>)) = w"
        using assms(1) by (auto simp: drop_impl_def stores_ok_def Store_destroy_def FileLock_destroy_def split: option.splits)
      moreover have "st_impl (drop_impl h (s\<lparr>st_world := w\<rparr>)) = (st_impl s)(h := None)"
        by (auto simp: drop_impl_def fun_eq_iff split: option.splits)
      ultimately show ?thesis
        using assms Open Some sw new by (auto simp: open_into_def Let_def stores_ok_def on_disk_def split: if_splits)
    qed (use assms Open in \<open>simp add: open_into_def\<close>)
  next
    case (Move h other)
    then show ?thesis using assms drop [of h]
      by (auto simp: move_impl_def Let_def stores_ok_def on_disk_def split: if_splits)
  next
    case (Drop h)
    then show ?thesis using assms(2) drop [of h] by (simp add: on_disk_def)
  next
    case (Save h v le io key)
    then obtain st res st' w' where st: "st_impl s h = Some st" "save_stored v le io key st (st_world s) = (res, st', w')"
      "s' = s\<lparr>st_world := w', st_impl := (st_impl s)(h \<mapsto> st')\<rparr>"
      using assms(2) by (auto simp: with_impl_def split: option.splits prod.splits)
    show ?thesis using save_stored_effect [OF one [OF st(1)] st(2)] assms(1) st Save
      by (auto simp: stores_ok_def store_inv_def on_disk_def)
  next
    case (Remove h le u key)
    then obtain st res st' w' where st: "st_impl s h = Some st" "remove le u key st (st_world s) = (res, st', w')"
      "s' = s\<lparr>st_world := w', st_impl := (st_impl s)(h \<mapsto> st')\<rparr>"
      using assms(2) by (auto simp: with_impl_def split: option.splits prod.splits)
    show ?thesis using remove_effect [OF one [OF st(1)] st(2)] remove_disk_frame [OF st(2), of p] assms(1) st Remove
      by (auto simp: stores_ok_def store_inv_def on_disk_def)
  next
    case (Flush h)
    then show ?thesis using assms by (auto simp: with_impl_def flush_def stores_ok_def on_disk_def split: option.splits if_splits)
  next
    case (Cleanup h entries rm)
    then obtain st st' w' where st: "st_impl s h = Some st" "cleanup entries rm st (st_world s) = (st', w')"
      "s' = s\<lparr>st_world := w', st_impl := (st_impl s)(h \<mapsto> st')\<rparr>"
      using assms(2) by (auto simp: with_impl_def split: option.splits prod.splits)
    have "p \<notin> touched op s \<Longrightarrow> file_at (w_disk w') p = file_at (w_disk (st_world s)) p"
      by (rule cleanup_frame(4) [OF st(2)]) (use Cleanup st(1) in simp)
    then show ?thesis using cleanup_frame(1,2) [OF st(2)] assms(1) st by (auto simp: stores_ok_def on_disk_def)
  qed
  then show "stores_ok s'" and "data_path p \<Longrightarrow> p \<notin> touched op s \<Longrightarrow> on_disk s' p = on_disk s p" by simp_all
qed

lemma run_keeps:
  assumes "run_stores ops s = Some s'" "stores_ok s"
  shows "stores_ok s'" and "data_path p \<Longrightarrow> untouched p ops s \<Longrightarrow> on_disk s' p = on_disk s p"
proof -
  have "stores_ok s' \<and> (data_path p \<longrightarrow> untouched p ops s \<longrightarrow> on_disk s' p = on_disk s p)"
    using assms
  proof (induction ops arbitrary: s)
    case (Cons op ops)
    then obtain r s1 where s1: "store_step op s = Some (r, s1)" "run_stores ops s1 = Some s'" by (auto split: option.splits)
    from Cons.IH [OF s1(2) step_keeps(1) [OF Cons.prems(2) s1(1)]] step_keeps(2) [OF Cons.prems(2) s1(1), of p] s1(1)
    show ?case by auto
  qed simp
  then show "stores_ok s'" and "data_path p \<Longrightarrow> untouched p ops s \<Longrightarrow> on_disk s' p = on_disk s p" by simp_all
qed

section \<open>Properties\<close>

definition storable :: "stored \<Rightarrow> bool" where
  "storable v \<longleftrightarrow> (case v of IntValue i \<Rightarrow> - int_max - 1 \<le> i \<and> i \<le> int_max | _ \<Rightarrow> True)"

lemma load_like_reads:
  assumes "storable v" "m_ready st" "contents st w key = Some (bytes_of_stored v)"
  shows "load_like v True key st w = Inr v"
  using assms int_values.read_back bool_values.read_back string_values.read_back
  by (cases v) (simp_all add: load_contents storable_def)

text \<open>C15. 
  Whatever the stores of a process did before, in however many variables, moved around, of the same service or of
  others: a value saved through one is what any of them reads under that key in the same directory, as long as
  nobody saves, removes or cleans up that file in between.  In particular the variable that saved it may be
  gone, and another, opened later, reads it.
\<close>

theorem saved_value_found_by_every_store:
  assumes "run_stores before (stores_start w) = Some s" "disk_inv (w_disk w)"
    and "st_impl s h = Some st" "store_step (Save h v le io key) s = Some (True, s1)" "storable v"
    and "run_stores after s1 = Some s2" "untouched (getKeyPath (m_pathResolver st) key) after s1"
    and "st_impl s2 h' = Some st'" "getStorePath (m_pathResolver st') = getStorePath (m_pathResolver st)" "m_ready st'"
  shows "load_like v True key st' (st_world s2) = Inr v"
proof -
  have "stores_ok (stores_start w)" using assms(2) by (simp add: stores_ok_def stores_start_def)
  then have ok: "stores_ok s" by (rule run_keeps(1) [OF assms(1)])
  obtain res st1 w1 where saved: "save_stored v le io key st (st_world s) = (res, st1, w1)" "\<not> isl res"
    "s1 = s\<lparr>st_world := w1, st_impl := (st_impl s)(h \<mapsto> st1)\<rparr>"
    using assms(3,4) by (auto simp: with_impl_def split: prod.splits)
  have inv: "store_inv st (st_world s)" using ok assms(3) by (simp add: stores_ok_def store_inv_def)
  have "m_pathResolver st1 = m_pathResolver st" "contents st1 w1 key = Some (bytes_of_stored v)"
    using save_stored_effect(1) [OF inv saved(1)] saved(2) by simp_all
  then have "on_disk s1 (getKeyPath (m_pathResolver st) key) = Some (bytes_of_stored v)"
    by (simp add: contents_def cell_def on_disk_def saved(3))
  moreover have "stores_ok s1" by (rule step_keeps(1) [OF ok assms(4)])
  ultimately have "on_disk s2 (getKeyPath (m_pathResolver st) key) = Some (bytes_of_stored v)"
    using run_keeps(2) [OF assms(6) _ key_path_data assms(7)] by simp
  then have "contents st' (st_world s2) key = Some (bytes_of_stored v)"
    using assms(9) by (simp add: contents_def cell_def on_disk_def getKeyPath_def)
  then show ?thesis by (rule load_like_reads [OF assms(5,10)])
qed

text \<open>The variables own separately: what one holds, no other holds after a move, and the destruction of one leaves
  the world to the others as it is.\<close>

theorem move_hands_over:
  assumes "h \<noteq> other" "stores_ok s"
  shows "st_impl (move_impl h other s) h = st_impl s other \<and> st_impl (move_impl h other s) other = None
    \<and> st_world (move_impl h other s) = st_world s \<and> store_step (Save other v le io key) (move_impl h other s) = None"
proof -
  have "st_world (drop_impl h s) = st_world s \<and> st_impl (drop_impl h s) other = st_impl s other"
    using assms by (auto simp: drop_impl_def stores_ok_def Store_destroy_def FileLock_destroy_def split: option.splits)
  then show ?thesis using assms(1) by (simp add: move_impl_def Let_def with_impl_def)
qed

section \<open>Witnesses\<close>

lemma open_fresh: "\<exists>w'. Store_open (\<lambda>p. True) ''svc'' ''/d'' w = Some (ready_store, w')"
  by (auto simp: Store_open_def PathResolver_new_def ensureDirectory_def ready_store_def Let_def split: prod.splits if_splits)

definition later_ops :: "store_op list" where
  "later_ops = [Move 2 0, Drop 2, Open (\<lambda>p. True) 3 ''svc'' ''/d'', Flush 3]"

theorem saved_value_found_by_every_store_witness:
  "\<exists>s s1 s2 st'. run_stores [Open (\<lambda>p. True) 0 ''svc'' ''/d''] (stores_start empty_world) = Some s
     \<and> store_step (Save 0 (IntValue 42) (attempt True 1 kern_init) good_io ''k'') s = Some (True, s1)
     \<and> run_stores later_ops s1 = Some s2 \<and> st_impl s2 0 = None \<and> st_impl s2 3 = Some st'
     \<and> load_like (IntValue 42) True ''k'' st' (st_world s2) = Inr (IntValue 42)"
proof -
  define s where "s = \<lparr>st_world = empty_world, st_impl = [0 \<mapsto> ready_store]\<rparr>"
  have "Store_open (\<lambda>p. True) ''svc'' ''/d'' empty_world = Some (ready_store, empty_world)"
    by (simp add: Store_open_def PathResolver_new_def ensureDirectory_def ready_store_def empty_world_def Let_def)
  then have opened: "run_stores [Open (\<lambda>p. True) 0 ''svc'' ''/d''] (stores_start empty_world) = Some s"
    by (simp add: stores_start_def open_into_def drop_impl_def s_def)
  obtain st1 w1 where saved: "save int_codec (attempt True 1 kern_init) good_io ''k'' 42 ready_store empty_world = (Inr (), st1, w1)"
    using save_runs by (metis prod.exhaust fst_conv)
  define s1 where "s1 = s\<lparr>st_world := w1, st_impl := (st_impl s)(0 \<mapsto> st1)\<rparr>"
  have step: "store_step (Save 0 (IntValue 42) (attempt True 1 kern_init) good_io ''k'') s = Some (True, s1)"
    using saved by (simp add: with_impl_def s_def s1_def)
  obtain w2 where again: "Store_open (\<lambda>p. True) ''svc'' ''/d'' (Store_destroy st1 w1) = Some (ready_store, w2)"
    using open_fresh by blast
  define s2 where "s2 = \<lparr>st_world = w2, st_impl = [3 \<mapsto> flush ready_store]\<rparr>"
  have later: "run_stores later_ops s1 = Some s2" "untouched p later_ops s1" for p
    by (simp_all add: later_ops_def s1_def s_def move_impl_def drop_impl_def open_into_def with_impl_def again s2_def fun_eq_iff)
  have last: "st_impl s2 0 = None" "st_impl s2 3 = Some (flush ready_store)" by (simp_all add: s2_def)
  have "load_like (IntValue 42) True ''k'' (flush ready_store) (st_world s2) = Inr (IntValue 42)"
  proof (rule saved_value_found_by_every_store [OF opened _ _ step _ later(1) _ last(2)])
    show "disk_inv (w_disk empty_world)" using empty_world_inv by (simp add: store_inv_def)
    show "st_impl s 0 = Some ready_store" by (simp add: s_def)
  qed (use later in \<open>simp_all add: storable_def int_max_def flush_def ready_store_def\<close>)
  then show ?thesis using opened step later(1) last by blast
qed

end
