(* ===== verification/Store_Lock_Calls.thy ===== *)
theory Store_Lock_Calls
  imports Store_Lock
begin

text \<open>
  \<open>FileLock\<close> (\<open>src/store/store_file_lock.cpp\<close>) one system call at a time: processes, each with one lock object
  whose mutex runs its operations one after another, interleave between \<open>open\<close>, \<open>flock\<close>, \<open>close\<close> and \<open>unlink\<close>, and a
  process may end between any two of them.  An acquire that times out stops trying; one that does not opens the
  file again.  \<open>Store_Lock\<close> shows what whole operations guarantee; here is what is left of it.
\<close>

section \<open>Processes\<close>

text \<open>Where the operation of a process stands: none runs; \<open>acquire\<close> has opened the lock file, or was refused the
  lock; \<open>release\<close> has unlocked, or has closed and forgotten the descriptor and is about to unlink.\<close>

datatype lock_pc = NoOp | Opened string int | Refused int | Unlocked string int | Unlinking string

record lock_procs =
  lp_kern :: kern
  lp_fds :: "nat \<Rightarrow> lock_fds"
  lp_pc :: "nat \<Rightarrow> lock_pc"

definition lp_init :: lock_procs where
  "lp_init = \<lparr>lp_kern = kern_init, lp_fds = (\<lambda>_. []), lp_pc = (\<lambda>_. NoOp)\<rparr>"

definition lp_goto :: "nat \<Rightarrow> lock_pc \<Rightarrow> kern \<Rightarrow> lock_procs \<Rightarrow> lock_procs" where
  "lp_goto p c k s = s\<lparr>lp_kern := k, lp_pc := (lp_pc s)(p := c)\<rparr>"

definition lp_keep :: "nat \<Rightarrow> lock_fds \<Rightarrow> lock_procs \<Rightarrow> lock_procs" where
  "lp_keep p fds s = s\<lparr>lp_fds := (lp_fds s)(p := fds)\<rparr>"

text \<open>The end of a process: the kernel closes what it had open.\<close>

definition k_exit :: "nat \<Rightarrow> kern \<Rightarrow> kern" where
  "k_exit p k = k\<lparr>open_fds := (\<lambda>(q, fd). if q = p then None else open_fds k (q, fd)),
     owner := (\<lambda>i. case owner k i of Some (q, fd) \<Rightarrow> if q = p then None else Some (q, fd) | None \<Rightarrow> None)\<rparr>"

text \<open>\<open>R\<close>: whether the processes call \<open>release\<close> at all, or keep their locks until they end.\<close>

inductive call_step :: "bool \<Rightarrow> PathResolver \<Rightarrow> lock_procs \<Rightarrow> lock_procs \<Rightarrow> bool" for R pr where
  AcquireOpens: "lp_pc s p = NoOp \<Longrightarrow> map_of (lp_fds s p) key = None
    \<Longrightarrow> k_open p (getLockFilePath pr key) (lp_kern s) = (fd, k) \<Longrightarrow> call_step R pr s (lp_goto p (Opened key fd) k s)"
| AcquireLocks: "lp_pc s p = Opened key fd \<Longrightarrow> k_flock p fd (lp_kern s) = (True, k)
    \<Longrightarrow> call_step R pr s (lp_keep p (smap_put key fd (lp_fds s p)) (lp_goto p NoOp k s))"
| AcquireRefused: "lp_pc s p = Opened key fd \<Longrightarrow> k_flock p fd (lp_kern s) = (False, k)
    \<Longrightarrow> call_step R pr s (lp_goto p (Refused fd) k s)"
| AcquireCloses: "lp_pc s p = Refused fd \<Longrightarrow> call_step R pr s (lp_goto p NoOp (k_close p fd (lp_kern s)) s)"
| ReleaseUnlocks: "R \<Longrightarrow> lp_pc s p = NoOp \<Longrightarrow> map_of (lp_fds s p) key = Some fd
    \<Longrightarrow> call_step R pr s (lp_goto p (Unlocked key fd) (k_unlock p fd (lp_kern s)) s)"
| ReleaseCloses: "lp_pc s p = Unlocked key fd
    \<Longrightarrow> call_step R pr s (lp_keep p (smap_erase key (lp_fds s p)) (lp_goto p (Unlinking key) (k_close p fd (lp_kern s)) s))"
| ReleaseUnlinks: "lp_pc s p = Unlinking key
    \<Longrightarrow> call_step R pr s (lp_goto p NoOp (k_unlink (getLockFilePath pr key) (lp_kern s)) s)"
| Destroyed: "lp_pc s p = NoOp \<Longrightarrow> FileLock_destroy p (lp_fds s p) (lp_kern s) = (fds, k)
    \<Longrightarrow> call_step R pr s (lp_keep p fds (lp_goto p NoOp k s))"
| Ends: "call_step R pr s (lp_keep p [] (lp_goto p NoOp (k_exit p (lp_kern s)) s))"

inductive call_reach :: "bool \<Rightarrow> PathResolver \<Rightarrow> lock_procs \<Rightarrow> bool" for R pr where
  CallInit: "call_reach R pr lp_init"
| CallStep: "call_reach R pr s \<Longrightarrow> call_step R pr s s' \<Longrightarrow> call_reach R pr s'"

text \<open>A process holds a key when \<open>acquire\<close> has returned true and no release of it has begun.\<close>

definition lp_holds :: "lock_procs \<Rightarrow> nat \<Rightarrow> string \<Rightarrow> bool" where
  "lp_holds s p key \<longleftrightarrow> FileLock_isHeld key (lp_fds s p) \<and> (\<forall>fd. lp_pc s p \<noteq> Unlocked key fd)"

lemmas lp_defs = lp_goto_def lp_keep_def

section \<open>The kernel under single calls\<close>

lemma kern_inv_exit [inv_intros]: "kern_inv k \<Longrightarrow> kern_inv (k_exit p k)"
  by (auto simp: kern_inv_def k_exit_def split: option.splits prod.splits if_splits)

lemma kern_inv_call: "call_step R pr s s' \<Longrightarrow> kern_inv (lp_kern s) \<Longrightarrow> kern_inv (lp_kern s')"
proof (induction rule: call_step.induct)
  case (AcquireOpens s p key fd k)
  then show ?case using kern_inv_open [of "lp_kern s" p "getLockFilePath pr key"] by (simp add: lp_defs)
next
  case (AcquireLocks s p key fd k)
  then show ?case using kern_inv_flock [of "lp_kern s" p fd] by (simp add: lp_defs)
next
  case (AcquireRefused s p key fd k)
  then show ?case using kern_inv_flock [of "lp_kern s" p fd] by (simp add: lp_defs)
next
  case (Destroyed s p fds k)
  then show ?case using kern_inv_destroy [of "lp_kern s" p "lp_fds s p"] by (simp add: lp_defs FileLock_destroy_def)
qed (simp_all add: lp_defs inv_intros)

text \<open>What the calls of one process leave of another's lock, and of another's open file.\<close>

lemma k_open_keeps:
  assumes "k_open p path k = (fd, k')"
  shows "owns pr k q key fd' \<Longrightarrow> owns pr k' q key fd'"
    and "path_ino k path' = Some i \<Longrightarrow> path_ino k' path' = Some i"
    and "\<exists>i. path_ino k' path = Some i \<and> open_fds k' (p, fd) = Some i"
    and "q \<noteq> p \<Longrightarrow> open_fds k' (q, fd') = open_fds k (q, fd')"
    and "fd = int (next_fd k)"
  using assms by (auto simp: k_open_def owns_def Let_def)

lemma k_flock_keeps:
  assumes "k_flock p fd k = (ok, k')"
  shows "owns pr k q key fd' \<Longrightarrow> owns pr k' q key fd'" and "path_ino k' = path_ino k" and "open_fds k' = open_fds k"
    and "ok \<Longrightarrow> open_fds k (p, fd) = Some i \<Longrightarrow> owner k' i = Some (p, fd)"
  using assms by (auto simp: k_flock_def owns_def split: option.splits if_splits)

lemma k_unlock_keeps [simp]: "path_ino (k_unlock p fd k) = path_ino k" "open_fds (k_unlock p fd k) = open_fds k"
  by (simp_all add: k_unlock_def split: option.split)

lemma k_unlock_owner: "owner k i = Some (q, fd') \<Longrightarrow> (q, fd') \<noteq> (p, fd) \<Longrightarrow> owner (k_unlock p fd k) i = Some (q, fd')"
  by (auto simp: k_unlock_def split: option.split)

lemma k_unlock_owns: "owns pr k q key fd' \<Longrightarrow> (q, fd') \<noteq> (p, fd) \<Longrightarrow> owns pr (k_unlock p fd k) q key fd'"
  using k_unlock_owner unfolding owns_def by fastforce

lemma k_close_keeps:
  "path_ino (k_close p fd k) = path_ino k"
  "(q, fd') \<noteq> (p, fd) \<Longrightarrow> open_fds (k_close p fd k) (q, fd') = open_fds k (q, fd')"
  "owns pr k q key fd' \<Longrightarrow> (q, fd') \<noteq> (p, fd) \<Longrightarrow> owns pr (k_close p fd k) q key fd'"
  using k_unlock_owns [of pr k q key fd' p fd] by (auto simp: k_close_def Let_def owns_def)

lemma k_exit_keeps:
  "path_ino (k_exit p k) = path_ino k"
  "q \<noteq> p \<Longrightarrow> open_fds (k_exit p k) (q, fd) = open_fds k (q, fd)"
  "q \<noteq> p \<Longrightarrow> owns pr k q key fd \<Longrightarrow> owns pr (k_exit p k) q key fd"
  by (auto simp: k_exit_def owns_def)

lemma destroy_call_keeps:
  "path_ino (foldl (\<lambda>k (key, fd). releaseFileLock p fd k) k fds) = path_ino k"
  "q \<noteq> p \<Longrightarrow> open_fds (foldl (\<lambda>k (key, fd). releaseFileLock p fd k) k fds) (q, fd') = open_fds k (q, fd')"
  by (induction fds arbitrary: k) (auto simp: releaseFileLock_def k_close_keeps)

section \<open>Locks that are never released\<close>

text \<open>Whose lock a process keeps: its descriptor owns the file of the name, and an opened file is that one.\<close>

definition proc_ok :: "PathResolver \<Rightarrow> kern \<Rightarrow> nat \<Rightarrow> lock_fds \<Rightarrow> lock_pc \<Rightarrow> bool" where
  "proc_ok pr k p fds c \<longleftrightarrow> smap_ok fds
     \<and> (\<forall>key fd. map_of fds key = Some fd \<longrightarrow> owns pr k p key fd)
     \<and> (case c of
          NoOp \<Rightarrow> True
        | Opened key fd \<Rightarrow> fd \<notin> snd ` set fds \<and> (\<exists>i. path_ino k (getLockFilePath pr key) = Some i \<and> open_fds k (p, fd) = Some i)
        | Refused fd \<Rightarrow> fd \<notin> snd ` set fds
        | _ \<Rightarrow> False)"

definition calls_ok :: "PathResolver \<Rightarrow> lock_procs \<Rightarrow> bool" where
  "calls_ok pr s \<longleftrightarrow> kern_inv (lp_kern s) \<and> (\<forall>p. proc_ok pr (lp_kern s) p (lp_fds s p) (lp_pc s p))"

text \<open>What others do does not harm a process as long as its entries and descriptors stay.\<close>

lemma proc_ok_simps:
  "proc_ok pr k p fds NoOp \<longleftrightarrow> smap_ok fds \<and> (\<forall>key fd. map_of fds key = Some fd \<longrightarrow> owns pr k p key fd)"
  "proc_ok pr k p fds (Opened key fd) \<longleftrightarrow> proc_ok pr k p fds NoOp \<and> fd \<notin> snd ` set fds
     \<and> (\<exists>i. path_ino k (getLockFilePath pr key) = Some i \<and> open_fds k (p, fd) = Some i)"
  "proc_ok pr k p fds (Refused fd) \<longleftrightarrow> proc_ok pr k p fds NoOp \<and> fd \<notin> snd ` set fds"
  "\<not> proc_ok pr k p fds (Unlocked key fd)" "\<not> proc_ok pr k p fds (Unlinking key)"
  by (auto simp: proc_ok_def)

lemma proc_ok_mono:
  assumes "proc_ok pr k q fds c"
    and "\<And>key fd. owns pr k q key fd \<Longrightarrow> map_of fds key = Some fd \<Longrightarrow> owns pr k' q key fd"
    and "\<And>path i. path_ino k path = Some i \<Longrightarrow> path_ino k' path = Some i"
    and "\<And>fd. fd \<notin> snd ` set fds \<Longrightarrow> c \<noteq> NoOp \<Longrightarrow> open_fds k' (q, fd) = open_fds k (q, fd)"
  shows "proc_ok pr k' q fds c"
proof -
  have base: "proc_ok pr k' q fds NoOp" using assms(1,2) by (cases c) (auto simp: proc_ok_simps)
  show ?thesis
  proof (cases c)
    case (Opened key fd)
    with assms(1) obtain i where "path_ino k (getLockFilePath pr key) = Some i" "open_fds k (q, fd) = Some i" "fd \<notin> snd ` set fds"
      by (auto simp: proc_ok_simps)
    then show ?thesis using Opened base assms(3) [of "getLockFilePath pr key" i] assms(4) [of fd] by (auto simp: proc_ok_simps)
  qed (use assms(1) base in \<open>simp_all add: proc_ok_simps\<close>)
qed

lemma held_fd_owns: "proc_ok pr k p fds c \<Longrightarrow> fd \<in> snd ` set fds \<Longrightarrow> \<exists>key. map_of fds key = Some fd \<and> owns pr k p key fd"
  by (force simp: proc_ok_def smap_ok_def)

lemma held_fd_old:
  assumes "kern_inv k" "proc_ok pr k p fds c" "fd \<in> snd ` set fds"
  shows "fd < int (next_fd k)"
proof -
  obtain key where "owns pr k p key fd" using held_fd_owns [OF assms(2,3)] by blast
  then obtain i where "owner k i = Some (p, fd)" by (auto simp: owns_def)
  then have "open_fds k (p, fd) = Some i" using assms(1) unfolding kern_inv_def by blast
  then show ?thesis using assms(1) unfolding kern_inv_def by blast
qed

lemma calls_ok_others:
  assumes "calls_ok pr s" "kern_inv k" "proc_ok pr k p fds c"
    and "\<And>q key fd. q \<noteq> p \<Longrightarrow> owns pr (lp_kern s) q key fd \<Longrightarrow> owns pr k q key fd"
    and "\<And>path i. path_ino (lp_kern s) path = Some i \<Longrightarrow> path_ino k path = Some i"
    and "\<And>q fd. q \<noteq> p \<Longrightarrow> open_fds k (q, fd) = open_fds (lp_kern s) (q, fd)"
  shows "calls_ok pr (lp_keep p fds (lp_goto p c k s))"
  using assms proc_ok_mono [of pr "lp_kern s" _ _ _ k]
  by (auto simp: calls_ok_def lp_defs)

lemma lp_keep_same: "lp_keep p (lp_fds s p) (lp_goto p c k s) = lp_goto p c k s"
  by (simp add: lp_defs)

lemma calls_ok_step:
  assumes "call_step False pr s s'" "calls_ok pr s"
  shows "calls_ok pr s'"
proof -
  have kern: "kern_inv (lp_kern s)" and proc: "proc_ok pr (lp_kern s) q (lp_fds s q) (lp_pc s q)" for q
    using assms(2) by (simp_all add: calls_ok_def)
  have kern': "kern_inv (lp_kern s')" by (rule kern_inv_call [OF assms(1) kern])
  show ?thesis
    using assms(1)
  proof cases
    case (AcquireOpens p key fd k)
    note keeps = k_open_keeps [OF AcquireOpens(4)]
    have old: "proc_ok pr (lp_kern s) p (lp_fds s p) NoOp" using proc [of p] AcquireOpens(2) by simp
    have "proc_ok pr k p (lp_fds s p) NoOp" using old keeps(1) unfolding proc_ok_simps by blast
    moreover have "fd \<notin> snd ` set (lp_fds s p)" using held_fd_old [OF kern old, of fd] keeps(5) by auto
    ultimately have new: "proc_ok pr k p (lp_fds s p) (Opened key fd)" using keeps(3) by (simp add: proc_ok_simps)
    have "kern_inv k" using kern' AcquireOpens(1) by (simp add: lp_defs)
    from calls_ok_others [OF assms(2) this new] show ?thesis
      unfolding AcquireOpens(1) lp_keep_same by (blast intro: keeps(1,2,4))
  next
    case (AcquireLocks p key fd k)
    note keeps = k_flock_keeps [OF AcquireLocks(3)]
    have old: "proc_ok pr (lp_kern s) p (lp_fds s p) (Opened key fd)" using proc [of p] AcquireLocks(2) by simp
    then obtain i where "path_ino (lp_kern s) (getLockFilePath pr key) = Some i" "open_fds (lp_kern s) (p, fd) = Some i"
      by (auto simp: proc_ok_simps)
    then have "owns pr k p key fd" using keeps(2) keeps(4) [of i] by (simp add: owns_def)
    moreover have "proc_ok pr k p (lp_fds s p) NoOp"
      using old keeps(1) unfolding proc_ok_simps by blast
    ultimately have new: "proc_ok pr k p (smap_put key fd (lp_fds s p)) NoOp" by (simp add: proc_ok_simps)
    have "kern_inv k" using kern' AcquireLocks(1) by (simp add: lp_defs)
    from calls_ok_others [OF assms(2) this new] show ?thesis
      unfolding AcquireLocks(1) by (simp add: keeps(1-3))
  next
    case (AcquireRefused p key fd k)
    note keeps = k_flock_keeps [OF AcquireRefused(3)]
    have old: "proc_ok pr (lp_kern s) p (lp_fds s p) (Opened key fd)" using proc [of p] AcquireRefused(2) by simp
    then have new: "proc_ok pr k p (lp_fds s p) (Refused fd)" using keeps(1) unfolding proc_ok_simps by blast
    have "kern_inv k" using kern' AcquireRefused(1) by (simp add: lp_defs)
    from calls_ok_others [OF assms(2) this new] show ?thesis
      unfolding AcquireRefused(1) lp_keep_same by (simp add: keeps(1-3))
  next
    case (AcquireCloses p fd)
    let ?k = "k_close p fd (lp_kern s)"
    have old: "proc_ok pr (lp_kern s) p (lp_fds s p) (Refused fd)" using proc [of p] AcquireCloses(2) by simp
    have "owns pr ?k p key fd'" if "map_of (lp_fds s p) key = Some fd'" for key fd'
    proof -
      have "fd' \<noteq> fd" using that old map_of_SomeD [OF that] by (force simp: proc_ok_simps)
      then show ?thesis using that old by (intro k_close_keeps(3)) (simp_all add: proc_ok_simps)
    qed
    then have new: "proc_ok pr ?k p (lp_fds s p) NoOp" using old by (simp add: proc_ok_simps)
    have "kern_inv ?k" using kern' AcquireCloses(1) by (simp add: lp_defs)
    from calls_ok_others [OF assms(2) this new] show ?thesis
      unfolding AcquireCloses(1) lp_keep_same by (simp add: k_close_keeps)
  next
    case (Destroyed p fds k)
    then have fds: "fds = []" and k: "k = foldl (\<lambda>k (key, fd). releaseFileLock p fd k) (lp_kern s) (lp_fds s p)"
      by (auto simp: FileLock_destroy_def)
    have kk: "kern_inv k" using kern' Destroyed(1) by (simp add: lp_defs)
    have new: "proc_ok pr k p [] NoOp" by (simp add: proc_ok_simps)
    have keeps: "owns pr k q key fd" if "q \<noteq> p" "owns pr (lp_kern s) q key fd" for q key fd
      unfolding k by (rule destroy_keeps [OF that(2,1)])
    show ?thesis unfolding Destroyed(1) fds
      by (rule calls_ok_others [OF assms(2) kk new keeps]) (simp_all add: k destroy_call_keeps)
  next
    case (Ends p)
    have "kern_inv (k_exit p (lp_kern s))" using kern' Ends by (simp add: lp_defs)
    moreover have "proc_ok pr (k_exit p (lp_kern s)) p [] NoOp" by (simp add: proc_ok_simps)
    ultimately show ?thesis
      unfolding Ends using calls_ok_others [OF assms(2), of "k_exit p (lp_kern s)" p "[]" NoOp] by (simp add: k_exit_keeps)
  next
    case (ReleaseCloses p key fd)
    with proc [of p] show ?thesis by (simp add: proc_ok_simps)
  next
    case (ReleaseUnlinks p key)
    with proc [of p] show ?thesis by (simp add: proc_ok_simps)
  qed simp
qed

lemma calls_ok_reach: "call_reach False pr s \<Longrightarrow> calls_ok pr s"
proof (induction rule: call_reach.induct)
  case CallInit
  show ?case by (simp add: calls_ok_def lp_init_def kern_inv_init proc_ok_simps)
next
  case (CallStep s s')
  then show ?case by (blast intro: calls_ok_step)
qed

section \<open>A release in the middle of an acquire\<close>

text \<open>Two processes and their pending operations.\<close>

definition two_procs :: "kern \<Rightarrow> lock_fds \<Rightarrow> lock_fds \<Rightarrow> lock_pc \<Rightarrow> lock_pc \<Rightarrow> lock_procs" where
  "two_procs k f0 f1 c0 c1 =
     \<lparr>lp_kern = k, lp_fds = (\<lambda>p. if p = 0 then f0 else if p = 2 then f1 else []),
      lp_pc = (\<lambda>p. if p = 0 then c0 else if p = 2 then c1 else NoOp)\<rparr>"

lemma two_procs_simps [simp]:
  "lp_kern (two_procs k f0 f1 c0 c1) = k" "lp_fds (two_procs k f0 f1 c0 c1) 0 = f0" "lp_fds (two_procs k f0 f1 c0 c1) 2 = f1"
  "lp_pc (two_procs k f0 f1 c0 c1) 0 = c0" "lp_pc (two_procs k f0 f1 c0 c1) 2 = c1"
  "lp_goto 0 c k' (two_procs k f0 f1 c0 c1) = two_procs k' f0 f1 c c1"
  "lp_goto 2 c k' (two_procs k f0 f1 c0 c1) = two_procs k' f0 f1 c0 c"
  "lp_keep 0 f (two_procs k f0 f1 c0 c1) = two_procs k f f1 c0 c1"
  "lp_keep 2 f (two_procs k f0 f1 c0 c1) = two_procs k f0 f c0 c1"
  by (auto simp: two_procs_def lp_defs fun_eq_iff)

text \<open>Process 2 opens the lock file of process 0 and locks it during the release, whose unlink then takes its name;
  process 0 acquires a new one.\<close>

lemma two_holders_reached:
  "\<exists>k. call_reach True pr (two_procs k [([], 5)] [([], 4)] NoOp NoOp)"
proof -
  let ?path = "getLockFilePath pr []"
  define k1 where "k1 = snd (k_open 0 ?path kern_init)"
  define k2 where "k2 = snd (k_flock 0 3 k1)"
  define k3 where "k3 = snd (k_open 2 ?path k2)"
  define k4 where "k4 = k_unlock 0 3 k3"
  define k5 where "k5 = snd (k_flock 2 4 k4)"
  define k6 where "k6 = k_close 0 3 k5"
  define k7 where "k7 = k_unlink ?path k6"
  define k8 where "k8 = snd (k_open 0 ?path k7)"
  define k9 where "k9 = snd (k_flock 0 5 k8)"
  note kdefs = k_open_def k_flock_def k_unlock_def k_close_def k_unlink_def kern_init_def Let_def
  have v1: "k1 = \<lparr>path_ino = [?path \<mapsto> 0], next_ino = 1, open_fds = [(0, 3) \<mapsto> 0], owner = Map.empty, next_fd = 4\<rparr>"
    by (simp add: k1_def kdefs)
  have v2: "k2 = k1\<lparr>owner := [0 \<mapsto> (0, 3)]\<rparr>" by (simp add: k2_def v1 kdefs)
  have v3: "k3 = k2\<lparr>open_fds := [(0, 3) \<mapsto> 0, (2, 4) \<mapsto> 0], next_fd := 5\<rparr>" by (simp add: k3_def v2 v1 kdefs)
  have v4: "k4 = k3\<lparr>owner := Map.empty\<rparr>" by (simp add: k4_def v3 v2 v1 kdefs)
  have v5: "k5 = k4\<lparr>owner := [0 \<mapsto> (2, 4)]\<rparr>" by (simp add: k5_def v4 v3 v2 v1 kdefs)
  have v6: "k6 = k5\<lparr>open_fds := [(2, 4) \<mapsto> 0]\<rparr>" by (simp add: k6_def v5 v4 v3 v2 v1 kdefs fun_eq_iff)
  have v7: "k7 = k6\<lparr>path_ino := Map.empty\<rparr>" by (simp add: k7_def v6 v5 v4 v3 v2 v1 kdefs)
  have v8: "k8 = k7\<lparr>path_ino := [?path \<mapsto> 1], next_ino := 2, open_fds := [(2, 4) \<mapsto> 0, (0, 5) \<mapsto> 1], next_fd := 6\<rparr>"
    by (simp add: k8_def v7 v6 v5 v4 v3 v2 v1 kdefs)
  have v9: "k9 = k8\<lparr>owner := [0 \<mapsto> (2, 4), 1 \<mapsto> (0, 5)]\<rparr>" by (simp add: k9_def v8 v7 v6 v5 v4 v3 v2 v1 kdefs)
  let ?reach = "\<lambda>k f0 f1 c0 c1. call_reach True pr (two_procs k f0 f1 c0 c1)"
  have "lp_init = two_procs kern_init [] [] NoOp NoOp" by (auto simp: lp_init_def two_procs_def)
  then have s0: "?reach kern_init [] [] NoOp NoOp" using CallInit [of True pr] by simp
  have "k_open 0 ?path kern_init = (3, k1)" by (simp add: v1 kdefs)
  with CallStep [OF s0 AcquireOpens [of _ 0 "[]" pr 3 k1]] have s1: "?reach k1 [] [] (Opened [] 3) NoOp" by simp
  have "k_flock 0 3 k1 = (True, k2)" by (simp add: v2 v1 kdefs)
  with CallStep [OF s1 AcquireLocks [of _ 0 "[]" 3 k2]] have s2: "?reach k2 [([], 3)] [] NoOp NoOp" by simp
  have "k_open 2 ?path k2 = (4, k3)" by (simp add: v3 v2 v1 kdefs)
  with CallStep [OF s2 AcquireOpens [of _ 2 "[]" pr 4 k3]] have s3: "?reach k3 [([], 3)] [] NoOp (Opened [] 4)" by simp
  with CallStep [OF s3 ReleaseUnlocks [of _ _ 0 "[]" 3]] have s4: "?reach k4 [([], 3)] [] (Unlocked [] 3) (Opened [] 4)"
    by (simp add: k4_def)
  have "k_flock 2 4 k4 = (True, k5)" by (simp add: v5 v4 v3 v2 v1 kdefs)
  with CallStep [OF s4 AcquireLocks [of _ 2 "[]" 4 k5]] have s5: "?reach k5 [([], 3)] [([], 4)] (Unlocked [] 3) NoOp" by simp
  from CallStep [OF s5 ReleaseCloses [of _ 0 "[]" 3]] have s6: "?reach k6 [] [([], 4)] (Unlinking []) NoOp"
    by (simp add: k6_def smap_erase_def)
  from CallStep [OF s6 ReleaseUnlinks [of _ 0 "[]"]] have s7: "?reach k7 [] [([], 4)] NoOp NoOp" by (simp add: k7_def)
  have "k_open 0 ?path k7 = (5, k8)" by (simp add: v8 v7 v6 v5 v4 v3 v2 v1 kdefs)
  with CallStep [OF s7 AcquireOpens [of _ 0 "[]" pr 5 k8]] have s8: "?reach k8 [] [([], 4)] (Opened [] 5) NoOp" by simp
  have "k_flock 0 5 k8 = (True, k9)" by (simp add: v9 v8 v7 v6 v5 v4 v3 v2 v1 kdefs)
  with CallStep [OF s8 AcquireLocks [of _ 0 "[]" 5 k9]] have "?reach k9 [([], 5)] [([], 4)] NoOp NoOp" by simp
  then show ?thesis by blast
qed

section \<open>Properties\<close>

text \<open>C20. 
  Two processes can hold the lock of one key at the same time exactly when processes release locks before they
  end: the unlink of a release takes the name from a file another process has opened, and the next acquire makes
  a new file of that name.  Locks that are only dropped with their object or their process exclude each other in
  every interleaving of the system calls.
\<close>

theorem two_holders_iff_released:
  "(\<exists>s p q key. call_reach R pr s \<and> p \<noteq> q \<and> lp_holds s p key \<and> lp_holds s q key) \<longleftrightarrow> R"
    (is "?two \<longleftrightarrow> R")
proof
  show R if ?two
  proof (rule ccontr)
    assume "\<not> R"
    with that obtain s p q key where s: "call_reach False pr s" "p \<noteq> q" "lp_holds s p key" "lp_holds s q key" by auto
    then obtain fd fd' where "map_of (lp_fds s p) key = Some fd" "map_of (lp_fds s q) key = Some fd'"
      by (auto simp: lp_holds_def FileLock_isHeld_def)
    then have "owns pr (lp_kern s) p key fd" "owns pr (lp_kern s) q key fd'"
      using calls_ok_reach [OF s(1)] by (auto simp: calls_ok_def proc_ok_def)
    with owns_unique s(2) show False by blast
  qed
  show ?two if R
  proof -
    obtain k where "call_reach True pr (two_procs k [([], 5)] [([], 4)] NoOp NoOp)" using two_holders_reached by blast
    moreover have "lp_holds (two_procs k [([], 5)] [([], 4)] NoOp NoOp) p []" if "p = 0 \<or> p = 2" for p :: nat
      using that by (auto simp: lp_holds_def FileLock_isHeld_def)
    ultimately show ?thesis using that by (metis zero_neq_numeral)
  qed
qed

section \<open>Whole operations are runs of calls\<close>

definition between_ops :: "locks \<Rightarrow> lock_procs" where
  "between_ops s = \<lparr>lp_kern = kernel s, lp_fds = held s, lp_pc = (\<lambda>_. NoOp)\<rparr>"

lemma between_ops_simps [simp]:
  "lp_kern (between_ops s) = kernel s" "lp_fds (between_ops s) = held s" "lp_pc (between_ops s) p = NoOp"
  "lp_pc (lp_goto p c k t) p = c" "lp_fds (lp_goto p c k t) = lp_fds t" "lp_kern (lp_goto p c k t) = k"
  "lp_goto p c k (lp_goto p c' k' t) = lp_goto p c k t" "lp_goto p c k (lp_keep p f t) = lp_keep p f (lp_goto p c k t)"
  "lp_pc (lp_keep p f t) = lp_pc t" "lp_kern (lp_keep p f t) = lp_kern t" "lp_fds (lp_keep p f t) p = f"
  by (auto simp: between_ops_def lp_defs)

lemma between_ops_done:
  "lp_keep p fds (lp_goto p NoOp k (between_ops s)) = between_ops (s\<lparr>kernel := k, held := (held s)(p := fds)\<rparr>)"
  by (auto simp: between_ops_def lp_defs)

lemma between_ops_kept:
  "lp_goto p NoOp k (between_ops s) = between_ops (s\<lparr>kernel := k, held := (held s)(p := held s p)\<rparr>)"
  by (auto simp: between_ops_def lp_defs)

lemma three_steps: "r a b \<Longrightarrow> r b c \<Longrightarrow> r c d \<Longrightarrow> r\<^sup>*\<^sup>* a d"
  by (blast intro: converse_rtranclp_into_rtranclp r_into_rtranclp)

lemma try_calls:
  assumes "map_of (held s p) key = None" "tryFileLock True p (getLockFilePath pr key) (kernel s) = (r, k)"
  shows "(call_step R pr)\<^sup>*\<^sup>* (between_ops s) (case r of
      None \<Rightarrow> lp_goto p NoOp k (between_ops s)
    | Some fd \<Rightarrow> lp_keep p (smap_put key fd (held s p)) (lp_goto p NoOp k (between_ops s)))"
proof -
  obtain fd k1 where opened: "k_open p (getLockFilePath pr key) (kernel s) = (fd, k1)" by (rule prod.exhaust)
  obtain ok k2 where locked: "k_flock p fd k1 = (ok, k2)" by (rule prod.exhaust)
  let ?o = "lp_goto p (Opened key fd) k1 (between_ops s)"
  have first: "call_step R pr (between_ops s) ?o"
    by (rule AcquireOpens) (simp_all add: assms(1) opened)
  show ?thesis
  proof (cases ok)
    case True
    have "call_step R pr ?o (lp_keep p (smap_put key fd (held s p)) (lp_goto p NoOp k2 (between_ops s)))"
      using AcquireLocks [of ?o p key fd k2 R pr] locked True by simp
    moreover have "r = Some fd" "k = k2" using assms(2) opened locked True by (simp_all add: tryFileLock_def)
    ultimately show ?thesis using first by simp
  next
    case False
    let ?r = "lp_goto p (Refused fd) k2 (between_ops s)"
    have "call_step R pr ?o ?r" using AcquireRefused [of ?o p key fd k2 R pr] locked False by simp
    moreover have "call_step R pr ?r (lp_goto p NoOp (k_close p fd k2) (between_ops s))"
      using AcquireCloses [of ?r p fd R pr] by simp
    moreover have "r = None" "k = k_close p fd k2" using assms(2) opened locked False by (simp_all add: tryFileLock_def)
    ultimately show ?thesis using first three_steps [of "call_step R pr" "between_ops s" ?o ?r] by simp
  qed
qed

text \<open>
  Each operation of \<open>Store_Lock\<close>, run without interruption, is a run of these calls from one state between
  operations to the next.
\<close>

theorem lock_ops_are_calls:
  assumes "lock_reach pr s" "lock_op pr s s'"
  shows "(call_step True pr)\<^sup>*\<^sup>* (between_ops s) (between_ops s')"
  using assms(2)
proof cases
  case (op_acquire opens p key ok fds k)
  show ?thesis
  proof (cases "map_of (held s p) key = None \<and> opens")
    case True
    obtain r k' where try1: "tryFileLock True p (getLockFilePath pr key) (kernel s) = (r, k')" by (rule prod.exhaust)
    then have "k = k'" "fds = (case r of None \<Rightarrow> held s p | Some fd \<Rightarrow> smap_put key fd (held s p))"
      using op_acquire(2) True by (auto simp: FileLock_acquire_def attempt_def split: option.splits)
    then have "between_ops s' = (case r of None \<Rightarrow> lp_goto p NoOp k' (between_ops s)
        | Some fd \<Rightarrow> lp_keep p (smap_put key fd (held s p)) (lp_goto p NoOp k' (between_ops s)))"
      unfolding op_acquire(1) by (cases r) (simp_all add: between_ops_done, simp add: between_ops_kept)
    then show ?thesis using try_calls [OF _ try1, of True] True by simp
  next
    case False
    then have "k = kernel s" "fds = held s p"
      using op_acquire(2) by (auto simp: FileLock_acquire_def attempt_def tryFileLock_def split: if_splits)
    then show ?thesis unfolding op_acquire(1) by simp
  qed
next
  case (op_release p key fds k)
  show ?thesis
  proof (cases "map_of (held s p) key")
    case None
    then have "k = kernel s" "fds = held s p" using op_release(2) by (auto simp: FileLock_release_def)
    then show ?thesis unfolding op_release(1) by simp
  next
    case (Some fd)
    have "owns pr (kernel s) p key fd" "kern_inv (kernel s)"
      using locks_inv_reach [OF assms(1)] Some by (simp_all add: locks_inv_def)
    then have fd: "0 \<le> fd" unfolding owns_def kern_inv_def by blast
    let ?k1 = "k_unlock p fd (kernel s)" and ?k2 = "k_close p fd (k_unlock p fd (kernel s))"
    let ?a = "lp_goto p (Unlocked key fd) ?k1 (between_ops s)"
    let ?b = "lp_keep p (smap_erase key (held s p)) (lp_goto p (Unlinking key) ?k2 (between_ops s))"
    have "call_step True pr (between_ops s) ?a" using ReleaseUnlocks [of True "between_ops s" p key fd pr] Some by simp
    moreover have "call_step True pr ?a ?b" using ReleaseCloses [of ?a p key fd True pr] by simp
    moreover have "call_step True pr ?b (lp_keep p (smap_erase key (held s p)) (lp_goto p NoOp (k_unlink (getLockFilePath pr key) ?k2) (between_ops s)))"
      using ReleaseUnlinks [of ?b p key True pr] by simp
    moreover have "k = k_unlink (getLockFilePath pr key) ?k2" "fds = smap_erase key (held s p)"
      using op_release(2) Some fd by (auto simp: FileLock_release_def releaseFileLock_def)
    ultimately show ?thesis unfolding op_release(1) between_ops_done [symmetric]
      using three_steps [of "call_step True pr" "between_ops s" ?a ?b] by simp
  qed
next
  case (op_destroy p fds k)
  then have "call_step True pr (between_ops s) (lp_keep p fds (lp_goto p NoOp k (between_ops s)))"
    by (intro Destroyed) simp_all
  then show ?thesis unfolding op_destroy(1) between_ops_done [symmetric] by simp
qed

section \<open>What two holders do to a file\<close>

text \<open>
  The harm: a second holder's writer opens the temporary file of the first between its sync and its rename.
  The first save is committed with an empty file, the second writer's bytes then go into the committed file
  unsynced, and its own sync finds no temporary file, so that it reports a failure.  The caller whose save
  succeeded finds the other's value, the caller whose value is there was told that the write failed.
\<close>

theorem second_holder_swaps_values:
  assumes "writeTempFile io (getTempPath pr key) a ([], d) = (True, r1)"
    and "syncFile io (getTempPath pr key) r1 = (True, r2)"
    and "sys_creat (getTempPath pr key) (now r2) = (fd, d3)"
    and "io_rename io"
  shows "\<exists>d4. atomicRename io (getTempPath pr key) (getKeyPath pr key) ([], d3) = (True, ([d3], d4))
      \<and> file_at d4 (getKeyPath pr key) = Some []
      \<and> file_at (sys_write fd b d4) (getKeyPath pr key) = Some b \<and> \<not> synced (sys_write fd b d4) fd
      \<and> fst (syncFile io' (getTempPath pr key) ([], sys_write fd b d4)) = False"
proof -
  obtain i where i: "names (now r2) (getTempPath pr key) = Some i"
    using assms(2) by (auto simp: syncFile_def to_def now_def sys_fsync_def split: option.splits if_splits)
  then have d3: "fd = i" "d3 = (now r2)\<lparr>bytes_of := (bytes_of (now r2))(i := []), synced := (synced (now r2))(i := False)\<rparr>"
    using assms(3) by (auto simp: sys_creat_def)
  show ?thesis
    using assms(4) i unfolding d3
    by (simp add: atomicRename_def sys_rename_def now_def to_def file_at_def sys_write_def syncFile_def)
qed

end
