(* ===== verification/Sha256.thy ===== *)
theory Sha256
  imports Prelude
begin

text \<open>
  The hash component: \<open>src/hash/sha256.cpp\<close>, \<open>src/hash/sha256.h\<close>, \<open>include/hash.h\<close> and
  \<open>include/hash_types.h\<close>.  The incremental context with its 64-byte buffer is modelled as the
  code has it (the buffer's stale bytes included: the constructor leaves it uninitialised, so its
  first contents are an argument), and related to a one-shot specification: pad, cut into
  blocks, compress.
\<close>

section \<open>Types (hash_types.h)\<close>

datatype HashError = kHashOk | kInvalidInput | kInternalFailure

record HashErrorInfo =
  hash_code :: HashError
  hash_message :: string
  hash_detail :: string

text \<open>A byte view: the bytes readable at the pointer (\<open>None\<close> for \<open>nullptr\<close>) and the size.\<close>

record ByteView =
  view_data :: "byte list option"
  view_size :: nat

section \<open>Word functions\<close>

definition rotr :: "u32 \<Rightarrow> nat \<Rightarrow> u32" where
  "rotr x n = drop_bit n x OR push_bit (32 - n) x"

definition ch :: "u32 \<Rightarrow> u32 \<Rightarrow> u32 \<Rightarrow> u32" where
  "ch x y z = (x AND y) XOR (NOT x AND z)"

definition maj :: "u32 \<Rightarrow> u32 \<Rightarrow> u32 \<Rightarrow> u32" where
  "maj x y z = (x AND y) XOR (x AND z) XOR (y AND z)"

definition bigSigma0 :: "u32 \<Rightarrow> u32" where
  "bigSigma0 x = rotr x 2 XOR rotr x 13 XOR rotr x 22"

definition bigSigma1 :: "u32 \<Rightarrow> u32" where
  "bigSigma1 x = rotr x 6 XOR rotr x 11 XOR rotr x 25"

definition smallSigma0 :: "u32 \<Rightarrow> u32" where
  "smallSigma0 x = rotr x 7 XOR rotr x 18 XOR drop_bit 3 x"

definition smallSigma1 :: "u32 \<Rightarrow> u32" where
  "smallSigma1 x = rotr x 17 XOR rotr x 19 XOR drop_bit 10 x"

definition loadBe32 :: "byte list \<Rightarrow> u32" where
  "loadBe32 p = push_bit 24 (ucast (p ! 0)) OR push_bit 16 (ucast (p ! 1))
     OR push_bit 8 (ucast (p ! 2)) OR ucast (p ! 3)"

definition storeBe32 :: "u32 \<Rightarrow> byte list" where
  "storeBe32 v = [ucast (drop_bit 24 v), ucast (drop_bit 16 v), ucast (drop_bit 8 v), ucast v]"

definition storeBe64 :: "u64 \<Rightarrow> byte list" where
  "storeBe64 v =
     [ucast (drop_bit 56 v), ucast (drop_bit 48 v), ucast (drop_bit 40 v), ucast (drop_bit 32 v),
      ucast (drop_bit 24 v), ucast (drop_bit 16 v), ucast (drop_bit 8 v), ucast v]"

definition kSha256K :: "u32 list" where
  "kSha256K = concat
     [[0x428a2f98, 0x71374491, 0xb5c0fbcf, 0xe9b5dba5],
      [0x3956c25b, 0x59f111f1, 0x923f82a4, 0xab1c5ed5],
      [0xd807aa98, 0x12835b01, 0x243185be, 0x550c7dc3],
      [0x72be5d74, 0x80deb1fe, 0x9bdc06a7, 0xc19bf174],
      [0xe49b69c1, 0xefbe4786, 0x0fc19dc6, 0x240ca1cc],
      [0x2de92c6f, 0x4a7484aa, 0x5cb0a9dc, 0x76f988da],
      [0x983e5152, 0xa831c66d, 0xb00327c8, 0xbf597fc7],
      [0xc6e00bf3, 0xd5a79147, 0x06ca6351, 0x14292967],
      [0x27b70a85, 0x2e1b2138, 0x4d2c6dfc, 0x53380d13],
      [0x650a7354, 0x766a0abb, 0x81c2c92e, 0x92722c85],
      [0xa2bfe8a1, 0xa81a664b, 0xc24b8b70, 0xc76c51a3],
      [0xd192e819, 0xd6990624, 0xf40e3585, 0x106aa070],
      [0x19a4c116, 0x1e376c08, 0x2748774c, 0x34b0bcb5],
      [0x391c0cb3, 0x4ed8aa4a, 0x5b9cca4f, 0x682e6ff3],
      [0x748f82ee, 0x78a5636f, 0x84c87814, 0x8cc70208],
      [0x90befffa, 0xa4506ceb, 0xbef9a3f7, 0xc67178f2]]"

definition kHexTable :: string where
  "kHexTable = ''0123456789abcdef''"

section \<open>The context (class Sha256Context)\<close>

record Sha256Context =
  m_state :: "u32 list"
  m_buffer :: "byte list"
  m_bitlen :: u64
  m_buffer_len :: nat

definition initial_state :: "u32 list" where
  "initial_state =
     [0x6a09e667, 0xbb67ae85, 0x3c6ef372, 0xa54ff53a, 0x510e527f, 0x9b05688c, 0x1f83d9ab, 0x5be0cd19]"

text \<open>The constructor; \<open>garbage\<close> is the uninitialised content of \<open>m_buffer\<close>.\<close>

definition Sha256Context_new :: "byte list \<Rightarrow> Sha256Context" where
  "Sha256Context_new garbage =
     \<lparr>m_state = initial_state, m_buffer = garbage, m_bitlen = 0, m_buffer_len = 0\<rparr>"

subsection \<open>processBlock\<close>

definition schedule :: "byte list \<Rightarrow> u32 list" where
  "schedule block =
     foldl (\<lambda>w t. w @ [smallSigma1 (w ! (t - 2)) + w ! (t - 7) + smallSigma0 (w ! (t - 15)) + w ! (t - 16)])
       (map (\<lambda>t. loadBe32 (drop (t * 4) block)) [0..<16]) [16..<64]"

text \<open>One round over the working variables \<open>a, b, c, d, e, f, g, h\<close>.\<close>

fun round_step :: "u32 \<times> u32 \<Rightarrow> u32 \<times> u32 \<times> u32 \<times> u32 \<times> u32 \<times> u32 \<times> u32 \<times> u32
    \<Rightarrow> u32 \<times> u32 \<times> u32 \<times> u32 \<times> u32 \<times> u32 \<times> u32 \<times> u32" where
  "round_step (k, w) (a, b, c, d, e, f, g, h) =
     (let t1 = h + bigSigma1 e + ch e f g + k + w;
          t2 = bigSigma0 a + maj a b c
      in (t1 + t2, a, b, c, d + t1, e, f, g))"

definition compress :: "u32 list \<Rightarrow> byte list \<Rightarrow> u32 list" where
  "compress st block =
     (let w = schedule block in
      case foldl (\<lambda>v t. round_step (kSha256K ! t, w ! t) v)
             (st ! 0, st ! 1, st ! 2, st ! 3, st ! 4, st ! 5, st ! 6, st ! 7) [0..<64] of
        (a, b, c, d, e, f, g, h) \<Rightarrow>
          [st ! 0 + a, st ! 1 + b, st ! 2 + c, st ! 3 + d,
           st ! 4 + e, st ! 5 + f, st ! 6 + g, st ! 7 + h])"

definition processBlock :: "Sha256Context \<Rightarrow> byte list \<Rightarrow> Sha256Context" where
  "processBlock ctx block = ctx\<lparr>m_state := compress (m_state ctx) block\<rparr>"

subsection \<open>update\<close>

text \<open>\<open>memcpy(buffer + off, src, length src)\<close>.\<close>

definition overwrite :: "byte list \<Rightarrow> nat \<Rightarrow> byte list \<Rightarrow> byte list" where
  "overwrite buf off src = take off buf @ src @ drop (off + length src) buf"

text \<open>The loop over whole blocks; the context and the bytes that are left.\<close>

function update_blocks :: "Sha256Context \<Rightarrow> byte list \<Rightarrow> Sha256Context \<times> byte list" where
  "update_blocks ctx data =
     (if length data \<ge> 64 then update_blocks (processBlock ctx (take 64 data)) (drop 64 data)
      else (ctx, data))"
  by pat_completeness auto
termination
  by (relation "measure (\<lambda>(c, d). length d)") auto

declare update_blocks.simps [simp del]

definition fill_buffer :: "Sha256Context \<Rightarrow> byte list \<Rightarrow> Sha256Context \<times> byte list" where
  "fill_buffer ctx data =
     (if m_buffer_len ctx > 0 then
        (let need = 64 - m_buffer_len ctx;
             take_n = (if length data < need then length data else need);
             ctx1 = ctx\<lparr>m_buffer := overwrite (m_buffer ctx) (m_buffer_len ctx) (take take_n data),
                        m_buffer_len := m_buffer_len ctx + take_n\<rparr>;
             data1 = drop take_n data
         in if m_buffer_len ctx1 = 64
            then ((processBlock ctx1 (m_buffer ctx1))\<lparr>m_buffer_len := 0\<rparr>, data1)
            else (ctx1, data1))
      else (ctx, data))"

definition update :: "Sha256Context \<Rightarrow> byte list \<Rightarrow> Sha256Context" where
  "update ctx data =
     (if length data = 0 then ctx
      else
        (let ctx0 = ctx\<lparr>m_bitlen := m_bitlen ctx + of_nat (length data) * 8\<rparr>;
             (ctx1, data1) = fill_buffer ctx0 data;
             (ctx2, data2) = update_blocks ctx1 data1
         in if length data2 > 0
            then ctx2\<lparr>m_buffer := overwrite (m_buffer ctx2) 0 data2, m_buffer_len := length data2\<rparr>
            else ctx2))"

subsection \<open>finalize\<close>

definition push_byte :: "Sha256Context \<Rightarrow> byte \<Rightarrow> Sha256Context" where
  "push_byte ctx b =
     ctx\<lparr>m_buffer := (m_buffer ctx)[m_buffer_len ctx := b], m_buffer_len := m_buffer_len ctx + 1\<rparr>"

text \<open>\<open>while (m_buffer_len < n) m_buffer[m_buffer_len++] = 0\<close>.\<close>

function zero_fill :: "Sha256Context \<Rightarrow> nat \<Rightarrow> Sha256Context" where
  "zero_fill ctx n = (if m_buffer_len ctx < n then zero_fill (push_byte ctx 0) n else ctx)"
  by pat_completeness auto
termination
  by (relation "measure (\<lambda>(c, n). n - m_buffer_len c)") (auto simp: push_byte_def)

declare zero_fill.simps [simp del]

definition finalize :: "Sha256Context \<Rightarrow> byte list" where
  "finalize ctx =
     (let ctx1 = push_byte ctx 0x80;
          ctx2 = (if m_buffer_len ctx1 > 56
                  then (let c = zero_fill ctx1 64 in (processBlock c (m_buffer c))\<lparr>m_buffer_len := 0\<rparr>)
                  else ctx1);
          ctx3 = zero_fill ctx2 56;
          ctx4 = ctx3\<lparr>m_buffer := overwrite (m_buffer ctx3) 56 (storeBe64 (m_bitlen ctx3))\<rparr>;
          ctx5 = processBlock ctx4 (m_buffer ctx4)
      in concat (map (\<lambda>i. storeBe32 (m_state ctx5 ! i)) [0..<8]))"

section \<open>Public functions\<close>

definition uint64_max :: nat where
  "uint64_max = 2 ^ 64 - 1"

text \<open>\<open>Inl\<close> is the exception thrown; \<open>garbage\<close> the stack contents under the context's buffer.\<close>

definition sha256 :: "byte list \<Rightarrow> ByteView \<Rightarrow> HashErrorInfo + byte list" where
  "sha256 garbage input =
     (if view_size input > 0 \<and> view_data input = None then
        Inl \<lparr>hash_code = kInvalidInput, hash_message = ''non-zero size with null data pointer'',
             hash_detail = ''size='' @ show_nat (view_size input)\<rparr>
      else if view_size input > uint64_max div 8 then
        Inl \<lparr>hash_code = kInvalidInput, hash_message = ''input length overflows 64-bit bit length'',
             hash_detail = ''size='' @ show_nat (view_size input)\<rparr>
      else
        (let bytes = (case view_data input of None \<Rightarrow> [] | Some d \<Rightarrow> take (view_size input) d);
             ctx = Sha256Context_new garbage
         in Inr (finalize (update ctx bytes))))"

definition hex_of_byte :: "byte \<Rightarrow> string" where
  "hex_of_byte b = [kHexTable ! unat (drop_bit 4 b AND 0x0f), kHexTable ! unat (b AND 0x0f)]"

definition sha256_hex :: "byte list \<Rightarrow> ByteView \<Rightarrow> HashErrorInfo + string" where
  "sha256_hex garbage input =
     (case sha256 garbage input of
        Inl e \<Rightarrow> Inl e
      | Inr digest \<Rightarrow> Inr (concat (map (\<lambda>i. hex_of_byte (digest ! i)) [0..<32])))"

text \<open>The \<open>std::string_view\<close> overload: every byte of the view, embedded NULs included.\<close>

definition view_of_string :: "byte list \<Rightarrow> ByteView" where
  "view_of_string s = \<lparr>view_data = Some s, view_size = length s\<rparr>"

section \<open>Specification: pad, cut into blocks, compress\<close>

function hash_blocks :: "u32 list \<Rightarrow> byte list \<Rightarrow> u32 list" where
  "hash_blocks st msg =
     (if length msg \<ge> 64 then hash_blocks (compress st (take 64 msg)) (drop 64 msg) else st)"
  by pat_completeness auto
termination
  by (relation "measure (\<lambda>(s, m). length m)") auto

declare hash_blocks.simps [simp del]

text \<open>FIPS 180-4 padding of a message of \<open>n\<close> bytes: a one bit, zeros up to 56 modulo 64 bytes, the
  bit length as a 64-bit big-endian number.\<close>

definition padding :: "nat \<Rightarrow> byte list" where
  "padding n = 0x80 # replicate ((119 - n mod 64) mod 64) 0 @ storeBe64 (of_nat (8 * n))"

definition sha256_spec :: "byte list \<Rightarrow> byte list" where
  "sha256_spec msg = concat (map storeBe32 (hash_blocks initial_state (msg @ padding (length msg))))"

lemma hash_blocks_short [simp]: "length msg < 64 \<Longrightarrow> hash_blocks st msg = st"
  by (simp add: hash_blocks.simps)

lemma hash_blocks_block:
  "length b = 64 \<Longrightarrow> hash_blocks st (b @ msg) = hash_blocks (compress st b) msg"
  by (subst hash_blocks.simps) simp

lemma hash_blocks_append:
  "length a mod 64 = 0 \<Longrightarrow> hash_blocks st (a @ b) = hash_blocks (hash_blocks st a) b"
proof (induction st a rule: hash_blocks.induct)
  case (1 st a)
  show ?case
  proof (cases "length a \<ge> 64")
    case True
    have "hash_blocks st (a @ b) = hash_blocks (compress st (take 64 a)) (drop 64 a @ b)"
      using True by (subst hash_blocks.simps) simp
    also have "\<dots> = hash_blocks (hash_blocks (compress st (take 64 a)) (drop 64 a)) b"
      using "1.IH" [OF True] "1.prems" True by (simp add: mod_if)
    also have "hash_blocks (compress st (take 64 a)) (drop 64 a) = hash_blocks st a"
      using True by (subst (2) hash_blocks.simps) simp
    finally show ?thesis .
  next
    case False
    with "1.prems" show ?thesis by simp
  qed
qed

text \<open>Only whole blocks count.\<close>

lemma hash_blocks_take:
  "hash_blocks st (take (64 * (length msg div 64)) msg) = hash_blocks st msg"
proof -
  let ?a = "take (64 * (length msg div 64)) msg" and ?b = "drop (64 * (length msg div 64)) msg"
  have "length ?a mod 64 = 0" by simp
  then have "hash_blocks st (?a @ ?b) = hash_blocks (hash_blocks st ?a) ?b"
    by (rule hash_blocks_append)
  moreover have "length ?b < 64"
    by (simp add: minus_mult_div_eq_mod)
  ultimately show ?thesis by simp
qed

lemma length_compress [simp]: "length (compress st b) = 8"
  by (simp add: compress_def Let_def split: prod.splits)

lemma length_hash_blocks: "length st = 8 \<Longrightarrow> length (hash_blocks st msg) = 8"
proof (induction st msg rule: hash_blocks.induct)
  case (1 st msg)
  show ?case
  proof (cases "length msg \<ge> 64")
    case True
    with 1 show ?thesis by (subst hash_blocks.simps) simp
  qed (use 1 in simp)
qed

section \<open>The context represents the message absorbed so far\<close>

definition represents :: "Sha256Context \<Rightarrow> byte list \<Rightarrow> bool" where
  "represents ctx msg \<longleftrightarrow>
     m_state ctx = hash_blocks initial_state msg
     \<and> m_bitlen ctx = of_nat (8 * length msg)
     \<and> m_buffer_len ctx = length msg mod 64
     \<and> length (m_buffer ctx) = 64
     \<and> take (m_buffer_len ctx) (m_buffer ctx) = drop (64 * (length msg div 64)) msg"

lemma represents_new: "length garbage = 64 \<Longrightarrow> represents (Sha256Context_new garbage) []"
  by (simp add: represents_def Sha256Context_new_def)

lemma length_overwrite [simp]:
  "off + length src \<le> length buf \<Longrightarrow> length (overwrite buf off src) = length buf"
  by (simp add: overwrite_def)

lemma take_overwrite [simp]:
  "off + length src \<le> length buf \<Longrightarrow> take (off + length src) (overwrite buf off src) = take off buf @ src"
  by (simp add: overwrite_def)

text \<open>
  The state between the steps of \<open>update\<close>: \<open>done\<close> has been compressed, \<open>held\<close> is in the buffer.
\<close>

definition absorbing :: "Sha256Context \<Rightarrow> byte list \<Rightarrow> byte list \<Rightarrow> u64 \<Rightarrow> bool" where
  "absorbing ctx chain held bits \<longleftrightarrow>
     length chain mod 64 = 0
     \<and> m_state ctx = hash_blocks initial_state chain
     \<and> m_bitlen ctx = bits
     \<and> length held < 64
     \<and> m_buffer_len ctx = length held
     \<and> length (m_buffer ctx) = 64
     \<and> take (length held) (m_buffer ctx) = held"

lemma represents_absorbing:
  "represents ctx msg \<longleftrightarrow>
     absorbing ctx (take (64 * (length msg div 64)) msg) (drop (64 * (length msg div 64)) msg)
       (of_nat (8 * length msg))"
proof -
  have "length (drop (64 * (length msg div 64)) msg) = length msg mod 64"
    by (simp add: minus_mult_div_eq_mod)
  then show ?thesis
    by (auto simp: represents_def absorbing_def hash_blocks_take)
qed

lemma absorbing_represents:
  assumes "absorbing ctx chain held (of_nat (8 * length (chain @ held)))"
  shows "represents ctx (chain @ held)"
proof -
  from assms have c: "length chain mod 64 = 0" and h: "length held < 64"
    by (auto simp: absorbing_def)
  then obtain k where k: "length chain = 64 * k" by (auto simp: mod_eq_0_iff_dvd elim: dvdE)
  then have "length (chain @ held) div 64 = k" "length (chain @ held) mod 64 = length held"
    using h by (simp_all add: div_mult_self4)
  with k assms h show ?thesis
    by (simp add: represents_def absorbing_def hash_blocks_append [OF c])
qed

lemma absorbing_block:
  assumes "absorbing ctx chain [] bits" and "length b = 64"
  shows "absorbing (processBlock ctx b) (chain @ b) [] bits"
  using assms hash_blocks_append [of chain initial_state b] hash_blocks_block [of b _ "[]"]
  by (auto simp: absorbing_def processBlock_def mod_add_left_eq)

lemma update_blocks_absorbing:
  assumes "absorbing ctx chain [] bits"
  shows "\<exists>whole. case update_blocks ctx data of (ctx', rest) \<Rightarrow>
           data = whole @ rest \<and> length rest < 64 \<and> absorbing ctx' (chain @ whole) [] bits"
  using assms
proof (induction ctx data arbitrary: chain rule: update_blocks.induct)
  case (1 ctx data)
  show ?case
  proof (cases "length data \<ge> 64")
    case True
    then have "absorbing (processBlock ctx (take 64 data)) (chain @ take 64 data) [] bits"
      using "1.prems" by (intro absorbing_block) auto
    from "1.IH" [OF True this] obtain whole where
      "case update_blocks (processBlock ctx (take 64 data)) (drop 64 data) of (ctx', rest) \<Rightarrow>
         drop 64 data = whole @ rest \<and> length rest < 64
         \<and> absorbing ctx' ((chain @ take 64 data) @ whole) [] bits"
      by (elim exE)
    then show ?thesis
      using True by (intro exI [of _ "take 64 data @ whole"], subst update_blocks.simps)
        (auto split: prod.splits, metis append_take_drop_id)
  next
    case False
    then show ?thesis
      using "1.prems" by (intro exI [of _ "[]"], subst update_blocks.simps) auto
  qed
qed

lemma fill_buffer_absorbing:
  assumes "absorbing ctx chain held bits"
  shows "case fill_buffer ctx data of (ctx', rest) \<Rightarrow>
           if length held + length data < 64 \<and> held \<noteq> []
           then rest = [] \<and> absorbing ctx' chain (held @ data) bits
           else \<exists>pre. data = pre @ rest \<and> absorbing ctx' (chain @ held @ pre) [] bits"
proof (cases "held = []")
  case True
  with assms show ?thesis by (auto simp: fill_buffer_def absorbing_def)
next
  case False
  from assms have a: "m_buffer_len ctx = length held" "length (m_buffer ctx) = 64"
    "take (length held) (m_buffer ctx) = held" "length held < 64" "length chain mod 64 = 0"
    by (auto simp: absorbing_def)
  show ?thesis
  proof (cases "length held + length data < 64")
    case True
    with a False assms show ?thesis
      by (auto simp: fill_buffer_def absorbing_def Let_def overwrite_def)
  next
    case less: False
    define pre where "pre = take (64 - length held) data"
    have pre: "length pre = 64 - length held" "data = pre @ drop (64 - length held) data"
      using less by (simp_all add: pre_def)
    then have len: "length held + length pre = 64" using a(4) by simp
    have buf: "overwrite (m_buffer ctx) (length held) pre = held @ pre"
      using a len by (simp add: overwrite_def)
    have take_n: "(if length data < 64 - length held then length data else 64 - length held)
        = 64 - length held" using less by auto
    let ?ctx' = "ctx\<lparr>m_buffer := held @ pre, m_state := compress (m_state ctx) (held @ pre),
        m_buffer_len := 0\<rparr>"
    have fill: "fill_buffer ctx data = (?ctx', drop (64 - length held) data)"
      unfolding fill_buffer_def Let_def a(1) take_n pre_def [symmetric] buf
      using False len a(4) by (simp add: processBlock_def)
    have "absorbing ?ctx' (chain @ held @ pre) [] bits"
      using assms len hash_blocks_append [OF a(5), of initial_state "held @ pre"]
        hash_blocks_block [of "held @ pre" _ "[]"] a(5)
      by (auto simp: absorbing_def mod_add_left_eq)
    with fill pre(2) less show ?thesis by auto
  qed
qed

lemma update_represents:
  assumes "represents ctx msg"
  shows "represents (update ctx data) (msg @ data)"
proof (cases "data = []")
  case True
  with assms show ?thesis by (simp add: update_def)
next
  case False
  let ?bits = "of_nat (8 * length (msg @ data)) :: u64"
  let ?ctx0 = "ctx\<lparr>m_bitlen := m_bitlen ctx + of_nat (length data) * 8\<rparr>"
  obtain chain held where msg: "msg = chain @ held" and ab: "absorbing ctx chain held (of_nat (8 * length msg))"
    using assms represents_absorbing append_take_drop_id by metis
  then have ab0: "absorbing ?ctx0 chain held ?bits"
    by (simp add: absorbing_def algebra_simps)
  obtain ctx1 data1 where f: "fill_buffer ?ctx0 data = (ctx1, data1)" by (cases "fill_buffer ?ctx0 data")
  obtain ctx2 data2 where u: "update_blocks ctx1 data1 = (ctx2, data2)" by (cases "update_blocks ctx1 data1")
  have upd: "update ctx data = (if length data2 > 0
      then ctx2\<lparr>m_buffer := overwrite (m_buffer ctx2) 0 data2, m_buffer_len := length data2\<rparr> else ctx2)"
    using False f u by (simp add: update_def Let_def)
  show ?thesis
  proof (cases "length held + length data < 64 \<and> held \<noteq> []")
    case True
    with fill_buffer_absorbing [OF ab0, of data] f
    have "data1 = []" and ab1: "absorbing ctx1 chain (held @ data) ?bits" by auto
    then have "update ctx data = ctx1" using u upd by (simp add: update_blocks.simps)
    then show ?thesis using absorbing_represents [of ctx1 chain "held @ data"] ab1 msg by simp
  next
    case False
    with fill_buffer_absorbing [OF ab0, of data] f
    obtain pre where pre: "data = pre @ data1" and ab1: "absorbing ctx1 (chain @ held @ pre) [] ?bits"
      by auto
    obtain whole where whole: "data1 = whole @ data2" "length data2 < 64"
      and ab2: "absorbing ctx2 ((chain @ held @ pre) @ whole) [] ?bits"
      using update_blocks_absorbing [OF ab1, of data1] u by auto
    then have "absorbing (update ctx data) ((chain @ held @ pre) @ whole) data2 ?bits"
      by (auto simp: upd absorbing_def overwrite_def)
    then have "represents (update ctx data) (((chain @ held @ pre) @ whole) @ data2)"
      using msg pre whole(1) by (intro absorbing_represents) simp
    then show ?thesis using msg pre whole(1) by simp
  qed
qed

section \<open>Finalisation\<close>

text \<open>The context during padding: \<open>xs\<close> is in the buffer, the chaining value is \<open>st\<close>.\<close>

definition holds :: "Sha256Context \<Rightarrow> u32 list \<Rightarrow> byte list \<Rightarrow> u64 \<Rightarrow> bool" where
  "holds ctx st xs bits \<longleftrightarrow>
     m_state ctx = st \<and> m_bitlen ctx = bits \<and> m_buffer_len ctx = length xs
     \<and> length (m_buffer ctx) = 64 \<and> take (length xs) (m_buffer ctx) = xs"

lemma holds_push:
  "holds ctx st xs bits \<Longrightarrow> length xs < 64 \<Longrightarrow> holds (push_byte ctx b) st (xs @ [b]) bits"
  by (auto simp: holds_def push_byte_def take_Suc_conv_app_nth)

lemma holds_zero_fill:
  "holds ctx st xs bits \<Longrightarrow> length xs \<le> n \<Longrightarrow> n \<le> 64
   \<Longrightarrow> holds (zero_fill ctx n) st (xs @ replicate (n - length xs) 0) bits"
proof (induction ctx n arbitrary: xs rule: zero_fill.induct)
  case (1 ctx n)
  then have len: "m_buffer_len ctx = length xs" by (simp add: holds_def)
  show ?case
  proof (cases "length xs < n")
    case True
    have "holds (push_byte ctx 0) st (xs @ [0]) bits"
      using 1 True by (intro holds_push) auto
    then have "holds (zero_fill (push_byte ctx 0) n) st ((xs @ [0]) @ replicate (n - length (xs @ [0])) 0) bits"
      using 1 True len by (intro "1.IH") auto
    moreover have "(xs @ [0]) @ replicate (n - length (xs @ [0])) 0 = xs @ replicate (n - length xs) (0 :: byte)"
      using True by (simp add: replicate_Suc [symmetric] Suc_diff_Suc del: replicate_Suc)
    ultimately show ?thesis
      using True len by (subst zero_fill.simps) simp
  next
    case False
    with 1 len show ?thesis by (subst zero_fill.simps) simp
  qed
qed

lemma holds_block:
  "holds ctx st xs bits \<Longrightarrow> length xs = 64
   \<Longrightarrow> holds ((processBlock ctx (m_buffer ctx))\<lparr>m_buffer_len := 0\<rparr>) (compress st xs) [] bits"
  by (auto simp: holds_def processBlock_def)

lemma length_storeBe64 [simp]: "length (storeBe64 v) = 8"
  by (simp add: storeBe64_def)

lemma length_storeBe32 [simp]: "length (storeBe32 v) = 4"
  by (simp add: storeBe32_def)

lemma concat_nth_list: "length xs = n \<Longrightarrow> map (\<lambda>i. f (xs ! i)) [0..<n] = map f xs"
  by (auto intro: nth_equalityI)

text \<open>The last block: 56 bytes are in the buffer, the length fills the rest.\<close>

lemma holds_last:
  assumes "holds ctx st xs bits" and "length xs = 56"
  shows "(let ctx4 = ctx\<lparr>m_buffer := overwrite (m_buffer ctx) 56 (storeBe64 (m_bitlen ctx))\<rparr>;
              ctx5 = processBlock ctx4 (m_buffer ctx4)
          in concat (map (\<lambda>i. storeBe32 (m_state ctx5 ! i)) [0..<8]))
         = concat (map storeBe32 (compress st (xs @ storeBe64 bits)))"
proof -
  have "overwrite (m_buffer ctx) 56 (storeBe64 (m_bitlen ctx)) = xs @ storeBe64 bits"
    using assms by (auto simp: holds_def overwrite_def)
  with assms concat_nth_list [of "compress st (xs @ storeBe64 bits)" 8 storeBe32] show ?thesis
    by (simp add: holds_def processBlock_def Let_def)
qed

lemma finalize_spec:
  assumes rep: "represents ctx msg"
  shows "finalize ctx = sha256_spec msg"
proof -
  define chain where "chain = take (64 * (length msg div 64)) msg"
  define held where "held = drop (64 * (length msg div 64)) msg"
  define st where "st = hash_blocks initial_state chain"
  define bits where "bits = (of_nat (8 * length msg) :: u64)"
  have msg: "msg = chain @ held" by (simp add: chain_def held_def)
  have ch: "length chain mod 64 = 0" by (simp add: chain_def)
  have r: "length held = length msg mod 64" by (simp add: held_def minus_mult_div_eq_mod)
  then have r64: "length held < 64" by simp
  have "holds ctx st held bits"
    using rep represents_absorbing [of ctx msg]
    by (simp add: absorbing_def holds_def chain_def held_def st_def bits_def)
  with r64 have h1: "holds (push_byte ctx 0x80) st (held @ [0x80]) bits" by (intro holds_push)
  have spec: "sha256_spec msg = concat (map storeBe32 (hash_blocks st (held @ padding (length msg))))"
    using hash_blocks_append [OF ch] by (simp add: sha256_spec_def msg st_def)
  have pad: "padding (length msg)
      = 0x80 # replicate ((119 - length held) mod 64) 0 @ storeBe64 bits"
    by (simp add: padding_def r bits_def)
  show ?thesis
  proof (cases "length held + 1 > 56")
    case True
    define blk where "blk = (held @ [0x80]) @ replicate (64 - length (held @ [0x80 :: byte])) 0"
    let ?c = "zero_fill (push_byte ctx 0x80) 64"
    let ?c2 = "(processBlock ?c (m_buffer ?c))\<lparr>m_buffer_len := 0\<rparr>"
    have lb: "length blk = 64" using r64 by (simp add: blk_def)
    have "holds ?c st blk bits"
      unfolding blk_def by (rule holds_zero_fill [OF h1]) (use r64 in auto)
    then have "holds ?c2 (compress st blk) [] bits" using lb by (rule holds_block)
    from holds_zero_fill [OF this, of 56]
    have "holds (zero_fill ?c2 56) (compress st blk) (replicate 56 0) bits" by simp
    from holds_last [OF this] True h1
    have "finalize ctx = concat (map storeBe32 (compress (compress st blk) (replicate 56 0 @ storeBe64 bits)))"
      by (simp add: finalize_def Let_def holds_def)
    moreover have "(119 - length held) mod 64 = (63 - length held) + 56"
      using True r64 by (simp add: mod_less)
    then have "held @ padding (length msg) = blk @ replicate 56 0 @ storeBe64 bits"
      unfolding pad using replicate_add [of "63 - length held" 56 "0 :: byte"] True r64
      by (simp add: blk_def)
    ultimately show ?thesis
      using hash_blocks_block [OF lb] hash_blocks_block [of "replicate 56 0 @ storeBe64 bits" _ "[]"]
      by (simp add: spec)
  next
    case False
    let ?blk = "(held @ [0x80]) @ replicate (56 - length (held @ [0x80 :: byte])) 0"
    have "holds (zero_fill (push_byte ctx 0x80) 56) st ?blk bits"
      by (rule holds_zero_fill [OF h1]) (use False in auto)
    from holds_last [OF this] False h1
    have "finalize ctx = concat (map storeBe32 (compress st (?blk @ storeBe64 bits)))"
      by (simp add: finalize_def Let_def holds_def)
    moreover have "(119 - length held) mod 64 = 55 - length held"
      using False by (simp add: mod_if [of "119 - length held"])
    then have "held @ padding (length msg) = ?blk @ storeBe64 bits"
      unfolding pad by simp
    ultimately show ?thesis
      using hash_blocks_block [of "?blk @ storeBe64 bits" st "[]"] False
      by (simp add: spec)
  qed
qed

text \<open>Any number of updates in any chunking.\<close>

lemma represents_foldl:
  "represents ctx msg \<Longrightarrow> represents (foldl update ctx chunks) (msg @ concat chunks)"
proof (induction chunks arbitrary: ctx msg)
  case (Cons d ds)
  have "represents (update ctx d) (msg @ d)" using Cons.prems by (rule update_represents)
  from Cons.IH [OF this] show ?case by simp
qed simp

lemma nibble_low: "unat (b AND 0x0f :: byte) = unat b mod 16"
proof -
  have "b AND 0x0f = take_bit 4 b"
    by (simp add: take_bit_eq_mask mask_eq_exp_minus_1)
  then show ?thesis by (simp add: take_bit_eq_mod unat_mod_distrib)
qed

lemma nibble_high: "unat (drop_bit 4 b AND 0x0f :: byte) = unat b div 16"
proof -
  have "unat b < 256" using unsigned_less [of b, where ?'a = nat] by simp
  then show ?thesis by (simp add: nibble_low drop_bit_eq_div unat_div_distrib)
qed

lemma hex_of_byte_chars: "set (hex_of_byte b) \<subseteq> set kHexTable"
proof -
  have "unat b < 256" using unsigned_less [of b, where ?'a = nat] by simp
  then have "unat b div 16 < 16" "unat b mod 16 < 16" by auto
  moreover have "length kHexTable = 16" by (simp add: kHexTable_def)
  ultimately show ?thesis
    by (auto simp: hex_of_byte_def nibble_low nibble_high)
qed

lemma sha256_spec_length: "length (sha256_spec msg) = 32"
proof -
  have "length (hash_blocks initial_state (msg @ padding (length msg))) = 8"
    by (rule length_hash_blocks) (simp add: initial_state_def)
  then show ?thesis by (simp add: sha256_spec_def length_concat o_def sum_list_triv)
qed

lemma sha256_length: "sha256 garbage input = Inr digest \<Longrightarrow> length digest = 32"
  by (auto simp: sha256_def Let_def finalize_def length_concat o_def sum_list_triv split: if_splits)

lemma length_hex_of_byte [simp]: "length (hex_of_byte b) = 2"
  by (simp add: hex_of_byte_def)

lemma sha256_hex_of_digest:
  "sha256 garbage input = Inr digest
   \<Longrightarrow> sha256_hex garbage input = Inr (concat (map hex_of_byte digest))"
  using concat_nth_list [OF sha256_length, of garbage input digest hex_of_byte]
  by (simp add: sha256_hex_def)

section \<open>Properties\<close>



text \<open>Feeding a message to the context in any chunks gives the digest of the whole message: the
  buffering of \<open>update\<close> and the padding of \<open>finalize\<close> do not depend on the chunk boundaries.\<close>

theorem sha256_incremental:
  assumes "length garbage = 64"
  shows "finalize (foldl update (Sha256Context_new garbage) chunks) = sha256_spec (concat chunks)"
  using finalize_spec [OF represents_foldl [OF represents_new [OF assms]]] by simp

theorem sha256_incremental_witness:
  "finalize (foldl update (Sha256Context_new (replicate 64 7)) [[1, 2], [], [3]]) = sha256_spec [1, 2, 3]"
  using sha256_incremental [of "replicate 64 7" "[[1, 2], [], [3]]"] by simp

text \<open>\<open>sha256_hex\<close> either reports FW-0401 exactly when the view has a size but no data or its bit
  length does not fit in 64 bits, or returns 64 lower-case hex digits.\<close>

theorem sha256_hex_total:
  "case sha256_hex garbage input of
     Inl e \<Rightarrow> hash_code e = kInvalidInput
       \<and> (view_size input > 0 \<and> view_data input = None \<or> 8 * view_size input > 2 ^ 64 - 1)
   | Inr s \<Rightarrow> length s = 64 \<and> set s \<subseteq> set ''0123456789abcdef''"
proof (cases "sha256 garbage input")
  case (Inl e)
  then show ?thesis
    by (auto simp: sha256_hex_def sha256_def uint64_max_def Let_def split: if_splits)
next
  case (Inr digest)
  have "length (concat (map hex_of_byte digest)) = 64"
    using sha256_length [OF Inr] by (simp add: length_concat o_def sum_list_triv)
  moreover have "set (concat (map hex_of_byte digest)) \<subseteq> set kHexTable"
    using hex_of_byte_chars by auto
  ultimately show ?thesis
    by (simp add: sha256_hex_of_digest [OF Inr] kHexTable_def)
qed

end
