(* ===== verification/Ipc_Protocol.thy ===== *)
theory Ipc_Protocol
  imports Prelude
begin

text \<open>
  The IPC wire protocol: \<open>include/ipc_types.h\<close> and \<open>src/ipc/ipc_protocol.cpp\<close>
  (class \<open>Protocol\<close>).  Packed headers in native byte order, the frame encoders, the two
  low-level socket loops, and the frame readers and writers on top of them.

  A socket is what the kernel will answer.  The receiving side is a list of events: a segment of
  bytes that has arrived, an interrupted call, end of file, a failed call; when the list is
  exhausted nothing more arrives and \<open>recv\<close> fails by its timeout.  The sending side is a list of
  answers of \<open>send\<close>: so many bytes taken, an interrupted call, a failed call.
\<close>

section \<open>Types (ipc_types.h)\<close>

datatype IpcError =
    kIpcOk | kSocketFailed | kBindListenFailed | kFrameInvalid | kTransportFailed
  | kIpcSerializationFailed | kHandlerFailed | kSubscriptionFailed

fun ipc_error_value :: "IpcError \<Rightarrow> i32" where
  "ipc_error_value kIpcOk = 0"
| "ipc_error_value kSocketFailed = 301"
| "ipc_error_value kBindListenFailed = 302"
| "ipc_error_value kFrameInvalid = 303"
| "ipc_error_value kTransportFailed = 304"
| "ipc_error_value kIpcSerializationFailed = 305"
| "ipc_error_value kHandlerFailed = 306"
| "ipc_error_value kSubscriptionFailed = 307"

record RequestHeader =
  method_id :: u32
  params_length :: u32

record ResponseHeader =
  status_code :: i32
  data_length :: u32

record EventHeader =
  event_type :: u32
  payload_length :: u32

section \<open>Packed headers in native byte order\<close>

datatype byte_order = LittleEndian | BigEndian

definition le_bytes :: "u32 \<Rightarrow> byte list" where
  "le_bytes w = [ucast w, ucast (drop_bit 8 w), ucast (drop_bit 16 w), ucast (drop_bit 24 w)]"

fun le_word :: "byte list \<Rightarrow> u32" where
  "le_word [a, b, c, d] =
     ucast a OR push_bit 8 (ucast b) OR push_bit 16 (ucast c) OR push_bit 24 (ucast d)"
| "le_word _ = 0"

fun native_bytes :: "byte_order \<Rightarrow> u32 \<Rightarrow> byte list" where
  "native_bytes LittleEndian w = le_bytes w"
| "native_bytes BigEndian w = rev (le_bytes w)"

fun native_word :: "byte_order \<Rightarrow> byte list \<Rightarrow> u32" where
  "native_word LittleEndian bs = le_word bs"
| "native_word BigEndian bs = le_word (rev bs)"

definition request_header_bytes :: "byte_order \<Rightarrow> RequestHeader \<Rightarrow> byte list" where
  "request_header_bytes e h = native_bytes e (method_id h) @ native_bytes e (params_length h)"

definition request_header_of :: "byte_order \<Rightarrow> byte list \<Rightarrow> RequestHeader" where
  "request_header_of e bs =
     \<lparr>method_id = native_word e (take 4 bs), params_length = native_word e (drop 4 bs)\<rparr>"

definition response_header_bytes :: "byte_order \<Rightarrow> ResponseHeader \<Rightarrow> byte list" where
  "response_header_bytes e h = native_bytes e (status_code h) @ native_bytes e (data_length h)"

definition response_header_of :: "byte_order \<Rightarrow> byte list \<Rightarrow> ResponseHeader" where
  "response_header_of e bs =
     \<lparr>status_code = native_word e (take 4 bs), data_length = native_word e (drop 4 bs)\<rparr>"

definition event_header_bytes :: "byte_order \<Rightarrow> EventHeader \<Rightarrow> byte list" where
  "event_header_bytes e h = native_bytes e (event_type h) @ native_bytes e (payload_length h)"

definition event_header_of :: "byte_order \<Rightarrow> byte list \<Rightarrow> EventHeader" where
  "event_header_of e bs =
     \<lparr>event_type = native_word e (take 4 bs), payload_length = native_word e (drop 4 bs)\<rparr>"

definition header_size :: nat where
  "header_size = 8"

section \<open>Encode\<close>

text \<open>\<open>static_cast<uint32_t>(size())\<close> keeps the low 32 bits of the length.\<close>

definition encodeRequest :: "byte_order \<Rightarrow> u32 \<Rightarrow> byte list \<Rightarrow> byte list" where
  "encodeRequest e mid params_json =
     (let header = \<lparr>method_id = mid, params_length = of_nat (length params_json)\<rparr>
      in request_header_bytes e header @ params_json)"

definition encodeResponse :: "byte_order \<Rightarrow> i32 \<Rightarrow> byte list \<Rightarrow> byte list" where
  "encodeResponse e code response_json =
     (let header = \<lparr>status_code = code, data_length = of_nat (length response_json)\<rparr>
      in response_header_bytes e header @ response_json)"

definition encodeEvent :: "byte_order \<Rightarrow> u32 \<Rightarrow> byte list \<Rightarrow> byte list" where
  "encodeEvent e etype payload_json =
     (let header = \<lparr>event_type = etype, payload_length = of_nat (length payload_json)\<rparr>
      in event_header_bytes e header @ payload_json)"

section \<open>Low-level socket I/O\<close>

datatype recv_event = Segment "byte list" | RecvIntr | RecvEof | RecvFail

type_synonym rsock = "recv_event list"

datatype recv_result = Received "byte list" | Interrupted | EndOfFile | Failed

text \<open>One \<open>recv(fd, ptr, n, 0)\<close> with \<open>0 < n\<close>.  End of file stays at the front of the list.\<close>

fun recv :: "rsock \<Rightarrow> nat \<Rightarrow> recv_result \<times> rsock" where
  "recv [] n = (Failed, [])"
| "recv (Segment [] # s) n = recv s n"
| "recv (Segment (b # bs) # s) n =
     (Received (take n (b # bs)),
      if n < length (b # bs) then Segment (drop n (b # bs)) # s else s)"
| "recv (RecvIntr # s) n = (Interrupted, s)"
| "recv (RecvEof # s) n = (EndOfFile, RecvEof # s)"
| "recv (RecvFail # s) n = (Failed, s)"

lemma recv_Interrupted: "recv s n = (Interrupted, s') \<Longrightarrow> length s' < length s"
  by (induction s n rule: recv.induct) auto

lemma recv_Received:
  "recv s n = (Received bs, s') \<Longrightarrow> 0 < n \<Longrightarrow> bs \<noteq> [] \<and> length bs \<le> n"
  by (induction s n rule: recv.induct) auto

text \<open>
  \<open>readExact\<close>: the flag the code returns, the bytes stored in the buffer so far, and the socket.
\<close>

function readExact :: "rsock \<Rightarrow> nat \<Rightarrow> bool \<times> byte list \<times> rsock" where
  "readExact s remaining =
     (if remaining = 0 then (True, [], s)
      else case recv s remaining of
        (Received bs, s') \<Rightarrow>
          (case readExact s' (remaining - length bs) of
             (ok, rest, s'') \<Rightarrow> (ok, bs @ rest, s''))
      | (EndOfFile, s') \<Rightarrow> (False, [], s')
      | (Interrupted, s') \<Rightarrow> readExact s' remaining
      | (Failed, s') \<Rightarrow> (False, [], s'))"
  by pat_completeness auto
termination
proof (relation "measures [\<lambda>(s, n). n, \<lambda>(s, n). length s]", goal_cases)
  case 1
  then show ?case by simp
next
  case (2 s n x s' bs)
  then show ?case using recv_Received [of s n bs s'] by (cases bs) auto
next
  case (3 s n x s')
  then show ?case using recv_Interrupted [of s n s'] by auto
qed

declare readExact.simps [simp del]

datatype send_event = Taken nat | SendIntr | SendFail

type_synonym wsock = "send_event list"

datatype send_result = Sent nat | SendInterrupted | SendFailed

text \<open>One \<open>send(fd, ptr, n, 0)\<close>: the kernel takes at most the \<open>n\<close> bytes it is given.\<close>

fun send :: "wsock \<Rightarrow> nat \<Rightarrow> send_result \<times> wsock" where
  "send [] n = (SendFailed, [])"
| "send (Taken k # s) n = (Sent (min k n), s)"
| "send (SendIntr # s) n = (SendInterrupted, s)"
| "send (SendFail # s) n = (SendFailed, s)"

lemma send_consumes:
  "send s n = (Sent k, s') \<Longrightarrow> length s' < length s"
  "send s n = (SendInterrupted, s') \<Longrightarrow> length s' < length s"
  by (cases "(s, n)" rule: send.cases; simp)+

text \<open>\<open>writeAll\<close>: the flag the code returns, the bytes that went out, and the socket.\<close>

function writeAll :: "wsock \<Rightarrow> byte list \<Rightarrow> bool \<times> byte list \<times> wsock" where
  "writeAll s data =
     (if data = [] then (True, [], s)
      else case send s (length data) of
        (Sent n, s') \<Rightarrow>
          (if n > 0 then
             (case writeAll s' (drop n data) of (ok, out, s'') \<Rightarrow> (ok, take n data @ out, s''))
           else (False, [], s'))
      | (SendInterrupted, s') \<Rightarrow> writeAll s' data
      | (SendFailed, s') \<Rightarrow> (False, [], s'))"
  by pat_completeness auto
termination
  by (relation "measure (\<lambda>(s, d). length s)") (auto dest: send_consumes [OF sym])

declare writeAll.simps [simp del]

section \<open>Validation\<close>

definition validateLength :: "u32 \<Rightarrow> u32 \<Rightarrow> bool" where
  "validateLength len maxlen \<longleftrightarrow> len \<le> maxlen"

section \<open>Read a complete frame\<close>

text \<open>
  \<open>None\<close> is the return value \<open>false\<close>; the output parameters, which no caller reads after
  \<open>false\<close>, are the value of \<open>Some\<close>.
\<close>

definition readRequest :: "byte_order \<Rightarrow> rsock \<Rightarrow> u32 \<Rightarrow> (u32 \<times> byte list) option \<times> rsock" where
  "readRequest e s max_frame_bytes =
     (case readExact s header_size of
        (False, _, s1) \<Rightarrow> (None, s1)
      | (True, hb, s1) \<Rightarrow>
          (let header = request_header_of e hb in
           if \<not> validateLength (params_length header) max_frame_bytes then (None, s1)
           else if params_length header > 0 then
             (case readExact s1 (unat (params_length header)) of
                (False, _, s2) \<Rightarrow> (None, s2)
              | (True, params_json, s2) \<Rightarrow> (Some (method_id header, params_json), s2))
           else (Some (method_id header, []), s1)))"

definition readResponse :: "byte_order \<Rightarrow> rsock \<Rightarrow> u32 \<Rightarrow> (i32 \<times> byte list) option \<times> rsock" where
  "readResponse e s max_frame_bytes =
     (case readExact s header_size of
        (False, _, s1) \<Rightarrow> (None, s1)
      | (True, hb, s1) \<Rightarrow>
          (let header = response_header_of e hb in
           if \<not> validateLength (data_length header) max_frame_bytes then (None, s1)
           else if data_length header > 0 then
             (case readExact s1 (unat (data_length header)) of
                (False, _, s2) \<Rightarrow> (None, s2)
              | (True, response_json, s2) \<Rightarrow> (Some (status_code header, response_json), s2))
           else (Some (status_code header, []), s1)))"

definition readEvent :: "byte_order \<Rightarrow> rsock \<Rightarrow> u32 \<Rightarrow> (u32 \<times> byte list) option \<times> rsock" where
  "readEvent e s max_frame_bytes =
     (case readExact s header_size of
        (False, _, s1) \<Rightarrow> (None, s1)
      | (True, hb, s1) \<Rightarrow>
          (let header = event_header_of e hb in
           if \<not> validateLength (payload_length header) max_frame_bytes then (None, s1)
           else if payload_length header > 0 then
             (case readExact s1 (unat (payload_length header)) of
                (False, _, s2) \<Rightarrow> (None, s2)
              | (True, payload_json, s2) \<Rightarrow> (Some (event_type header, payload_json), s2))
           else (Some (event_type header, []), s1)))"

section \<open>Write a complete frame\<close>

definition writeRequest :: "byte_order \<Rightarrow> wsock \<Rightarrow> u32 \<Rightarrow> byte list \<Rightarrow> bool \<times> byte list \<times> wsock" where
  "writeRequest e s mid params_json = writeAll s (encodeRequest e mid params_json)"

definition writeResponse :: "byte_order \<Rightarrow> wsock \<Rightarrow> i32 \<Rightarrow> byte list \<Rightarrow> bool \<times> byte list \<times> wsock" where
  "writeResponse e s code response_json = writeAll s (encodeResponse e code response_json)"

definition writeEvent :: "byte_order \<Rightarrow> wsock \<Rightarrow> u32 \<Rightarrow> byte list \<Rightarrow> bool \<times> byte list \<times> wsock" where
  "writeEvent e s etype payload_json = writeAll s (encodeEvent e etype payload_json)"

section \<open>The header codec\<close>

lemma length_le_bytes [codec_simps]: "length (le_bytes w) = 4"
  by (simp add: le_bytes_def)

lemma length_native_bytes [codec_simps]: "length (native_bytes e w) = 4"
  by (cases e) (simp_all add: codec_simps)

lemma le_word_le_bytes [codec_simps]: "le_word (le_bytes w) = w"
proof -
  have "ucast (ucast w :: byte) OR push_bit 8 (ucast (ucast (drop_bit 8 w) :: byte))
      OR push_bit 16 (ucast (ucast (drop_bit 16 w) :: byte))
      OR push_bit 24 (ucast (ucast (drop_bit 24 w) :: byte)) = w" (is "?lhs = w")
  proof (rule bit_word_eqI)
    fix n
    show "bit ?lhs n = bit w n" if "n < LENGTH(32)"
      using that
      by (cases "n < 8"; cases "n < 16"; cases "n < 24"; (simp add: bit_simps)?; linarith)
  qed
  then show ?thesis by (simp add: le_bytes_def)
qed

lemma native_word_native_bytes [codec_simps]: "native_word e (native_bytes e w) = w"
  by (cases e) (simp_all add: codec_simps)

lemma header_bytes_length [codec_simps]:
  "length (request_header_bytes e h1) = 8"
  "length (response_header_bytes e h2) = 8"
  "length (event_header_bytes e h3) = 8"
  by (simp_all add: request_header_bytes_def response_header_bytes_def event_header_bytes_def
      codec_simps)

lemma header_roundtrip [codec_simps]:
  "request_header_of e (request_header_bytes e h1) = h1"
  "response_header_of e (response_header_bytes e h2) = h2"
  "event_header_of e (event_header_bytes e h3) = h3"
  by (simp_all add: request_header_of_def request_header_bytes_def response_header_of_def
      response_header_bytes_def event_header_of_def event_header_bytes_def codec_simps)

section \<open>The receive loop\<close>

text \<open>The bytes a socket will still deliver before it ends or fails.\<close>

fun pending :: "rsock \<Rightarrow> byte list" where
  "pending [] = []"
| "pending (Segment bs # s) = bs @ pending s"
| "pending (RecvIntr # s) = pending s"
| "pending (RecvEof # s) = []"
| "pending (RecvFail # s) = []"

lemma recv_pending:
  assumes "0 < n"
  shows "case recv s n of
           (Received bs, s') \<Rightarrow> pending s = bs @ pending s'
         | (Interrupted, s') \<Rightarrow> pending s' = pending s
         | (_, s') \<Rightarrow> pending s = []"
  using assms by (induction s n rule: recv.induct) (auto split: recv_result.splits)

text \<open>
  The result of \<open>readExact\<close> depends on the pending bytes alone: not on how they are cut into
  segments, nor on the interrupted calls between them.
\<close>

lemma readExact_spec:
  "case readExact s n of (ok, bs, s') \<Rightarrow>
     if n \<le> length (pending s)
     then ok \<and> bs = take n (pending s) \<and> pending s' = drop n (pending s)
     else \<not> ok \<and> bs = pending s"
proof (induction s n rule: readExact.induct)
  case (1 s n)
  show ?case
  proof (cases "n = 0")
    case True
    then show ?thesis by (simp add: readExact.simps)
  next
    case False
    then have pend: "case recv s n of
           (Received bs, s') \<Rightarrow> pending s = bs @ pending s'
         | (Interrupted, s') \<Rightarrow> pending s' = pending s
         | (_, s') \<Rightarrow> pending s = []"
      by (simp add: recv_pending)
    show ?thesis
    proof (cases "recv s n")
      case (Pair r s')
      show ?thesis
      proof (cases r)
        case (Received bs)
        with Pair False have "length bs \<le> n" using recv_Received [of s n bs s'] by simp
        then show ?thesis
          using Pair Received False pend "1.IH"(1) [OF False Pair [symmetric] Received]
          by (subst readExact.simps) (auto split: prod.splits if_splits)
      next
        case Interrupted
        then show ?thesis
          using Pair False pend "1.IH"(2) [OF False Pair [symmetric] Interrupted]
          by (subst readExact.simps) (auto split: prod.splits if_splits)
      qed (use Pair False pend in \<open>subst readExact.simps; auto\<close>)+
    qed
  qed
qed

lemma readExact_ok:
  assumes "n \<le> length (pending s)"
  obtains s' where "readExact s n = (True, take n (pending s), s')" "pending s' = drop n (pending s)"
  using readExact_spec [where s = s and n = n] assms by (cases "readExact s n") auto

lemma readExact_short:
  assumes "length (pending s) < n"
  obtains s' where "readExact s n = (False, pending s, s')"
  using readExact_spec [where s = s and n = n] assms by (cases "readExact s n") auto

section \<open>The send loop\<close>

lemma writeAll_spec:
  "case writeAll s data of (ok, out, s') \<Rightarrow>
     if ok then out = data else \<exists>rest. rest \<noteq> [] \<and> data = out @ rest"
proof (induction s data rule: writeAll.induct)
  case (1 s data)
  show ?case
  proof (cases "data = []")
    case True
    then show ?thesis by (simp add: writeAll.simps)
  next
    case False
    obtain r s' where r: "send s (length data) = (r, s')" by (cases "send s (length data)")
    show ?thesis
    proof (cases r)
      case (Sent n)
      show ?thesis
      proof (cases "n > 0")
        case True
        with "1.IH"(1) [OF False r [symmetric] Sent] r Sent False show ?thesis
          by (subst writeAll.simps) (auto split: prod.splits if_splits,
              (metis append.assoc append_take_drop_id)+)
      next
        case False
        with r Sent \<open>data \<noteq> []\<close> show ?thesis by (subst writeAll.simps) auto
      qed
    next
      case SendInterrupted
      with "1.IH"(2) [OF False r [symmetric] SendInterrupted] r False show ?thesis
        by (subst writeAll.simps) auto
    next
      case SendFailed
      with r False show ?thesis by (subst writeAll.simps) auto
    qed
  qed
qed

lemma writeAll_complete: "writeAll s data = (True, out, s') \<Longrightarrow> out = data"
  using writeAll_spec [where s = s and data = data] by simp

lemma writeAll_partial:
  "writeAll s data = (False, out, s') \<Longrightarrow> \<exists>rest. rest \<noteq> [] \<and> data = out @ rest"
  using writeAll_spec [where s = s and data = data] by simp

section \<open>The three frame readers share one shape\<close>

definition frame_read ::
    "(byte list \<Rightarrow> 'h) \<Rightarrow> ('h \<Rightarrow> u32) \<Rightarrow> ('h \<Rightarrow> u32) \<Rightarrow> rsock \<Rightarrow> u32 \<Rightarrow> (u32 \<times> byte list) option \<times> rsock" where
  "frame_read dec len key s maxlen =
     (case readExact s header_size of
        (False, _, s1) \<Rightarrow> (None, s1)
      | (True, hb, s1) \<Rightarrow>
          (let header = dec hb in
           if \<not> validateLength (len header) maxlen then (None, s1)
           else if len header > 0 then
             (case readExact s1 (unat (len header)) of
                (False, _, s2) \<Rightarrow> (None, s2)
              | (True, body, s2) \<Rightarrow> (Some (key header, body), s2))
           else (Some (key header, []), s1)))"

lemma readers_are_frame_read:
  "readRequest e s m = frame_read (request_header_of e) params_length method_id s m"
  "readResponse e s m = frame_read (response_header_of e) data_length status_code s m"
  "readEvent e s m = frame_read (event_header_of e) payload_length event_type s m"
  by (simp_all add: readRequest_def readResponse_def readEvent_def frame_read_def)

lemma frame_read_body:
  assumes "pending s = hb @ body" and "length hb = header_size"
  obtains s1 where "readExact s header_size = (True, hb, s1)" and "pending s1 = body"
  using readExact_ok [of header_size s] assms by auto

lemma frame_read_ok:
  assumes "pending s = hb @ body @ rest" and "length hb = header_size"
    and "len (dec hb) = of_nat (length body)" and "length body \<le> unat maxlen"
  obtains s' where "frame_read dec len key s maxlen = (Some (key (dec hb), body), s')"
    and "pending s' = rest"
proof -
  obtain s1 where s1: "readExact s header_size = (True, hb, s1)" "pending s1 = body @ rest"
    using frame_read_body assms(1,2) by blast
  have small: "length body < 2 ^ 32"
    using assms(4) unsigned_less [of maxlen, where ?'a = nat] by simp
  then have len: "unat (len (dec hb)) = length body"
    using assms(3) by (simp add: unsigned_of_nat take_bit_nat_eq_self)
  have valid: "validateLength (len (dec hb)) maxlen"
    using assms(4) len by (simp add: validateLength_def word_le_nat_alt)
  show thesis
  proof (cases "body = []")
    case True
    then show thesis
      using that s1 valid assms(3) by (simp add: frame_read_def)
  next
    case False
    then have pos: "0 < len (dec hb)"
      using len by (simp add: word_less_nat_alt)
    obtain s2 where "readExact s1 (length body) = (True, body, s2)" "pending s2 = rest"
      using readExact_ok [of "length body" s1] s1(2) by auto
    then show thesis
      using that s1 valid pos len by (simp add: frame_read_def)
  qed
qed

lemma frame_read_over:
  assumes "pending s = hb @ body" and "length hb = header_size"
    and "maxlen < len (dec hb)"
  shows "\<exists>s'. frame_read dec len key s maxlen = (None, s') \<and> pending s' = body"
proof -
  obtain s1 where "readExact s header_size = (True, hb, s1)" "pending s1 = body"
    using frame_read_body [OF assms(1,2)] by blast
  then show ?thesis
    using assms(3) by (auto simp: frame_read_def validateLength_def Let_def)
qed

lemma frame_read_truncated:
  assumes "pending s @ missing = hb @ body" and "missing \<noteq> []" and "length hb = header_size"
    and "unat (len (dec hb)) = length body"
  shows "\<exists>s'. frame_read dec len key s maxlen = (None, s')"
proof (cases "length (pending s) < header_size")
  case True
  then show ?thesis
    by (rule readExact_short) (simp add: frame_read_def)
next
  case False
  define got where "got = drop header_size (pending s)"
  have hb: "take header_size (pending s) = hb"
    using False assms(1,3) by (metis append_eq_append_conv_if append_eq_conv_conj not_less)
  have split: "pending s = hb @ got"
    unfolding got_def using append_take_drop_id [of header_size "pending s"] hb by simp
  then have "length got < length body"
    using assms(1,2) by auto
  obtain s1 where s1: "readExact s header_size = (True, hb, s1)" "pending s1 = got"
    using frame_read_body split assms(3) by blast
  have pos: "0 < len (dec hb)"
    using \<open>length got < length body\<close> assms(4) by (auto simp: word_less_nat_alt)
  obtain s2 where "readExact s1 (length body) = (False, got, s2)"
    using readExact_short [of s1 "length body"] s1(2) \<open>length got < length body\<close> by metis
  then show ?thesis
    using s1 pos assms(4) by (auto simp: frame_read_def Let_def)
qed

section \<open>Interface: a channel of length-prefixed frames\<close>

text \<open>
  What the server's and the client's loops rely on when they read a frame: a complete frame
  within the limit is returned whatever follows it, a frame over the limit is refused before its
  body is read, and a truncated frame is refused.
\<close>

fun read_frames :: "nat \<Rightarrow> (rsock \<Rightarrow> (u32 \<times> byte list) option \<times> rsock) \<Rightarrow> rsock \<Rightarrow> (u32 \<times> byte list) list" where
  "read_frames 0 rd s = []"
| "read_frames (Suc n) rd s =
     (case rd s of (None, _) \<Rightarrow> [] | (Some f, s') \<Rightarrow> f # read_frames n rd s')"

locale frame_channel =
  fixes enc :: "u32 \<Rightarrow> byte list \<Rightarrow> byte list"
    and rd :: "rsock \<Rightarrow> u32 \<Rightarrow> (u32 \<times> byte list) option \<times> rsock"
  assumes rd_enc: "pending s = enc k body @ rest \<Longrightarrow> length body \<le> unat maxlen \<Longrightarrow>
      \<exists>s'. rd s maxlen = (Some (k, body), s') \<and> pending s' = rest"
    and rd_over: "pending s = enc k body @ rest \<Longrightarrow> length body < 2 ^ 32 \<Longrightarrow>
      unat maxlen < length body \<Longrightarrow> \<exists>s'. rd s maxlen = (None, s') \<and> pending s' = body @ rest"
    and rd_truncated: "pending s @ missing = enc k body \<Longrightarrow> missing \<noteq> [] \<Longrightarrow>
      length body < 2 ^ 32 \<Longrightarrow> \<exists>s'. rd s maxlen = (None, s')"
begin

definition encode_all :: "(u32 \<times> byte list) list \<Rightarrow> byte list" where
  "encode_all fs = concat (map (\<lambda>(k, body). enc k body) fs)"

lemma read_frames_stream:
  assumes "pending s = encode_all fs @ later" and "\<forall>(k, body) \<in> set fs. length body \<le> unat maxlen"
  shows "\<exists>s'. read_frames (length fs + n) (\<lambda>s. rd s maxlen) s
           = fs @ read_frames n (\<lambda>s. rd s maxlen) s' \<and> pending s' = later"
  using assms
proof (induction fs arbitrary: s)
  case Nil
  then show ?case by (auto simp: encode_all_def)
next
  case (Cons f fs)
  obtain k body where f: "f = (k, body)" by (cases f)
  from Cons.prems f have "pending s = enc k body @ (encode_all fs @ later)"
    and "length body \<le> unat maxlen"
    by (auto simp: encode_all_def)
  then obtain s1 where s1: "rd s maxlen = (Some (k, body), s1)" "pending s1 = encode_all fs @ later"
    using rd_enc by blast
  obtain s' where "read_frames (length fs + n) (\<lambda>s. rd s maxlen) s1
           = fs @ read_frames n (\<lambda>s. rd s maxlen) s'" "pending s' = later"
    using Cons.IH [OF s1(2)] Cons.prems(2) by auto
  with s1 f show ?case by auto
qed

text \<open>A stream cut inside its last frame yields exactly the complete frames before the cut.\<close>

lemma read_frames_cut:
  assumes "pending s = encode_all fs @ part" and "part @ missing = enc k body" and "missing \<noteq> []"
    and "length body < 2 ^ 32" and "\<forall>(k, body) \<in> set fs. length body \<le> unat maxlen"
  shows "read_frames (length fs + n) (\<lambda>s. rd s maxlen) s = fs"
proof -
  obtain s' where s': "read_frames (length fs + n) (\<lambda>s. rd s maxlen) s
           = fs @ read_frames n (\<lambda>s. rd s maxlen) s'" "pending s' = part"
    using read_frames_stream [OF assms(1,5)] by blast
  have "\<exists>s''. rd s' maxlen = (None, s'')"
    using rd_truncated [of s' missing k body] assms(2-4) s'(2) by simp
  then have "read_frames n (\<lambda>s. rd s maxlen) s' = []"
    by (cases n) auto
  with s'(1) show ?thesis by simp
qed

end

lemma frame_channel_of:
  assumes enc: "\<And>k body. enc k body = hdr k (of_nat (length body)) @ body"
    and hdr: "\<And>k n. length (hdr k n) = header_size" "\<And>k n. len (dec (hdr k n)) = n"
      "\<And>k n. key (dec (hdr k n)) = k"
  shows "frame_channel enc (frame_read dec len key)"
proof (unfold_locales, goal_cases)
  case (1 s k body rest maxlen)
  then show ?case
    using frame_read_ok [of s "hdr k (of_nat (length body))" body rest len dec maxlen key] hdr enc
    by auto
next
  case (2 s k body rest maxlen)
  then have "maxlen < of_nat (length body)"
    by (simp add: word_less_nat_alt unsigned_of_nat take_bit_nat_eq_self)
  with 2 show ?case
    using frame_read_over [of s "hdr k (of_nat (length body))" "body @ rest" maxlen len dec key] hdr enc
    by auto
next
  case (3 s missing k body maxlen)
  then show ?case
    using frame_read_truncated [of s missing "hdr k (of_nat (length body))" body len dec key maxlen]
      hdr enc by (simp add: unsigned_of_nat take_bit_nat_eq_self)
qed

interpretation request_channel: frame_channel "encodeRequest e" "readRequest e" for e
  unfolding readers_are_frame_read
  by (rule frame_channel_of
      [where hdr = "\<lambda>k n. request_header_bytes e \<lparr>method_id = k, params_length = n\<rparr>"])
    (simp_all add: encodeRequest_def codec_simps header_size_def)

interpretation response_channel: frame_channel "encodeResponse e" "readResponse e" for e
  unfolding readers_are_frame_read
  by (rule frame_channel_of
      [where hdr = "\<lambda>k n. response_header_bytes e \<lparr>status_code = k, data_length = n\<rparr>"])
    (simp_all add: encodeResponse_def codec_simps header_size_def)

interpretation event_channel: frame_channel "encodeEvent e" "readEvent e" for e
  unfolding readers_are_frame_read
  by (rule frame_channel_of
      [where hdr = "\<lambda>k n. event_header_bytes e \<lparr>event_type = k, payload_length = n\<rparr>"])
    (simp_all add: encodeEvent_def codec_simps header_size_def)

section \<open>Properties\<close>

text \<open>A run of one of the three writers over a list of frames, stopping at the first failure.\<close>

fun write_frames ::
    "(wsock \<Rightarrow> u32 \<Rightarrow> byte list \<Rightarrow> bool \<times> byte list \<times> wsock) \<Rightarrow> wsock \<Rightarrow> (u32 \<times> byte list) list
     \<Rightarrow> bool \<times> byte list" where
  "write_frames wr s [] = (True, [])"
| "write_frames wr s ((k, body) # fs) =
     (case wr s k body of
        (False, out, _) \<Rightarrow> (False, out)
      | (True, out, s') \<Rightarrow> (case write_frames wr s' fs of (ok, outs) \<Rightarrow> (ok, out @ outs)))"

lemma write_frames_wire:
  assumes wr: "\<And>s k body. wr s k body = writeAll s (enc k body)"
    and "write_frames wr s fs = (True, wire)"
  shows "wire = concat (map (\<lambda>(k, body). enc k body) fs)"
  using assms(2)
proof (induction fs arbitrary: s wire)
  case Nil
  then show ?case by simp
next
  case (Cons f fs)
  then show ?case
    by (cases f) (auto simp: wr split: prod.splits bool.splits dest!: writeAll_complete)
qed

text \<open>C3. A connection carries frames faithfully: when the writer reports success for every frame
  of a list (whatever short writes and interrupted calls the kernel produced) and the receiver gets
  those bytes (whatever segments and interrupted calls they arrive with), reading recovers exactly
  the list, for requests, responses and events alike, provided no body is over the limit.\<close>

theorem frame_stream_roundtrip:
  assumes "\<forall>(k, body) \<in> set fs. length body \<le> unat maxlen"
    and "pending s = wire"
  shows "(write_frames (writeRequest e) ws fs = (True, wire) \<longrightarrow>
           read_frames (length fs) (\<lambda>s. readRequest e s maxlen) s = fs)
    \<and> (write_frames (writeResponse e) ws fs = (True, wire) \<longrightarrow>
           read_frames (length fs) (\<lambda>s. readResponse e s maxlen) s = fs)
    \<and> (write_frames (writeEvent e) ws fs = (True, wire) \<longrightarrow>
           read_frames (length fs) (\<lambda>s. readEvent e s maxlen) s = fs)"
proof (intro conjI impI)
  assume "write_frames (writeRequest e) ws fs = (True, wire)"
  then have "pending s = request_channel.encode_all e fs @ []"
    using assms(2) write_frames_wire [of "writeRequest e" "encodeRequest e"]
    by (simp add: writeRequest_def request_channel.encode_all_def)
  from request_channel.read_frames_stream [OF this assms(1), where n = 0]
  show "read_frames (length fs) (\<lambda>s. readRequest e s maxlen) s = fs" by auto
next
  assume "write_frames (writeResponse e) ws fs = (True, wire)"
  then have "pending s = response_channel.encode_all e fs @ []"
    using assms(2) write_frames_wire [of "writeResponse e" "encodeResponse e"]
    by (simp add: writeResponse_def response_channel.encode_all_def)
  from response_channel.read_frames_stream [OF this assms(1), where n = 0]
  show "read_frames (length fs) (\<lambda>s. readResponse e s maxlen) s = fs" by auto
next
  assume "write_frames (writeEvent e) ws fs = (True, wire)"
  then have "pending s = event_channel.encode_all e fs @ []"
    using assms(2) write_frames_wire [of "writeEvent e" "encodeEvent e"]
    by (simp add: writeEvent_def event_channel.encode_all_def)
  from event_channel.read_frames_stream [OF this assms(1), where n = 0]
  show "read_frames (length fs) (\<lambda>s. readEvent e s maxlen) s = fs" by auto
qed

definition example_wire :: "byte list" where
  "example_wire = encodeRequest LittleEndian 7 [1, 2, 3] @ encodeRequest LittleEndian 8 []"

theorem frame_stream_roundtrip_witness:
  "read_frames (length [(7 :: u32, [1, 2, 3 :: byte]), (8, [])]) (\<lambda>s. readRequest LittleEndian s 16)
     [Segment (take 5 example_wire), RecvIntr, Segment (drop 5 example_wire)]
   = [(7, [1, 2, 3]), (8, [])]"
proof -
  have "write_frames (writeRequest LittleEndian) [Taken 6, SendIntr, Taken 90, Taken 90]
      [(7, [1, 2, 3]), (8, [])] = (True, example_wire)"
    by (simp add: writeRequest_def writeAll.simps example_wire_def encodeRequest_def
        request_header_bytes_def le_bytes_def)
  moreover have "\<forall>(k, body) \<in> set [(7 :: u32, [1, 2, 3 :: byte]), (8, [])]. length body \<le> unat (16 :: u32)"
    by simp
  moreover have "pending [Segment (take 5 example_wire), RecvIntr, Segment (drop 5 example_wire)]
      = example_wire" by simp
  ultimately show ?thesis
    using frame_stream_roundtrip [of "[(7 :: u32, [1, 2, 3 :: byte]), (8, [])]" 16 _ example_wire] by blast
qed

text \<open>A body over the receiver's limit is refused after its header, and its bytes stay in the
  stream; the writer has no such check, so the same body is sent in full.\<close>

theorem oversized_request_refused:
  assumes "length body < 2 ^ 32" and "unat maxlen < length body"
    and "pending s = encodeRequest e mid body @ rest"
  shows "(\<exists>s'. readRequest e s maxlen = (None, s') \<and> pending s' = body @ rest)
    \<and> (\<exists>ws'. writeRequest e (Taken (length body + 8) # ws) mid body
           = (True, encodeRequest e mid body, ws'))"
proof
  show "\<exists>s'. readRequest e s maxlen = (None, s') \<and> pending s' = body @ rest"
    using request_channel.rd_over assms by blast
  have len: "length (encodeRequest e mid body) = length body + 8"
    by (simp add: encodeRequest_def codec_simps)
  then have "encodeRequest e mid body \<noteq> []" by auto
  then show "\<exists>ws'. writeRequest e (Taken (length body + 8) # ws) mid body
           = (True, encodeRequest e mid body, ws')"
    using len by (simp add: writeRequest_def writeAll.simps)
qed

theorem oversized_request_refused_witness:
  "\<exists>s'. readRequest BigEndian [Segment (encodeRequest BigEndian 1 [9, 9, 9])] 2 = (None, s')
      \<and> pending s' = [9, 9, 9]"
  using oversized_request_refused [of "[9, 9, 9]" 2 "[Segment (encodeRequest BigEndian 1 [9, 9, 9])]"
      BigEndian 1 "[]"] by simp

text \<open>What a failed \<open>writeRequest\<close> leaves on the wire (and likewise a response or an event) is
  never taken for a frame by the reader: the peer sees a transport failure, not a shorter request.\<close>

theorem failed_write_never_decoded:
  assumes "length body < 2 ^ 32" and "pending s = out"
  shows "(writeRequest e ws k body = (False, out, ws') \<longrightarrow> fst (readRequest e s maxlen) = None)
    \<and> (writeResponse e ws k body = (False, out, ws') \<longrightarrow> fst (readResponse e s maxlen) = None)
    \<and> (writeEvent e ws k body = (False, out, ws') \<longrightarrow> fst (readEvent e s maxlen) = None)"
proof (intro conjI impI)
  assume "writeRequest e ws k body = (False, out, ws')"
  then obtain rest where "rest \<noteq> []" "encodeRequest e k body = out @ rest"
    by (auto simp: writeRequest_def dest: writeAll_partial)
  with request_channel.rd_truncated [of s rest e k body maxlen] assms
  show "fst (readRequest e s maxlen) = None" by auto
next
  assume "writeResponse e ws k body = (False, out, ws')"
  then obtain rest where "rest \<noteq> []" "encodeResponse e k body = out @ rest"
    by (auto simp: writeResponse_def dest: writeAll_partial)
  with response_channel.rd_truncated [of s rest e k body maxlen] assms
  show "fst (readResponse e s maxlen) = None" by auto
next
  assume "writeEvent e ws k body = (False, out, ws')"
  then obtain rest where "rest \<noteq> []" "encodeEvent e k body = out @ rest"
    by (auto simp: writeEvent_def dest: writeAll_partial)
  with event_channel.rd_truncated [of s rest e k body maxlen] assms
  show "fst (readEvent e s maxlen) = None" by auto
qed

theorem failed_write_never_decoded_witness:
  "fst (readRequest LittleEndian [Segment (take 9 (encodeRequest LittleEndian 3 [5, 6])), RecvEof] 100)
     = None"
proof -
  have "writeRequest LittleEndian [Taken 9, SendFail] 3 [5, 6]
     = (False, take 9 (encodeRequest LittleEndian 3 [5, 6]), [])"
    by (simp add: writeRequest_def writeAll.simps encodeRequest_def request_header_bytes_def
        le_bytes_def)
  then show ?thesis
    using failed_write_never_decoded [of "[5, 6]"] by simp
qed

text \<open>The header length is the low 32 bits of the size: a body of \<open>2^32\<close> bytes or more is sent
  under a shorter length, so the peer accepts its first \<open>length mod 2^32\<close> bytes as the whole request
  and reads the rest as the next frame.\<close>

theorem request_length_wraps:
  assumes "2 ^ 32 \<le> length body" and "n = length body mod 2 ^ 32" and "n \<le> unat maxlen"
    and "pending s = encodeRequest e mid body"
  shows "\<exists>s'. readRequest e s maxlen = (Some (mid, take n body), s') \<and> pending s' = drop n body"
proof -
  have n: "(of_nat (length body) :: u32) = of_nat n" and le: "n \<le> length body"
    using assms(2) by (simp_all add: word_unat_eq_iff unsigned_of_nat take_bit_eq_mod)
  then have len: "length (take n body) = n" by simp
  then have "encodeRequest e mid body = encodeRequest e mid (take n body) @ drop n body"
    unfolding encodeRequest_def Let_def len n by simp
  then show ?thesis
    using request_channel.rd_enc [of s e mid "take n body" "drop n body" maxlen] assms(3,4) len
    by simp
qed

theorem request_length_wraps_witness:
  "\<exists>s'. readRequest LittleEndian [Segment (encodeRequest LittleEndian 5 (replicate (2 ^ 32) 0))] 64
      = (Some (5, []), s') \<and> pending s' = replicate (2 ^ 32) 0"
  using request_length_wraps [of "replicate (2 ^ 32) 0" 0 64
      "[Segment (encodeRequest LittleEndian 5 (replicate (2 ^ 32) 0))]" LittleEndian 5]
  by (simp del: replicate.simps)

end
