(* ===== verification/Ipc_Base64.thy ===== *)
theory Ipc_Base64
  imports Prelude
begin

text \<open>
  \<open>Protocol::base64Encode\<close> and \<open>base64Decode\<close> of \<open>src/ipc/ipc_protocol.cpp\<close>, loop by loop:
  the accumulators \<open>char_array_3\<close> and \<open>char_array_4\<close> are the lists of the bytes stored so far,
  the arithmetic is on \<open>unsigned char\<close>.
\<close>

section \<open>The alphabet and its lookup\<close>

definition kBase64Chars :: "byte list" where
  "kBase64Chars =
     map of_char ''ABCDEFGHIJKLMNOPQRSTUVWXYZabcdefghijklmnopqrstuvwxyz0123456789+/''"

fun index_of :: "byte list \<Rightarrow> byte \<Rightarrow> nat option" where
  "index_of [] c = None"
| "index_of (x # xs) c = (if x = c then Some 0 else map_option Suc (index_of xs c))"

text \<open>
  \<open>strchr\<close> searches the characters of a C string and its terminating NUL, so looking for
  \<open>'\0'\<close> succeeds, at the index of the terminator.
\<close>

definition strchr :: "byte list \<Rightarrow> byte \<Rightarrow> nat option" where
  "strchr s c = index_of (s @ [0]) c"

definition isalnum_byte :: "byte \<Rightarrow> bool" where
  "isalnum_byte c \<longleftrightarrow> (48 \<le> c \<and> c \<le> 57) \<or> (65 \<le> c \<and> c \<le> 90) \<or> (97 \<le> c \<and> c \<le> 122)"

definition pad_char :: byte where
  "pad_char = 61"

section \<open>Encoder\<close>

definition split_3 :: "byte \<Rightarrow> byte \<Rightarrow> byte \<Rightarrow> byte list" where
  "split_3 a0 a1 a2 =
     [drop_bit 2 (a0 AND 0xfc),
      push_bit 4 (a0 AND 0x03) + drop_bit 4 (a1 AND 0xf0),
      push_bit 2 (a1 AND 0x0f) + drop_bit 6 (a2 AND 0xc0),
      a2 AND 0x3f]"

definition b64_char :: "byte \<Rightarrow> byte" where
  "b64_char v = kBase64Chars ! unat v"

text \<open>The main loop: \<open>buf\<close> is \<open>char_array_3[0..i)\<close>; the result and the bytes left in the array.\<close>

fun encode_loop :: "byte list \<Rightarrow> byte list \<Rightarrow> byte list \<Rightarrow> byte list \<times> byte list" where
  "encode_loop [] buf result = (result, buf)"
| "encode_loop (x # src) buf result =
     (let buf' = buf @ [x] in
      if length buf' = 3
      then encode_loop src [] (result @ map b64_char (split_3 (buf' ! 0) (buf' ! 1) (buf' ! 2)))
      else encode_loop src buf' result)"

text \<open>After the loop: the last one or two bytes, zero-filled, and the padding.\<close>

definition encode_tail :: "byte list \<times> byte list \<Rightarrow> byte list" where
  "encode_tail st =
     (case st of (result, buf) \<Rightarrow>
        (let i = length buf in
         if i \<noteq> 0 then
           (let a = buf @ replicate (3 - i) 0 in
            result @ map b64_char (take (i + 1) (split_3 (a ! 0) (a ! 1) (a ! 2)))
              @ replicate (3 - i) pad_char)
         else result))"

definition base64Encode :: "byte list \<Rightarrow> byte list" where
  "base64Encode data = encode_tail (encode_loop data [] [])"

section \<open>Decoder\<close>

definition join_4 :: "byte \<Rightarrow> byte \<Rightarrow> byte \<Rightarrow> byte \<Rightarrow> byte list" where
  "join_4 c0 c1 c2 c3 =
     [push_bit 2 c0 + drop_bit 4 (c1 AND 0x30),
      push_bit 4 (c1 AND 0x0f) + drop_bit 2 (c2 AND 0x3c),
      push_bit 6 (c2 AND 0x03) + c3]"

definition accepted :: "byte \<Rightarrow> bool" where
  "accepted c \<longleftrightarrow> c \<noteq> pad_char \<and> (isalnum_byte c \<or> c = 43 \<or> c = 47)"

text \<open>Looking up a full quantum; \<open>None\<close> is the early \<open>return ""\<close>.\<close>

definition lookup_4 :: "byte list \<Rightarrow> byte list option" where
  "lookup_4 cs =
     (if list_all (\<lambda>c. strchr kBase64Chars c \<noteq> None) cs
      then Some (map (\<lambda>c. of_nat (the (strchr kBase64Chars c))) cs) else None)"

text \<open>Looking up the last, incomplete quantum: a character that is not found counts as zero.\<close>

definition lookup_tail :: "byte \<Rightarrow> byte" where
  "lookup_tail c = (case strchr kBase64Chars c of Some p \<Rightarrow> of_nat p | None \<Rightarrow> 0)"

fun decode_loop :: "byte list \<Rightarrow> byte list \<Rightarrow> byte list \<Rightarrow> (byte list \<times> byte list) option" where
  "decode_loop [] buf result = Some (result, buf)"
| "decode_loop (c # enc) buf result =
     (if accepted c then
        (let buf' = buf @ [c] in
         if length buf' = 4
         then (case lookup_4 buf' of
                 None \<Rightarrow> None
               | Some v \<Rightarrow> decode_loop enc [] (result @ join_4 (v ! 0) (v ! 1) (v ! 2) (v ! 3)))
         else decode_loop enc buf' result)
      else Some (result, buf))"

text \<open>After the loop: the last, incomplete quantum, filled with NUL.\<close>

definition decode_tail :: "byte list \<times> byte list \<Rightarrow> byte list" where
  "decode_tail st =
     (case st of (result, buf) \<Rightarrow>
        (let i = length buf in
         if i \<noteq> 0 then
           (let v = map lookup_tail (buf @ replicate (4 - i) 0)
            in result @ take (i - 1) (join_4 (v ! 0) (v ! 1) (v ! 2) (v ! 3)))
         else result))"

definition base64Decode :: "byte list \<Rightarrow> byte list" where
  "base64Decode encoded =
     (case decode_loop encoded [] [] of None \<Rightarrow> [] | Some st \<Rightarrow> decode_tail st)"

section \<open>Facts about the alphabet\<close>

lemma length_kBase64Chars [simp]: "length kBase64Chars = 64"
  by (simp add: kBase64Chars_def)

lemma index_of_nth:
  "distinct xs \<Longrightarrow> k < length xs \<Longrightarrow> index_of xs (xs ! k) = Some k"
proof (induction xs arbitrary: k)
  case Nil
  then show ?case by simp
next
  case (Cons x xs)
  then show ?case by (cases k) auto
qed

lemma distinct_alphabet: "distinct (kBase64Chars @ [0])"
proof -
  have "distinct kBase64Chars"
    unfolding kBase64Chars_def distinct_map
    by (intro conjI inj_on_subset [OF inj_of_char_byte]) simp_all
  moreover have "0 \<notin> set kBase64Chars"
    unfolding kBase64Chars_def by simp
  ultimately show ?thesis by simp
qed

lemma accepted_alphabet: "c \<in> set kBase64Chars \<Longrightarrow> accepted c"
proof -
  have "list_all accepted kBase64Chars"
    unfolding kBase64Chars_def by (simp add: accepted_def isalnum_byte_def pad_char_def)
  then show "c \<in> set kBase64Chars \<Longrightarrow> accepted c" by (simp add: list_all_iff)
qed

lemma alphabet:
  assumes "unat v < 64"
  shows "strchr kBase64Chars (b64_char v) = Some (unat v)" and "accepted (b64_char v)"
  using assms index_of_nth [OF distinct_alphabet, of "unat v"]
  by (auto simp: strchr_def b64_char_def nth_append intro: accepted_alphabet)

lemma strchr_nul: "strchr kBase64Chars 0 = Some 64"
  using index_of_nth [OF distinct_alphabet, of 64] by (simp add: strchr_def nth_append)

section \<open>Quantum arithmetic\<close>

lemma split_3_bits:
  "push_bit 4 (a0 AND 0x03) + drop_bit 4 (a1 AND 0xf0)
     = push_bit 4 (a0 AND 0x03) OR drop_bit 4 (a1 AND (0xf0 :: byte))"
  "push_bit 2 (a1 AND 0x0f) + drop_bit 6 (a2 AND 0xc0)
     = push_bit 2 (a1 AND 0x0f) OR drop_bit 6 (a2 AND (0xc0 :: byte))"
  by (rule byte_add_or, rule byte_bit_eqI; simp add: bit_simps)+

lemma split_3_range: "s \<in> set (split_3 a0 a1 a2) \<Longrightarrow> unat s < 64"
proof -
  have mask: "unat x < 64" if "x = x AND 0x3f" for x :: byte
  proof -
    have "x AND 0x3f \<le> 0x3f" by (rule word_and_le1)
    with that have "x \<le> 0x3f" by simp
    then show ?thesis by (simp add: word_le_nat_alt)
  qed
  show "s \<in> set (split_3 a0 a1 a2) \<Longrightarrow> unat s < 64"
    unfolding split_3_def split_3_bits
    by (auto intro!: mask byte_bit_eqI simp: bit_simps)
qed

lemma join_split:
  "push_bit 2 (drop_bit 2 (a0 AND 0xfc))
     + drop_bit 4 ((push_bit 4 (a0 AND 0x03) OR drop_bit 4 (a1 AND 0xf0)) AND 0x30) = (a0 :: byte)"
  "push_bit 4 ((push_bit 4 (a0 AND 0x03) OR drop_bit 4 (a1 AND 0xf0)) AND 0x0f)
     + drop_bit 2 ((push_bit 2 (a1 AND 0x0f) OR drop_bit 6 (a2 AND 0xc0)) AND 0x3c) = a1"
  "push_bit 6 ((push_bit 2 (a1 AND 0x0f) OR drop_bit 6 (a2 AND 0xc0)) AND 0x03)
     + (a2 AND 0x3f) = a2"
  by (subst byte_add_or; rule byte_bit_eqI; simp add: bit_simps)+

lemma join_4_split_3:
  assumes "split_3 a0 a1 a2 = [s0, s1, s2, s3]"
  shows "join_4 s0 s1 s2 s3 = [a0, a1, a2]"
proof -
  from assms have s: "drop_bit 2 (a0 AND 0xfc) = s0"
    "push_bit 4 (a0 AND 0x03) OR drop_bit 4 (a1 AND 0xf0) = s1"
    "push_bit 2 (a1 AND 0x0f) OR drop_bit 6 (a2 AND 0xc0) = s2" "a2 AND 0x3f = s3"
    by (simp_all only: split_3_def split_3_bits list.inject)
  show ?thesis
    unfolding join_4_def
    using join_split [of a0 a1, unfolded s] join_split(2) [of a0 a1 a2, unfolded s]
      join_split(3) [of a1 a2, unfolded s] by metis
qed

section \<open>The encoder computes the RFC 4648 groups\<close>

fun rfc4648 :: "byte list \<Rightarrow> byte list" where
  "rfc4648 [] = []"
| "rfc4648 [a] = map b64_char (take 2 (split_3 a 0 0)) @ [pad_char, pad_char]"
| "rfc4648 [a, b] = map b64_char (take 3 (split_3 a b 0)) @ [pad_char]"
| "rfc4648 (a # b # c # rest) = map b64_char (split_3 a b c) @ rfc4648 rest"

lemma encode_loop_rfc4648: "encode_tail (encode_loop src [] result) = result @ rfc4648 src"
proof (induction src arbitrary: result rule: rfc4648.induct)
  case (4 a b c rest)
  have "encode_loop (a # b # c # rest) [] result
      = encode_loop rest [] (result @ map b64_char (split_3 a b c))"
    by simp
  then show ?case using "4.IH" by simp
qed (simp_all add: encode_tail_def numeral_2_eq_2 flip: numeral_3_eq_3)

section \<open>Decoding an encoded buffer\<close>

lemma b64_lookup:
  assumes "s \<in> set (split_3 a b c)"
  shows "strchr kBase64Chars (b64_char s) = Some (unat s)" and "accepted (b64_char s)"
    and "lookup_tail (b64_char s) = s"
  using alphabet [OF split_3_range [OF assms]] by (simp_all add: lookup_tail_def)

lemma split_3_cases:
  obtains s0 s1 s2 s3 where "split_3 a b c = [s0, s1, s2, s3]"
  by (simp add: split_3_def)

lemma decode_loop_quantum:
  "decode_loop (map b64_char (split_3 a b c) @ enc) [] result
     = decode_loop enc [] (result @ [a, b, c])"
proof -
  obtain s0 s1 s2 s3 where s: "split_3 a b c = [s0, s1, s2, s3]" by (rule split_3_cases)
  then have j: "join_4 s0 s1 s2 s3 = [a, b, c]" by (rule join_4_split_3)
  have l: "strchr kBase64Chars (b64_char t) = Some (unat t) \<and> accepted (b64_char t)"
    if "t \<in> {s0, s1, s2, s3}" for t
    using that b64_lookup [of t a b c] s by auto
  show ?thesis by (simp add: s l j lookup_4_def)
qed

lemma pad_not_accepted [simp]: "\<not> accepted pad_char"
  by (simp add: accepted_def)

lemma decode_rfc4648:
  "\<exists>st. decode_loop (rfc4648 data) [] result = Some st \<and> decode_tail st = result @ data"
proof (induction data arbitrary: result rule: rfc4648.induct)
  case 1
  then show ?case by (simp add: decode_tail_def)
next
  case (2 a)
  obtain s0 s1 s2 s3 where s: "split_3 a 0 0 = [s0, s1, s2, s3]" by (rule split_3_cases)
  then have j: "join_4 s0 s1 s2 s3 = [a, 0, 0]" by (rule join_4_split_3)
  have l: "accepted (b64_char t) \<and> lookup_tail (b64_char t) = t" if "t \<in> {s0, s1, s2, s3}" for t
    using that b64_lookup [of t a 0 0] s by auto
  have "decode_loop (rfc4648 [a]) [] result = Some (result, [b64_char s0, b64_char s1])"
    by (simp add: s l numeral_2_eq_2)
  moreover have "decode_tail (result, [b64_char s0, b64_char s1]) = result @ [a]"
    using j by (simp add: decode_tail_def l join_4_def numeral_2_eq_2)
  ultimately show ?case by blast
next
  case (3 a b)
  obtain s0 s1 s2 s3 where s: "split_3 a b 0 = [s0, s1, s2, s3]" by (rule split_3_cases)
  then have j: "join_4 s0 s1 s2 s3 = [a, b, 0]" by (rule join_4_split_3)
  have l: "accepted (b64_char t) \<and> lookup_tail (b64_char t) = t" if "t \<in> {s0, s1, s2, s3}" for t
    using that b64_lookup [of t a b 0] s by auto
  have "decode_loop (rfc4648 [a, b]) [] result
      = Some (result, [b64_char s0, b64_char s1, b64_char s2])"
    by (simp add: s l numeral_3_eq_3)
  moreover have "decode_tail (result, [b64_char s0, b64_char s1, b64_char s2]) = result @ [a, b]"
    using j by (simp add: decode_tail_def l join_4_def numeral_3_eq_3)
  ultimately show ?case by blast
next
  case (4 a b c rest)
  then obtain st where "decode_loop (rfc4648 rest) [] (result @ [a, b, c]) = Some st"
    "decode_tail st = (result @ [a, b, c]) @ rest" by blast
  then show ?case using decode_loop_quantum [of a b c "rfc4648 rest" result] by simp
qed

section \<open>Input that is not base64\<close>

lemma kBase64Chars_ranges:
  "kBase64Chars = map of_nat ([65..<91] @ [97..<123] @ [48..<58] @ [43, 47])"
  unfolding kBase64Chars_def by (simp add: upt_conv_Cons)

lemma accepted_found: "accepted c \<Longrightarrow> strchr kBase64Chars c \<noteq> None"
proof -
  assume "accepted c"
  then have "unat c \<in> set ([65..<91] @ [97..<123] @ [48..<58] @ [43, 47])"
    unfolding set_append set_upt by (auto simp: accepted_def isalnum_byte_def word_le_nat_alt)
  then have "of_nat (unat c) \<in> set kBase64Chars"
    unfolding kBase64Chars_ranges set_map by (rule imageI)
  then obtain k where "k < 64" "kBase64Chars ! k = c"
    by (metis in_set_conv_nth length_kBase64Chars of_nat_unat ucast_id)
  then show ?thesis
    using index_of_nth [OF distinct_alphabet, of k] by (auto simp: strchr_def nth_append)
qed

lemma decode_loop_total:
  assumes "list_all accepted buf" and "length buf < 4"
  shows "decode_loop enc buf result \<noteq> None"
  using assms
proof (induction enc buf result rule: decode_loop.induct)
  case (1 buf result)
  then show ?case by simp
next
  case (2 c enc buf result)
  have "lookup_4 (buf @ [c]) \<noteq> None" if "accepted c"
    using that 2(3) accepted_found by (auto simp: lookup_4_def list_all_iff)
  with 2 show ?case by (auto simp: Let_def split: option.splits)
qed

lemma decode_loop_takeWhile:
  "decode_loop (takeWhile accepted enc) buf result = decode_loop enc buf result"
  by (induction enc buf result rule: decode_loop.induct) (auto simp: Let_def split: option.splits)

section \<open>Properties\<close>

lemma base64Encode_eq: "base64Encode data = rfc4648 data"
  unfolding base64Encode_def using encode_loop_rfc4648 [of data "[]"] by simp

lemma length_rfc4648: "length (rfc4648 data) = 4 * ((length data + 2) div 3)"
proof (induction data rule: rfc4648.induct)
  case (4 a b c rest)
  have "(length (a # b # c # rest) + 2) div 3 = Suc ((length rest + 2) div 3)" by simp
  with 4 show ?case by (simp add: split_3_def)
qed (simp_all add: split_3_def)

lemma b64_char_alphabet: "s \<in> set (split_3 a b c) \<Longrightarrow> b64_char s \<in> set kBase64Chars"
  by (drule split_3_range) (simp add: b64_char_def)

lemma set_rfc4648: "set (rfc4648 data) \<subseteq> set kBase64Chars \<union> {pad_char}"
  by (induction data rule: rfc4648.induct) (auto intro: b64_char_alphabet dest: in_set_takeD)

text \<open>C29. Decoding an encoded buffer gives the buffer back, whatever its bytes and length.\<close>

theorem base64_roundtrip: "base64Decode (base64Encode data) = data"
  using decode_rfc4648 [of data "[]"] by (auto simp: base64Decode_def base64Encode_eq)


text \<open>The decoder never takes its early exit for invalid input: at the first character outside the
  alphabet (padding included) it stops and returns what the characters before it decode to.\<close>

theorem base64Decode_stops_at_invalid:
  "decode_loop encoded [] [] \<noteq> None
   \<and> base64Decode encoded = base64Decode (takeWhile accepted encoded)"
  using decode_loop_total [of "[]"] by (simp add: base64Decode_def decode_loop_takeWhile)

end
