(* ===== verification/Ipc_Server.thy ===== *)
theory Ipc_Server
  imports Ipc_Protocol
begin

text \<open>
  The IPC server (\<open>src/ipc/ipc_server.cpp\<close>, class \<open>Server::Impl\<close>).  The first part has every
  operation as a function of the server's fields and of what the kernel answers; the second puts
  the accept thread, the connection threads, the pushing threads and \<open>stop\<close> together as a step
  relation whose steps are the regions the code runs under \<open>m_mutex\<close> or one system call.
  Connections are numbered in the order they are accepted; a number stands for the connection's
  \<open>ClientState\<close> object.  Logging is left out.
\<close>

section \<open>Configuration and state\<close>

record ReconnectConfig =
  initial_backoff_ms :: u32
  max_backoff_ms :: u32
  multiplier :: "u32 \<Rightarrow> u32"

text \<open>\<open>multiplier\<close> is what multiplying by the \<open>double\<close> factor and converting back gives.\<close>

record IpcConfig =
  max_frame_bytes :: u32
  receive_timeout_ms :: u32
  connect_timeout_ms :: u32
  listen_backlog :: int
  reconnect :: ReconnectConfig

text \<open>A request handler returns a response or throws (\<open>None\<close>).\<close>

type_synonym handler = "u32 \<Rightarrow> byte list \<Rightarrow> int \<Rightarrow> byte list option"

record server =
  m_socketPath :: string
  m_config :: IpcConfig
  m_running :: bool
  m_listenFd :: int
  m_shutdownPipe :: "int \<times> int"
  m_requestHandler :: "handler option"
  m_disconnectHandler :: bool
  m_clients :: "(int \<times> nat) list"
  m_states :: "nat \<Rightarrow> u32 set"

definition server_new :: "string \<Rightarrow> IpcConfig \<Rightarrow> server" where
  "server_new path cfg =
     \<lparr>m_socketPath = path, m_config = cfg, m_running = False, m_listenFd = -1, m_shutdownPipe = (-1, -1),
      m_requestHandler = None, m_disconnectHandler = False, m_clients = [], m_states = (\<lambda>_. {})\<rparr>"

text \<open>What a descriptor of the process refers to, and the socket files in the file system.\<close>

datatype desc = PipeEnd | Listener string | Conn nat

record os =
  os_open :: "int \<rightharpoonup> desc"
  os_sockets :: "string set"

definition os_close :: "int \<Rightarrow> os \<Rightarrow> os" where
  "os_close fd os = os\<lparr>os_open := (os_open os)(fd := None)\<rparr>"

definition os_unlink :: "string \<Rightarrow> os \<Rightarrow> os" where
  "os_unlink p os = os\<lparr>os_sockets := os_sockets os - {p}\<rparr>"

text \<open>\<open>strncpy\<close> into the 108 bytes of \<open>sun_path\<close>, the last one left zero.\<close>

definition sun_path :: "string \<Rightarrow> string" where
  "sun_path p = take 107 p"

section \<open>start and stop\<close>

text \<open>The answers of the kernel: the pipe's ends, the socket, whether bind and listen are granted (bind
  also fails when the path exists).\<close>

record start_io =
  io_pipe :: "(int \<times> int) option"
  io_socket :: "int option"
  io_bind :: bool
  io_listen :: bool

definition close_pipe :: "server \<Rightarrow> os \<Rightarrow> server \<times> os" where
  "close_pipe sv os =
     (sv\<lparr>m_shutdownPipe := (-1, -1)\<rparr>,
      os_close (snd (m_shutdownPipe sv)) (os_close (fst (m_shutdownPipe sv)) os))"

definition close_listen :: "server \<Rightarrow> os \<Rightarrow> server \<times> os" where
  "close_listen sv os = (sv\<lparr>m_listenFd := -1\<rparr>, os_close (m_listenFd sv) os)"

definition start :: "start_io \<Rightarrow> handler option \<Rightarrow> bool \<Rightarrow> server \<Rightarrow> os \<Rightarrow> bool \<times> server \<times> os" where
  "start io h d sv os =
     (if m_running sv then (True, sv, os)
      else
        (let sv1 = sv\<lparr>m_requestHandler := h, m_disconnectHandler := d\<rparr> in
         case io_pipe io of
           None \<Rightarrow> (False, sv1, os)
         | Some (r, w) \<Rightarrow>
             (let sv2 = sv1\<lparr>m_shutdownPipe := (r, w)\<rparr>;
                  os2 = os\<lparr>os_open := (os_open os)(r \<mapsto> PipeEnd, w \<mapsto> PipeEnd)\<rparr> in
              case io_socket io of
                None \<Rightarrow> (let (sv3, os3) = close_pipe (sv2\<lparr>m_listenFd := -1\<rparr>) os2 in (False, sv3, os3))
              | Some lfd \<Rightarrow>
                  (let sv3 = sv2\<lparr>m_listenFd := lfd\<rparr>;
                       os3 = os_unlink (m_socketPath sv)
                               (os2\<lparr>os_open := (os_open os2)(lfd \<mapsto> Listener (sun_path (m_socketPath sv)))\<rparr>);
                       path = sun_path (m_socketPath sv) in
                   if \<not> io_bind io \<or> path \<in> os_sockets os3 then
                     (let (sv4, os4) = close_listen sv3 os3; (sv5, os5) = close_pipe sv4 os4
                      in (False, sv5, os5))
                   else
                     (let os4 = os3\<lparr>os_sockets := insert path (os_sockets os3)\<rparr> in
                      if \<not> io_listen io then
                        (let (sv4, os5) = close_listen sv3 os4; (sv5, os6) = close_pipe sv4 os5
                         in (False, sv5, os6))
                      else (True, sv3\<lparr>m_running := True\<rparr>, os4))))))"

text \<open>\<open>stop\<close>: the flag, the descriptors shut down (the collected keys of \<open>m_clients\<close>), the handlers, the
  listening socket, the pipe, the socket file.\<close>

definition stop :: "server \<Rightarrow> os \<Rightarrow> int list \<times> server \<times> os" where
  "stop sv os =
     (if \<not> m_running sv then ([], sv, os)
      else
        (let sv1 = sv\<lparr>m_running := False\<rparr>;
             fds = map fst (m_clients sv1);
             sv2 = sv1\<lparr>m_requestHandler := None, m_disconnectHandler := False\<rparr>;
             (sv3, os3) = (if m_listenFd sv2 \<ge> 0 then close_listen sv2 os else (sv2, os));
             os4 = (if fst (m_shutdownPipe sv3) \<ge> 0 then os_close (fst (m_shutdownPipe sv3)) os3 else os3);
             os5 = (if snd (m_shutdownPipe sv3) \<ge> 0 then os_close (snd (m_shutdownPipe sv3)) os4 else os4);
             sv4 = sv3\<lparr>m_shutdownPipe :=
                     (if fst (m_shutdownPipe sv3) \<ge> 0 then -1 else fst (m_shutdownPipe sv3),
                      if snd (m_shutdownPipe sv3) \<ge> 0 then -1 else snd (m_shutdownPipe sv3))\<rparr>;
             os6 = (if m_socketPath sv4 \<noteq> [] then os_unlink (m_socketPath sv4) os5 else os5)
         in (fds, sv4, os6)))"

section \<open>Subscriptions and pushes\<close>

definition addSubscription :: "int \<Rightarrow> u32 \<Rightarrow> server \<Rightarrow> bool \<times> server" where
  "addSubscription client_fd ev sv =
     (case map_of (m_clients sv) client_fd of
        None \<Rightarrow> (False, sv)
      | Some g \<Rightarrow> (True, sv\<lparr>m_states := (m_states sv)(g := insert ev (m_states sv g))\<rparr>))"

definition removeSubscription :: "int \<Rightarrow> u32 \<Rightarrow> server \<Rightarrow> bool \<times> server" where
  "removeSubscription client_fd ev sv =
     (case map_of (m_clients sv) client_fd of
        None \<Rightarrow> (False, sv)
      | Some g \<Rightarrow> (True, sv\<lparr>m_states := (m_states sv)(g := m_states sv g - {ev})\<rparr>))"

text \<open>The first half of a push, under the mutex: descriptor and state of every subscriber.\<close>

definition push_targets :: "u32 \<Rightarrow> server \<Rightarrow> (int \<times> nat) list" where
  "push_targets ev sv = filter (\<lambda>(fd, g). ev \<in> m_states sv g) (m_clients sv)"

text \<open>The second half: one frame to each; \<open>ws\<close> is what the kernel answers to the sends on a descriptor,
  the result the frames' bytes that went out on each descriptor.\<close>

definition pushEvent :: "byte_order \<Rightarrow> (int \<Rightarrow> wsock) \<Rightarrow> u32 \<Rightarrow> byte list \<Rightarrow> server
    \<Rightarrow> bool \<times> (int \<times> byte list) list" where
  "pushEvent e ws ev payload sv =
     foldl (\<lambda>(any_sent, out) (fd, g).
              case writeEvent e (ws fd) ev payload of
                (ok, bytes, _) \<Rightarrow> (any_sent \<or> ok, out @ [(fd, bytes)]))
       (False, []) (push_targets ev sv)"

definition pushEventTo :: "byte_order \<Rightarrow> wsock \<Rightarrow> int \<Rightarrow> u32 \<Rightarrow> byte list \<Rightarrow> server
    \<Rightarrow> bool \<times> (int \<times> byte list) list" where
  "pushEventTo e ws client_fd ev payload sv =
     (case map_of (m_clients sv) client_fd of
        None \<Rightarrow> (False, [])
      | Some g \<Rightarrow>
          if ev \<notin> m_states sv g then (False, [])
          else (case writeEvent e ws ev payload of (ok, bytes, _) \<Rightarrow> (ok, [(client_fd, bytes)])))"

section \<open>The connection loop\<close>

definition kHandlerFailed_value :: i32 where
  "kHandlerFailed_value = 306"

definition run_handler :: "handler option \<Rightarrow> u32 \<Rightarrow> byte list \<Rightarrow> int \<Rightarrow> i32 \<times> byte list" where
  "run_handler h mid params client_fd =
     (case h of
        Some f \<Rightarrow> (case f mid params client_fd of Some r \<Rightarrow> (0, r) | None \<Rightarrow> (kHandlerFailed_value, []))
      | None \<Rightarrow> (kHandlerFailed_value, []))"

text \<open>What one round of the loop finds in the shared fields: the running flag, the handler it copies,
  whether the client is still in the map.\<close>

record round_env =
  at_running :: bool
  at_handler :: "handler option"
  at_present :: bool

text \<open>The loop over the rounds given, and whether it left (\<open>True\<close>) or is still serving; the bytes written
  and what is left of the two socket scripts.\<close>

fun connectionLoop :: "byte_order \<Rightarrow> u32 \<Rightarrow> int \<Rightarrow> round_env list \<Rightarrow> rsock \<Rightarrow> wsock
    \<Rightarrow> bool \<times> byte list \<times> rsock \<times> wsock" where
  "connectionLoop e maxlen client_fd [] rs ws = (False, [], rs, ws)"
| "connectionLoop e maxlen client_fd (env # envs) rs ws =
     (if \<not> at_running env then (True, [], rs, ws)
      else case readRequest e rs maxlen of
        (None, rs1) \<Rightarrow> (True, [], rs1, ws)
      | (Some (mid, params), rs1) \<Rightarrow>
          (let (status, response) = run_handler (at_handler env) mid params client_fd in
           if \<not> at_present env then (True, [], rs1, ws)
           else case writeResponse e ws status response of
             (False, bytes, ws1) \<Rightarrow> (True, bytes, rs1, ws1)
           | (True, bytes, ws1) \<Rightarrow>
               (case connectionLoop e maxlen client_fd envs rs1 ws1 of
                  (left, out, rs2, ws2) \<Rightarrow> (left, bytes @ out, rs2, ws2))))"

section \<open>Start and stop\<close>

text \<open>The descriptors the kernel hands out are free and distinct.\<close>

definition fresh_io :: "start_io \<Rightarrow> os \<Rightarrow> bool" where
  "fresh_io io os \<longleftrightarrow>
     (\<forall>r w. io_pipe io = Some (r, w) \<longrightarrow> r \<noteq> w \<and> 0 \<le> r \<and> 0 \<le> w
        \<and> os_open os r = None \<and> os_open os w = None)
     \<and> (\<forall>l. io_socket io = Some l \<longrightarrow> 0 \<le> l \<and> os_open os l = None
        \<and> (\<forall>r w. io_pipe io = Some (r, w) \<longrightarrow> l \<noteq> r \<and> l \<noteq> w))"

lemma start_failure_closes:
  assumes "fresh_io io os" "\<not> m_running sv" "start io h d sv os = (False, sv', os')"
  shows "os_open os' = os_open os \<and> \<not> m_running sv'"
proof -
  have undo: "((os_open os)(r \<mapsto> PipeEnd, w \<mapsto> PipeEnd))(r := None, w := None) = os_open os"
    if "os_open os r = None" "os_open os w = None" for r w
    using that by (auto simp: fun_eq_iff)
  show ?thesis
  proof (cases "io_pipe io")
    case None
    with assms(2,3) show ?thesis by (auto simp: start_def)
  next
    case (Some rw)
    obtain r w where rw: "rw = (r, w)" by (rule prod.exhaust)
    have f: "os_open os r = None" "os_open os w = None" "r \<noteq> w"
      using assms(1) Some rw by (auto simp: fresh_io_def)
    show ?thesis
    proof (cases "io_socket io")
      case None
      with assms(2,3) Some rw f show ?thesis
        by (auto simp: start_def Let_def close_pipe_def os_close_def fun_eq_iff)
    next
      case (Some l)
      have "os_open os l = None" "l \<noteq> r" "l \<noteq> w"
        using assms(1) Some \<open>io_pipe io = Some rw\<close> rw by (auto simp: fresh_io_def)
      with assms(2,3) Some \<open>io_pipe io = Some rw\<close> rw f show ?thesis
        by (auto simp: start_def Let_def close_pipe_def close_listen_def os_close_def os_unlink_def fun_eq_iff
            split: if_splits)
    qed
  qed
qed

lemma start_success:
  assumes "fresh_io io os" "\<not> m_running sv" "start io h d sv os = (True, sv', os')"
  shows "\<exists>r w l. m_running sv' \<and> m_shutdownPipe sv' = (r, w) \<and> m_listenFd sv' = l
    \<and> os_open os' = (os_open os)(r \<mapsto> PipeEnd, w \<mapsto> PipeEnd, l \<mapsto> Listener (sun_path (m_socketPath sv)))
    \<and> os_sockets os' = insert (sun_path (m_socketPath sv)) (os_sockets os - {m_socketPath sv})
    \<and> m_socketPath sv' = m_socketPath sv \<and> m_clients sv' = m_clients sv
    \<and> m_requestHandler sv' = h \<and> m_disconnectHandler sv' = d
    \<and> 0 \<le> r \<and> 0 \<le> w \<and> 0 \<le> l \<and> distinct [r, w, l]
    \<and> os_open os r = None \<and> os_open os w = None \<and> os_open os l = None"
proof -
  have "io_pipe io \<noteq> None"
  proof
    assume "io_pipe io = None"
    with assms(2,3) show False by (simp add: start_def)
  qed
  then obtain r w where p: "io_pipe io = Some (r, w)" by auto
  have "io_socket io \<noteq> None"
  proof
    assume "io_socket io = None"
    with assms(2,3) p show False by (simp add: start_def Let_def close_pipe_def)
  qed
  then obtain l where s: "io_socket io = Some l" by auto
  have f: "r \<noteq> w \<and> 0 \<le> r \<and> 0 \<le> w \<and> os_open os r = None \<and> os_open os w = None
      \<and> 0 \<le> l \<and> os_open os l = None \<and> l \<noteq> r \<and> l \<noteq> w"
    using assms(1) p s by (simp add: fresh_io_def)
  show ?thesis
    using assms(2,3) p s f
    by (intro exI [of _ r] exI [of _ w] exI [of _ l])
      (auto simp: start_def Let_def os_unlink_def fun_eq_iff close_pipe_def close_listen_def split: if_splits)
qed

lemma start_path_free:
  assumes "fresh_io io os" "\<not> m_running sv" "start io h d sv os = (True, sv', os')"
  shows "sun_path (m_socketPath sv) \<notin> os_sockets os - {m_socketPath sv}"
proof -
  have "io_pipe io \<noteq> None"
  proof
    assume "io_pipe io = None"
    with assms(2,3) show False by (simp add: start_def)
  qed
  then obtain r w where p: "io_pipe io = Some (r, w)" by auto
  have "io_socket io \<noteq> None"
  proof
    assume "io_socket io = None"
    with assms(2,3) p show False by (simp add: start_def Let_def close_pipe_def)
  qed
  then obtain l where s: "io_socket io = Some l" by auto
  show ?thesis
    using assms(2,3) p s
    by (auto simp: start_def Let_def os_unlink_def close_pipe_def close_listen_def split: if_splits)
qed

lemma stop_after_start:
  assumes "fresh_io io os" "\<not> m_running sv" "start io h d sv os = (True, sv', os')" "m_socketPath sv \<noteq> []"
  shows "\<exists>fds sv'' os''. stop sv' os' = (fds, sv'', os'') \<and> os_open os'' = os_open os
    \<and> \<not> m_running sv'' \<and> m_requestHandler sv'' = None \<and> \<not> m_disconnectHandler sv''
    \<and> os_sockets os'' = insert (sun_path (m_socketPath sv)) (os_sockets os) - {m_socketPath sv}"
proof -
  obtain r w l where s: "m_running sv'" "m_shutdownPipe sv' = (r, w)" "m_listenFd sv' = l"
      "os_open os' = (os_open os)(r \<mapsto> PipeEnd, w \<mapsto> PipeEnd, l \<mapsto> Listener (sun_path (m_socketPath sv)))"
      "os_sockets os' = insert (sun_path (m_socketPath sv)) (os_sockets os - {m_socketPath sv})"
      "m_socketPath sv' = m_socketPath sv" "0 \<le> r" "0 \<le> w" "0 \<le> l" "distinct [r, w, l]"
      "os_open os r = None" "os_open os w = None" "os_open os l = None"
    using start_success [OF assms(1-3)] by auto
  then have "(os_open os')(l := None, r := None, w := None) = os_open os"
    by (auto simp: fun_eq_iff)
  with s assms(4) show ?thesis
    by (auto simp: stop_def Let_def close_listen_def os_close_def os_unlink_def)
qed

section \<open>The connection loop answers in order\<close>

text \<open>Rounds in which the server runs, the client is known and the handler is \<open>h\<close>.\<close>

definition steady :: "handler option \<Rightarrow> round_env" where
  "steady h = \<lparr>at_running = True, at_handler = h, at_present = True\<rparr>"

definition answer :: "byte_order \<Rightarrow> handler option \<Rightarrow> int \<Rightarrow> u32 \<times> byte list \<Rightarrow> byte list" where
  "answer e h fd q = (case run_handler h (fst q) (snd q) fd of (status, r) \<Rightarrow> encodeResponse e status r)"

lemma connectionLoop_round:
  assumes "pending rs = request_channel.encode_all e ((k, body) # reqs) @ later" "length body \<le> unat maxlen"
  shows "\<exists>rs1. pending rs1 = request_channel.encode_all e reqs @ later
    \<and> connectionLoop e maxlen fd (steady h # envs) rs ws =
       (case writeAll ws (answer e h fd (k, body)) of
          (False, bytes, ws1) \<Rightarrow> (True, bytes, rs1, ws1)
        | (True, bytes, ws1) \<Rightarrow>
            (case connectionLoop e maxlen fd envs rs1 ws1 of
               (left, out, rs2, ws2) \<Rightarrow> (left, bytes @ out, rs2, ws2)))"
proof -
  have "pending rs = encodeRequest e k body @ request_channel.encode_all e reqs @ later"
    using assms(1) by (simp add: request_channel.encode_all_def)
  then obtain rs1 where "readRequest e rs maxlen = (Some (k, body), rs1)"
      "pending rs1 = request_channel.encode_all e reqs @ later"
    using request_channel.rd_enc assms(2) by blast
  then show ?thesis
    by (intro exI [of _ rs1]) (simp add: steady_def answer_def writeResponse_def split: prod.split)
qed

lemma connectionLoop_answers:
  assumes "pending rs = request_channel.encode_all e reqs @ later"
    and "\<forall>(k, body) \<in> set reqs. length body \<le> unat maxlen"
  shows "case connectionLoop e maxlen fd (replicate (length reqs) (steady h)) rs ws of (left, out, rs', ws') \<Rightarrow>
      if left then \<exists>n partial rest. n < length reqs \<and> rest \<noteq> [] \<and> partial @ rest = answer e h fd (reqs ! n)
             \<and> out = concat (map (answer e h fd) (take n reqs)) @ partial
      else out = concat (map (answer e h fd) reqs) \<and> pending rs' = later"
  using assms
proof (induction reqs arbitrary: rs ws)
  case Nil
  then show ?case by (simp add: request_channel.encode_all_def)
next
  case (Cons q reqs)
  obtain k body where q: "q = (k, body)" by (rule prod.exhaust)
  have len: "length body \<le> unat maxlen" using Cons.prems(2) q by simp
  obtain rs1 where rs1: "pending rs1 = request_channel.encode_all e reqs @ later"
    and loop: "connectionLoop e maxlen fd (steady h # replicate (length reqs) (steady h)) rs ws =
       (case writeAll ws (answer e h fd q) of
          (False, bytes, ws1) \<Rightarrow> (True, bytes, rs1, ws1)
        | (True, bytes, ws1) \<Rightarrow>
            (case connectionLoop e maxlen fd (replicate (length reqs) (steady h)) rs1 ws1 of
               (left, out, rs2, ws2) \<Rightarrow> (left, bytes @ out, rs2, ws2)))"
    using connectionLoop_round [OF Cons.prems(1) [unfolded q] len] unfolding q by blast
  obtain ok bytes ws1 where w: "writeAll ws (answer e h fd q) = (ok, bytes, ws1)" by (rule prod_cases3)
  show ?case
  proof (cases ok)
    case False
    with w have "writeAll ws (answer e h fd q) = (False, bytes, ws1)" by simp
    from writeAll_partial [OF this] obtain rest where "rest \<noteq> []" "answer e h fd q = bytes @ rest" by auto
    then have "\<exists>n partial rest. n < length (q # reqs) \<and> rest \<noteq> [] \<and> partial @ rest = answer e h fd ((q # reqs) ! n)
        \<and> bytes = concat (map (answer e h fd) (take n (q # reqs))) @ partial"
      by (intro exI [of _ 0] exI [of _ bytes] exI [of _ rest]) simp
    moreover have "connectionLoop e maxlen fd (replicate (length (q # reqs)) (steady h)) rs ws = (True, bytes, rs1, ws1)"
      using loop w False by (simp del: connectionLoop.simps)
    ultimately show ?thesis by (simp only: prod.case if_True)
  next
    case True
    with w have "writeAll ws (answer e h fd q) = (True, bytes, ws1)" by simp
    then have bytes: "bytes = answer e h fd q" by (rule writeAll_complete)
    obtain left out rs2 ws2 where r: "connectionLoop e maxlen fd (replicate (length reqs) (steady h)) rs1 ws1
        = (left, out, rs2, ws2)" by (rule prod_cases4)
    have loop': "connectionLoop e maxlen fd (replicate (length (q # reqs)) (steady h)) rs ws
        = (left, bytes @ out, rs2, ws2)"
      using loop w True r by (simp del: connectionLoop.simps)
    from Cons.IH [OF rs1, of ws1] Cons.prems(2) r
    have ih: "if left then \<exists>n partial rest. n < length reqs \<and> rest \<noteq> [] \<and> partial @ rest = answer e h fd (reqs ! n)
             \<and> out = concat (map (answer e h fd) (take n reqs)) @ partial
      else out = concat (map (answer e h fd) reqs) \<and> pending rs2 = later" by simp
    show ?thesis
    proof (cases left)
      case True
      with ih obtain n partial rest where n: "n < length reqs" "rest \<noteq> []" "partial @ rest = answer e h fd (reqs ! n)"
        "out = concat (map (answer e h fd) (take n reqs)) @ partial" by auto
      then have "\<exists>n partial rest. n < length (q # reqs) \<and> rest \<noteq> [] \<and> partial @ rest = answer e h fd ((q # reqs) ! n)
        \<and> bytes @ out = concat (map (answer e h fd) (take n (q # reqs))) @ partial"
        by (intro exI [of _ "Suc n"] exI [of _ partial] exI [of _ rest]) (simp add: bytes)
      then show ?thesis unfolding loop' using True by (simp only: prod.case if_True)
    next
      case False
      with ih show ?thesis unfolding loop' by (simp add: bytes)
    qed
  qed
qed

lemma answer_nonempty: "answer e h fd q \<noteq> []"
proof -
  have "length (encodeResponse e status r) = 8 + length r" for status r
    by (simp add: encodeResponse_def codec_simps)
  then have "0 < length (answer e h fd q)" unfolding answer_def by (simp split: prod.split del: length_greater_0_conv)
  then show ?thesis by simp
qed

text \<open>A kernel that takes each response whole lets the loop answer every request.\<close>

lemma connectionLoop_completes:
  assumes "pending rs = request_channel.encode_all e reqs @ later"
    and "\<forall>(k, body) \<in> set reqs. length body \<le> unat maxlen"
    and "\<forall>q \<in> set reqs. length (answer e h fd q) \<le> N"
  shows "\<not> fst (connectionLoop e maxlen fd (replicate (length reqs) (steady h)) rs (replicate (length reqs) (Taken N)))"
  using assms
proof (induction reqs arbitrary: rs)
  case (Cons q reqs)
  obtain k body where q: "q = (k, body)" by (rule prod.exhaust)
  have len: "length body \<le> unat maxlen" using Cons.prems(2) q by simp
  obtain rs1 where rs1: "pending rs1 = request_channel.encode_all e reqs @ later"
    and loop: "connectionLoop e maxlen fd (steady h # replicate (length reqs) (steady h)) rs (replicate (length (q # reqs)) (Taken N)) =
       (case writeAll (replicate (length (q # reqs)) (Taken N)) (answer e h fd q) of
          (False, bytes, ws1) \<Rightarrow> (True, bytes, rs1, ws1)
        | (True, bytes, ws1) \<Rightarrow>
            (case connectionLoop e maxlen fd (replicate (length reqs) (steady h)) rs1 ws1 of
               (left, out, rs2, ws2) \<Rightarrow> (left, bytes @ out, rs2, ws2)))"
    using connectionLoop_round [OF Cons.prems(1) [unfolded q] len] unfolding q by blast
  have "writeAll (replicate (length (q # reqs)) (Taken N)) (answer e h fd q)
      = (True, answer e h fd q, replicate (length reqs) (Taken N))"
    using Cons.prems(3) answer_nonempty [of e h fd q] by (subst writeAll.simps) (simp add: writeAll.simps)
  then show ?case
    using loop Cons.IH [OF rs1] Cons.prems(2,3) by (auto simp del: connectionLoop.simps split: prod.splits)
qed simp

section \<open>Threads\<close>

text \<open>
  A connection thread serves its descriptor, then has erased the client, then has notified the
  disconnect handler, then has closed the descriptor.  A push that has collected its targets is in
  flight until it has written to each.  The trace records what the outside sees.
\<close>

datatype pc = Fresh | Serving int | Erased int | Notified int | Gone

datatype observed = Disconnected nat | Delivered nat u32 nat

record system =
  srv :: server
  kos :: os
  next_conn :: nat
  conn_pc :: "nat \<Rightarrow> pc"
  flights :: "(u32 \<times> (int \<times> nat) list) list"
  trace :: "observed list"

definition do_accept :: "int \<Rightarrow> system \<Rightarrow> system" where
  "do_accept fd s =
     (let g = next_conn s in
      s\<lparr>srv := (srv s)\<lparr>m_clients := (fd, g) # smap_erase fd (m_clients (srv s)),
                       m_states := (m_states (srv s))(g := {})\<rparr>,
        kos := (kos s)\<lparr>os_open := (os_open (kos s))(fd \<mapsto> Conn g)\<rparr>,
        next_conn := g + 1, conn_pc := (conn_pc s)(g := Serving fd)\<rparr>)"

definition do_leave :: "nat \<Rightarrow> int \<Rightarrow> system \<Rightarrow> system" where
  "do_leave g fd s =
     s\<lparr>srv := (srv s)\<lparr>m_clients := smap_erase fd (m_clients (srv s))\<rparr>,
       conn_pc := (conn_pc s)(g := Erased fd)\<rparr>"

definition do_notify :: "nat \<Rightarrow> int \<Rightarrow> system \<Rightarrow> system" where
  "do_notify g fd s =
     s\<lparr>conn_pc := (conn_pc s)(g := Notified fd),
       trace := (if m_running (srv s) \<and> m_disconnectHandler (srv s)
                 then trace s @ [Disconnected g] else trace s)\<rparr>"

definition do_close :: "nat \<Rightarrow> int \<Rightarrow> system \<Rightarrow> system" where
  "do_close g fd s = s\<lparr>kos := os_close fd (kos s), conn_pc := (conn_pc s)(g := Gone)\<rparr>"

definition do_collect :: "u32 \<Rightarrow> system \<Rightarrow> system" where
  "do_collect ev s = s\<lparr>flights := flights s @ [(ev, push_targets ev (srv s))]\<rparr>"

text \<open>One write of a push reaches whatever connection the descriptor refers to now.\<close>

definition do_push :: "nat \<Rightarrow> system \<Rightarrow> system" where
  "do_push i s =
     (case flights s ! i of
        (ev, []) \<Rightarrow> s
      | (ev, (fd, g) # rest) \<Rightarrow>
          s\<lparr>flights := (flights s)[i := (ev, rest)],
            trace := (case os_open (kos s) fd of
                        Some (Conn g') \<Rightarrow> trace s @ [Delivered g' ev g]
                      | _ \<Rightarrow> trace s)\<rparr>)"

inductive srv_step :: "system \<Rightarrow> system \<Rightarrow> bool" where
  accept: "m_running (srv s) \<Longrightarrow> os_open (kos s) fd = None \<Longrightarrow> srv_step s (do_accept fd s)"
| leave: "conn_pc s g = Serving fd \<Longrightarrow> srv_step s (do_leave g fd s)"
| notify: "conn_pc s g = Erased fd \<Longrightarrow> srv_step s (do_notify g fd s)"
| close: "conn_pc s g = Notified fd \<Longrightarrow> srv_step s (do_close g fd s)"
| subscribe: "srv_step s (s\<lparr>srv := snd (addSubscription fd ev (srv s))\<rparr>)"
| unsubscribe: "srv_step s (s\<lparr>srv := snd (removeSubscription fd ev (srv s))\<rparr>)"
| collect: "srv_step s (do_collect ev s)"
| push: "i < length (flights s) \<Longrightarrow> srv_step s (do_push i s)"
| quit: "stop (srv s) (kos s) = (fds, sv, os') \<Longrightarrow> \<forall>fd g. os_open (kos s) fd = Some (Conn g) \<longrightarrow> os_open os' fd = Some (Conn g)
    \<Longrightarrow> srv_step s (s\<lparr>srv := sv, kos := os'\<rparr>)"

inductive_cases srv_stepE: "srv_step s s'"

definition system_init :: "server \<Rightarrow> os \<Rightarrow> system" where
  "system_init sv os =
     \<lparr>srv = sv, kos = os, next_conn = 0, conn_pc = (\<lambda>_. Fresh), flights = [], trace = []\<rparr>"

text \<open>Runs of a started server whose process has no other connection open.\<close>

inductive srv_reach :: "system \<Rightarrow> bool" where
  init: "m_running sv \<Longrightarrow> m_clients sv = [] \<Longrightarrow> \<forall>fd g. os_open os fd \<noteq> Some (Conn g) \<Longrightarrow> srv_reach (system_init sv os)"
| step: "srv_reach s \<Longrightarrow> srv_step s s' \<Longrightarrow> srv_reach s'"

definition on_fd :: "pc \<Rightarrow> int option" where
  "on_fd p = (case p of Serving fd \<Rightarrow> Some fd | Erased fd \<Rightarrow> Some fd | Notified fd \<Rightarrow> Some fd | _ \<Rightarrow> None)"

text \<open>The client map, the open descriptors and the threads' positions agree.\<close>

definition clients_agree :: "system \<Rightarrow> bool" where
  "clients_agree s \<longleftrightarrow> (\<forall>fd g. map_of (m_clients (srv s)) fd = Some g \<longleftrightarrow> conn_pc s g = Serving fd)"

definition open_agree :: "system \<Rightarrow> bool" where
  "open_agree s \<longleftrightarrow> (\<forall>fd g. os_open (kos s) fd = Some (Conn g) \<longleftrightarrow> on_fd (conn_pc s g) = Some fd)"

definition fresh_agree :: "system \<Rightarrow> bool" where
  "fresh_agree s \<longleftrightarrow> (\<forall>g. next_conn s \<le> g \<longleftrightarrow> conn_pc s g = Fresh)"

definition distinct_clients :: "system \<Rightarrow> bool" where
  "distinct_clients s \<longleftrightarrow> distinct (map fst (m_clients (srv s)))"

text \<open>A target in flight is closed or still on the descriptor it was collected with.\<close>

definition flights_ok :: "system \<Rightarrow> bool" where
  "flights_ok s \<longleftrightarrow> (\<forall>f \<in> set (flights s). \<forall>(fd, g) \<in> set (snd f).
     conn_pc s g = Gone \<or> on_fd (conn_pc s g) = Some fd)"

text \<open>A connection's disconnect is reported at most once, and not before its client is erased.\<close>

definition disconnects_ok :: "system \<Rightarrow> bool" where
  "disconnects_ok s \<longleftrightarrow> (\<forall>g. count_list (trace s) (Disconnected g)
     \<le> (case conn_pc s g of Notified fd \<Rightarrow> 1 | Gone \<Rightarrow> 1 | _ \<Rightarrow> 0))"

text \<open>An event reaches a connection other than the one collected only if that one is closed.\<close>

definition deliveries_ok :: "system \<Rightarrow> bool" where
  "deliveries_ok s \<longleftrightarrow> (\<forall>g ev g'. Delivered g ev g' \<in> set (trace s) \<longrightarrow> g' = g \<or> conn_pc s g' = Gone)"

definition sys_inv :: "system \<Rightarrow> bool" where
  "sys_inv s \<longleftrightarrow> clients_agree s \<and> open_agree s \<and> fresh_agree s \<and> distinct_clients s
     \<and> flights_ok s \<and> disconnects_ok s \<and> deliveries_ok s"

lemmas inv_parts = clients_agree_def open_agree_def fresh_agree_def distinct_clients_def
  flights_ok_def disconnects_ok_def deliveries_ok_def

lemma inv_init: "m_clients sv = [] \<Longrightarrow> \<forall>fd g. os_open os fd \<noteq> Some (Conn g) \<Longrightarrow> sys_inv (system_init sv os)"
  by (simp add: sys_inv_def inv_parts system_init_def on_fd_def)

lemma distinct_erase: "distinct (map fst m) \<Longrightarrow> distinct (map fst (smap_erase k m))"
  by (simp add: smap_erase_def distinct_map_filter)

lemma erase_fst [simp]: "k \<notin> fst ` set (smap_erase k m)"
  by (auto simp: smap_erase_def)

lemma on_fd_simps [simp]:
  "on_fd Fresh = None" "on_fd Gone = None" "on_fd (Serving fd) = Some fd" "on_fd (Erased fd) = Some fd"
  "on_fd (Notified fd) = Some fd"
  by (simp_all add: on_fd_def)

lemma deliveries_keep:
  assumes "deliveries_ok s" "\<And>g. conn_pc s g = Gone \<Longrightarrow> conn_pc s' g = Gone"
    and "\<And>g ev g'. Delivered g ev g' \<in> set (trace s') \<Longrightarrow> Delivered g ev g' \<in> set (trace s)"
  shows "deliveries_ok s'"
  using assms unfolding deliveries_ok_def by blast

lemma inv_accept:
  assumes "sys_inv s" "os_open (kos s) fd = None"
  shows "sys_inv (do_accept fd s)"
proof -
  let ?g = "next_conn s" and ?s = "do_accept fd s"
  have cl: "clients_agree s" and op: "open_agree s" and fr: "fresh_agree s" and di: "distinct_clients s"
    and fl: "flights_ok s" and dc: "disconnects_ok s" and de: "deliveries_ok s"
    using assms(1) by (auto simp: sys_inv_def)
  have F: "conn_pc s ?g = Fresh" using fr [unfolded fresh_agree_def, rule_format, of ?g] by simp
  have nofd: "on_fd (conn_pc s g) \<noteq> Some fd" for g
    using op assms(2) unfolding open_agree_def by (metis option.distinct(1))
  then have nos: "conn_pc s g \<noteq> Serving fd" for g by (metis on_fd_simps(3))
  have "clients_agree ?s"
    using cl F nos by (auto simp: clients_agree_def do_accept_def Let_def)
  moreover have "open_agree ?s"
    using op F nofd by (auto simp: open_agree_def do_accept_def Let_def)
  moreover have "next_conn ?s \<le> g \<longleftrightarrow> conn_pc ?s g = Fresh" for g
    using fr [unfolded fresh_agree_def, rule_format, of g] by (cases "g = ?g") (auto simp: do_accept_def Let_def)
  then have "fresh_agree ?s" by (simp add: fresh_agree_def)
  moreover have "distinct_clients ?s"
    using di by (simp add: distinct_clients_def do_accept_def Let_def distinct_erase)
  moreover have "flights_ok ?s"
    using fl F by (fastforce simp: flights_ok_def do_accept_def Let_def)
  moreover have "disconnects_ok ?s"
    using dc F unfolding disconnects_ok_def do_accept_def Let_def
    by (auto dest: spec [of _ ?g])
  moreover have "deliveries_ok ?s"
    by (rule deliveries_keep [OF de]) (use F in \<open>auto simp: do_accept_def Let_def\<close>)
  ultimately show ?thesis by (simp add: sys_inv_def)
qed

lemma inv_leave:
  assumes "sys_inv s" "conn_pc s g = Serving fd"
  shows "sys_inv (do_leave g fd s)"
proof -
  let ?s = "do_leave g fd s"
  have cl: "clients_agree s" and op: "open_agree s" and fr: "fresh_agree s" and di: "distinct_clients s"
    and fl: "flights_ok s" and dc: "disconnects_ok s" and de: "deliveries_ok s"
    using assms(1) by (auto simp: sys_inv_def)
  have uniq: "conn_pc s g' = Serving fd \<Longrightarrow> g' = g" for g'
    using cl assms(2) unfolding clients_agree_def by (metis option.inject)
  have "map_of (m_clients (srv ?s)) fd' = Some g' \<longleftrightarrow> conn_pc ?s g' = Serving fd'" for fd' g'
  proof (cases "g' = g")
    case True
    then show ?thesis
      using cl [unfolded clients_agree_def, rule_format, of fd' g] assms(2) by (simp add: do_leave_def)
  next
    case False
    then have "conn_pc s g' \<noteq> Serving fd" using uniq by blast
    then show ?thesis
      using False cl [unfolded clients_agree_def, rule_format, of fd' g'] by (simp add: do_leave_def)
  qed
  then have "clients_agree ?s" by (simp add: clients_agree_def)
  moreover have "open_agree ?s"
    using op assms(2) by (auto simp: open_agree_def do_leave_def)
  moreover have "fresh_agree ?s"
    using fr assms(2) by (auto simp: fresh_agree_def do_leave_def)
  moreover have "distinct_clients ?s"
    using di by (simp add: distinct_clients_def do_leave_def distinct_erase)
  moreover have "flights_ok ?s"
    using fl assms(2) by (fastforce simp: flights_ok_def do_leave_def)
  moreover have "disconnects_ok ?s"
    using dc assms(2) unfolding disconnects_ok_def do_leave_def by (auto dest: spec [of _ g])
  moreover have "deliveries_ok ?s"
    by (rule deliveries_keep [OF de]) (use assms(2) in \<open>auto simp: do_leave_def\<close>)
  ultimately show ?thesis by (simp add: sys_inv_def)
qed

lemma inv_notify:
  assumes "sys_inv s" "conn_pc s g = Erased fd"
  shows "sys_inv (do_notify g fd s)"
proof -
  let ?s = "do_notify g fd s"
  have cl: "clients_agree s" and op: "open_agree s" and fr: "fresh_agree s" and di: "distinct_clients s"
    and fl: "flights_ok s" and dc: "disconnects_ok s" and de: "deliveries_ok s"
    using assms(1) by (auto simp: sys_inv_def)
  have "clients_agree ?s"
    using cl assms(2) by (auto simp: clients_agree_def do_notify_def)
  moreover have "open_agree ?s"
    using op assms(2) by (auto simp: open_agree_def do_notify_def)
  moreover have "fresh_agree ?s"
    using fr assms(2) by (auto simp: fresh_agree_def do_notify_def)
  moreover have "distinct_clients ?s"
    using di by (simp add: distinct_clients_def do_notify_def)
  moreover have "flights_ok ?s"
    using fl assms(2) by (fastforce simp: flights_ok_def do_notify_def)
  moreover have "disconnects_ok ?s"
    using dc assms(2) unfolding disconnects_ok_def do_notify_def
    by (auto dest: spec [of _ g])
  moreover have "deliveries_ok ?s"
    by (rule deliveries_keep [OF de]) (use assms(2) in \<open>auto simp: do_notify_def split: if_splits\<close>)
  ultimately show ?thesis by (simp add: sys_inv_def)
qed

lemma inv_close:
  assumes "sys_inv s" "conn_pc s g = Notified fd"
  shows "sys_inv (do_close g fd s)"
proof -
  let ?s = "do_close g fd s"
  have cl: "clients_agree s" and op: "open_agree s" and fr: "fresh_agree s" and di: "distinct_clients s"
    and fl: "flights_ok s" and dc: "disconnects_ok s" and de: "deliveries_ok s"
    using assms(1) by (auto simp: sys_inv_def)
  have uniq: "on_fd (conn_pc s g') = Some fd \<Longrightarrow> g' = g" for g'
    using op assms(2) unfolding open_agree_def by (metis desc.inject(2) on_fd_simps(5) option.inject)
  have "clients_agree ?s"
    using cl assms(2) by (auto simp: clients_agree_def do_close_def)
  moreover have "open_agree ?s"
    using op assms(2) uniq by (auto simp: open_agree_def do_close_def os_close_def)
  moreover have "fresh_agree ?s"
    using fr assms(2) by (auto simp: fresh_agree_def do_close_def)
  moreover have "distinct_clients ?s"
    using di by (simp add: distinct_clients_def do_close_def)
  moreover have "flights_ok ?s"
    using fl by (fastforce simp: flights_ok_def do_close_def)
  moreover have "disconnects_ok ?s"
    using dc assms(2) unfolding disconnects_ok_def do_close_def
    by (auto dest: spec [of _ g])
  moreover have "deliveries_ok ?s"
    using de by (auto simp: deliveries_ok_def do_close_def)
  ultimately show ?thesis by (simp add: sys_inv_def)
qed

text \<open>Steps that leave the client map, the descriptors and the positions alone.\<close>

lemma inv_frame:
  assumes "sys_inv s" "m_clients (srv s') = m_clients (srv s)" "conn_pc s' = conn_pc s"
    and "next_conn s' = next_conn s" "flights s' = flights s" "trace s' = trace s"
    and "\<And>fd g. os_open (kos s') fd = Some (Conn g) \<longleftrightarrow> os_open (kos s) fd = Some (Conn g)"
  shows "sys_inv s'"
  using assms by (simp add: sys_inv_def inv_parts)

lemma inv_subscribe: "sys_inv s \<Longrightarrow> sys_inv (s\<lparr>srv := snd (addSubscription fd ev (srv s))\<rparr>)"
  by (rule inv_frame) (auto simp: addSubscription_def split: option.splits)

lemma inv_unsubscribe: "sys_inv s \<Longrightarrow> sys_inv (s\<lparr>srv := snd (removeSubscription fd ev (srv s))\<rparr>)"
  by (rule inv_frame) (auto simp: removeSubscription_def split: option.splits)

lemma inv_collect:
  assumes "sys_inv s"
  shows "sys_inv (do_collect ev s)"
proof -
  have "on_fd (conn_pc s g) = Some fd" if "(fd, g) \<in> set (m_clients (srv s))" for fd g
  proof -
    have "map_of (m_clients (srv s)) fd = Some g"
      using that assms by (simp add: sys_inv_def distinct_clients_def)
    with assms have "conn_pc s g = Serving fd" by (simp add: sys_inv_def clients_agree_def)
    then show ?thesis by simp
  qed
  then show ?thesis
    using assms by (auto simp: sys_inv_def inv_parts do_collect_def push_targets_def)
qed

lemma count_list_snoc: "count_list (xs @ [x]) y = count_list xs y + (if x = y then 1 else 0)"
  by simp

lemma inv_push:
  assumes "sys_inv s" "i < length (flights s)"
  shows "sys_inv (do_push i s)"
proof (cases "flights s ! i")
  case (Pair ev ts)
  show ?thesis
  proof (cases ts)
    case Nil
    with Pair assms show ?thesis by (simp add: do_push_def)
  next
    case (Cons t rest)
    obtain fd g where t: "t = (fd, g)" by (rule prod.exhaust)
    have mem: "(ev, (fd, g) # rest) \<in> set (flights s)"
      using Pair Cons t assms(2) by (metis nth_mem)
    have tgt: "conn_pc s g = Gone \<or> on_fd (conn_pc s g) = Some fd"
      using assms(1) mem by (fastforce simp: sys_inv_def flights_ok_def)
    have op: "open_agree s" using assms(1) by (simp add: sys_inv_def)
    have here: "g = g' \<or> conn_pc s g = Gone" if "os_open (kos s) fd = Some (Conn g')" for g'
      using tgt that op unfolding open_agree_def by (metis desc.inject(2) option.inject)
    have fl: "flights_ok (do_push i s)"
      using assms(1) mem Pair Cons t
      by (auto simp: sys_inv_def flights_ok_def do_push_def dest!: set_update_subset_insert [THEN subsetD])
        fastforce
    show ?thesis
      using assms(1) Pair Cons t here fl
      by (auto simp: sys_inv_def inv_parts do_push_def split: option.splits desc.splits)
  qed
qed

lemma srv_step_inv:
  assumes "sys_inv s" "srv_step s s'"
  shows "sys_inv s'"
  using assms(2)
proof cases
  case (quit fds sv os')
  have cl: "m_clients sv = m_clients (srv s)"
    using quit(2) by (auto simp: stop_def Let_def close_listen_def split: if_splits)
  have sub: "os_open (kos s) fd = Some (Conn g)" if "os_open os' fd = Some (Conn g)" for fd g
    using quit(2) that
    by (auto simp: stop_def Let_def close_listen_def os_close_def os_unlink_def split: if_splits)
  show ?thesis
  proof (rule inv_frame [OF assms(1)])
    show "os_open (kos s') fd = Some (Conn g) \<longleftrightarrow> os_open (kos s) fd = Some (Conn g)" for fd g
    proof -
      have "os_open (kos s') fd = os_open os' fd" by (simp add: quit(1))
      then show ?thesis using sub [of fd g] quit(3) [rule_format, of fd g] by (intro iffI) simp_all
    qed
  qed (simp_all add: quit(1) cl)
qed (use assms(1) inv_accept inv_leave inv_notify inv_close inv_subscribe inv_unsubscribe inv_collect inv_push
     in \<open>simp_all\<close>)

lemma srv_reach_inv: "srv_reach s \<Longrightarrow> sys_inv s"
  by (induction rule: srv_reach.induct) (auto intro: inv_init srv_step_inv)

section \<open>Properties\<close>

lemma pushEvent_fold:
  "foldl (\<lambda>(any_sent, out) (fd, g).
              case writeEvent e (ws fd) ev payload of
                (ok, bytes, _) \<Rightarrow> (any_sent \<or> ok, out @ [(fd, bytes)])) (a, out0) ts
   = (a \<or> list_ex (\<lambda>(fd, g). fst (writeEvent e (ws fd) ev payload)) ts,
      out0 @ map (\<lambda>(fd, g). (fd, fst (snd (writeEvent e (ws fd) ev payload)))) ts)"
  by (induction ts arbitrary: a out0) (auto split: prod.splits)

text \<open>A failed start leaves no descriptor behind; a successful one followed by a stop gives every
  descriptor back, drops the handlers and removes the socket file of a path that fits
  \<open>sun_path\<close>.\<close>

theorem start_stop_balance:
  assumes "fresh_io io os" "\<not> m_running sv" "start io h d sv os = (ok, sv', os')"
    and "m_socketPath sv \<noteq> []" "length (m_socketPath sv) \<le> 107"
  shows "(\<not> ok \<longrightarrow> os_open os' = os_open os \<and> \<not> m_running sv')
    \<and> (ok \<longrightarrow> m_running sv' \<and> (\<exists>fds sv'' os''. stop sv' os' = (fds, sv'', os'')
          \<and> os_open os'' = os_open os \<and> \<not> m_running sv'' \<and> m_requestHandler sv'' = None
          \<and> m_socketPath sv \<notin> os_sockets os'' \<and> stop sv'' os'' = ([], sv'', os'')))"
proof (cases ok)
  case False
  with assms start_failure_closes [OF assms(1,2)] show ?thesis by auto
next
  case True
  with assms(3) have run: "start io h d sv os = (True, sv', os')" by simp
  obtain fds sv'' os'' where "stop sv' os' = (fds, sv'', os'')" "os_open os'' = os_open os"
      "\<not> m_running sv''" "m_requestHandler sv'' = None"
      "os_sockets os'' = insert (sun_path (m_socketPath sv)) (os_sockets os) - {m_socketPath sv}"
    using stop_after_start [OF assms(1,2) run assms(4)] by blast
  moreover have "m_running sv'" using start_success [OF assms(1,2) run] by blast
  moreover have "stop sv'' os'' = ([], sv'', os'')" using \<open>\<not> m_running sv''\<close> by (simp add: stop_def)
  ultimately show ?thesis using True by auto
qed

definition sample_config :: IpcConfig where
  "sample_config =
     \<lparr>max_frame_bytes = 10485760, receive_timeout_ms = 60000, connect_timeout_ms = 3000, listen_backlog = 5,
      reconnect = \<lparr>initial_backoff_ms = 100, max_backoff_ms = 5000, multiplier = (\<lambda>x. x * 2)\<rparr>\<rparr>"

definition sample_io :: start_io where
  "sample_io = \<lparr>io_pipe = Some (3, 4), io_socket = Some 5, io_bind = True, io_listen = True\<rparr>"

definition sample_os :: os where
  "sample_os = \<lparr>os_open = Map.empty, os_sockets = {}\<rparr>"

theorem start_stop_balance_witness:
  "\<exists>sv' os'. start sample_io None False (server_new ''/tmp/s'' sample_config) sample_os = (True, sv', os')
     \<and> (\<exists>fds sv'' os''. stop sv' os' = (fds, sv'', os'') \<and> os_open os'' = Map.empty)"
proof -
  let ?sv = "server_new ''/tmp/s'' sample_config"
  let ?r = "start sample_io None False ?sv sample_os"
  have ok: "fst ?r" by (simp add: start_def server_new_def sample_io_def sample_os_def Let_def os_unlink_def)
  have run: "?r = (fst ?r, fst (snd ?r), snd (snd ?r))" by simp
  have "fresh_io sample_io sample_os" by (simp add: fresh_io_def sample_io_def sample_os_def)
  from start_stop_balance [OF this _ run] ok
  have "\<exists>fds sv'' os''. stop (fst (snd ?r)) (snd (snd ?r)) = (fds, sv'', os'') \<and> os_open os'' = Map.empty"
    by (auto simp: server_new_def sample_os_def)
  moreover have "?r = (True, fst (snd ?r), snd (snd ?r))" using run ok by simp
  ultimately show ?thesis by blast
qed

text \<open>A path of 108 bytes or more is bound under its first 107 bytes but unlinked under its full name:
  after a stop the socket file is still there and no later start succeeds.\<close>

theorem long_socket_path_sticks:
  assumes "fresh_io io os" "\<not> m_running sv" "start io h d sv os = (True, sv', os')"
    and "107 < length (m_socketPath sv)" "stop sv' os' = (fds, sv'', os'')"
  shows "sun_path (m_socketPath sv) \<in> os_sockets os''
    \<and> (fresh_io io2 os'' \<longrightarrow> \<not> fst (start io2 h2 d2 sv'' os''))"
proof -
  have neq: "sun_path (m_socketPath sv) \<noteq> m_socketPath sv"
    using assms(4) by (metis length_take less_irrefl min_less_iff_conj sun_path_def min.absorb2 order_less_imp_le)
  have ne: "m_socketPath sv \<noteq> []" using assms(4) by auto
  have sock: "os_sockets os'' = insert (sun_path (m_socketPath sv)) (os_sockets os) - {m_socketPath sv}"
    and stopped: "\<not> m_running sv''"
    using stop_after_start [OF assms(1-3) ne] assms(5) by auto
  have "m_socketPath sv' = m_socketPath sv"
    using start_success [OF assms(1-3)] by blast
  moreover have "m_socketPath sv'' = m_socketPath sv'"
    using assms(5) by (auto simp: stop_def Let_def close_listen_def split: if_splits)
  ultimately have path: "m_socketPath sv'' = m_socketPath sv" by simp
  have "\<not> fst (start io2 h2 d2 sv'' os'')" if "fresh_io io2 os''"
  proof
    assume "fst (start io2 h2 d2 sv'' os'')"
    then obtain sv3 os3 where "start io2 h2 d2 sv'' os'' = (True, sv3, os3)" by (metis prod.collapse)
    from start_path_free [OF that stopped this] sock neq path show False by simp
  qed
  with sock neq show ?thesis by simp
qed

theorem long_socket_path_sticks_witness:
  "\<exists>sv' os' fds sv'' os''. start sample_io None False (server_new (replicate 110 (CHR ''a'')) sample_config) sample_os = (True, sv', os')
     \<and> stop sv' os' = (fds, sv'', os'') \<and> sun_path (replicate 110 (CHR ''a'')) \<in> os_sockets os''"
proof -
  let ?sv = "server_new (replicate 110 (CHR ''a'')) sample_config"
  let ?r = "start sample_io None False ?sv sample_os"
  let ?q = "stop (fst (snd ?r)) (snd (snd ?r))"
  have ok: "fst ?r" by (simp add: start_def server_new_def sample_io_def sample_os_def Let_def os_unlink_def)
  then have run: "?r = (True, fst (snd ?r), snd (snd ?r))" by (simp add: prod_eq_iff)
  have q: "?q = (fst ?q, fst (snd ?q), snd (snd ?q))" by simp
  have "fresh_io sample_io sample_os" by (simp add: fresh_io_def sample_io_def sample_os_def)
  from long_socket_path_sticks [OF this _ run _ q, of sample_io None False]
  have "sun_path (m_socketPath ?sv) \<in> os_sockets (snd (snd ?q))" by (simp add: server_new_def)
  then have "sun_path (replicate 110 (CHR ''a'')) \<in> os_sockets (snd (snd ?q))" by (simp only: server_new_def server.simps)
  with run q show ?thesis by blast
qed

text \<open>C23. While the server runs and the handler stays set, a connection gets one response for each request,
  in the order of the requests and with the handler's result (306 and an empty body when it throws or
  is missing), however its bytes arrive; when a response cannot be written in full the loop leaves
  after a proper prefix of it, and with a kernel that takes each response whole it never does.\<close>

theorem requests_answered_in_order:
  assumes "pending rs = concat (map (\<lambda>(k, body). encodeRequest e k body) reqs)"
    and "\<forall>(k, body) \<in> set reqs. length body \<le> unat maxlen"
  shows "(case connectionLoop e maxlen fd (replicate (length reqs) (steady h)) rs ws of (left, out, rs', ws') \<Rightarrow>
      if left then \<exists>n partial rest. n < length reqs \<and> rest \<noteq> [] \<and> partial @ rest = answer e h fd (reqs ! n)
             \<and> out = concat (map (answer e h fd) (take n reqs)) @ partial
      else out = concat (map (answer e h fd) reqs) \<and> pending rs' = [])
    \<and> ((\<forall>q \<in> set reqs. length (answer e h fd q) \<le> N) \<longrightarrow>
        \<not> fst (connectionLoop e maxlen fd (replicate (length reqs) (steady h)) rs (replicate (length reqs) (Taken N))))"
proof -
  have "pending rs = request_channel.encode_all e reqs @ []"
    using assms(1) by (simp add: request_channel.encode_all_def)
  from connectionLoop_answers [OF this assms(2), where fd = fd and h = h and ws = ws]
    connectionLoop_completes [OF this assms(2), where fd = fd and h = h and N = N]
  show ?thesis by simp
qed

definition echo_or_throw :: "handler" where
  "echo_or_throw mid params fd = (if mid = 7 then Some params else None)"

theorem requests_answered_in_order_witness:
  "\<not> fst (connectionLoop LittleEndian 100 9 (replicate 2 (steady (Some echo_or_throw)))
     [Segment (encodeRequest LittleEndian 7 [1] @ encodeRequest LittleEndian 8 [2])] (replicate 2 (Taken 50)))"
proof -
  let ?reqs = "[(7, [1]), (8, [2])] :: (u32 \<times> byte list) list"
  have short: "\<forall>q \<in> set ?reqs. length (answer LittleEndian (Some echo_or_throw) 9 q) \<le> 50"
    by (simp add: answer_def run_handler_def echo_or_throw_def encodeResponse_def codec_simps)
  have wire: "pending [Segment (encodeRequest LittleEndian 7 [1] @ encodeRequest LittleEndian 8 [2])]
      = concat (map (\<lambda>(k, body). encodeRequest LittleEndian k body) ?reqs)" by simp
  have "\<forall>(k, body) \<in> set ?reqs. length body \<le> unat (100 :: u32)" by simp
  from requests_answered_in_order [OF wire this, THEN conjunct2, THEN mp, OF short]
  have "\<not> fst (connectionLoop LittleEndian 100 9 (replicate (length ?reqs) (steady (Some echo_or_throw)))
     [Segment (encodeRequest LittleEndian 7 [1] @ encodeRequest LittleEndian 8 [2])] (replicate (length ?reqs) (Taken 50)))" .
  moreover have "length ?reqs = 2" by simp
  ultimately show ?thesis by (simp only: not_False_eq_True)
qed

text \<open>C32. In every run the disconnect handler is called at most once for a connection, and only after its
  client has been erased: a connection still in the client map has not been reported.\<close>

theorem disconnect_reported_once:
  assumes "srv_reach s"
  shows "count_list (trace s) (Disconnected g) \<le> 1
    \<and> (map_of (m_clients (srv s)) fd = Some g \<longrightarrow> Disconnected g \<notin> set (trace s))"
proof -
  have inv: "disconnects_ok s" "clients_agree s" using srv_reach_inv [OF assms] by (simp_all add: sys_inv_def)
  have le: "count_list (trace s) (Disconnected g)
     \<le> (case conn_pc s g of Notified fd \<Rightarrow> 1 | Gone \<Rightarrow> 1 | _ \<Rightarrow> 0)"
    using inv(1) by (simp add: disconnects_ok_def)
  have "count_list (trace s) (Disconnected g) = 0" if "map_of (m_clients (srv s)) fd = Some g"
    using le that inv(2) by (simp add: clients_agree_def)
  with le show ?thesis by (auto simp: count_list_0_iff split: pc.splits)
qed

definition running_server :: server where
  "running_server = (server_new ''/s'' sample_config)\<lparr>m_running := True, m_disconnectHandler := True\<rparr>"

lemma reach_start: "srv_reach (system_init running_server sample_os)"
  by (rule srv_reach.init) (simp_all add: running_server_def server_new_def sample_os_def)

theorem disconnect_reported_once_witness:
  "\<exists>s. srv_reach s \<and> trace s = [Disconnected 0] \<and> count_list (trace s) (Disconnected 0) \<le> 1"
proof -
  let ?s0 = "system_init running_server sample_os"
  let ?s1 = "do_accept 9 ?s0" let ?s2 = "do_leave 0 9 ?s1" let ?s3 = "do_notify 0 9 ?s2"
  have "srv_reach ?s1"
    by (rule srv_reach.step [OF reach_start], rule srv_step.accept)
      (simp_all add: system_init_def running_server_def sample_os_def)
  then have "srv_reach ?s2"
    by (rule srv_reach.step, intro srv_step.leave) (simp add: do_accept_def system_init_def)
  then have r: "srv_reach ?s3"
    by (rule srv_reach.step, intro srv_step.notify) (simp add: do_leave_def)
  moreover have "trace ?s3 = [Disconnected 0]"
    by (simp add: do_notify_def do_leave_def do_accept_def system_init_def running_server_def Let_def)
  ultimately show ?thesis using disconnect_reported_once [OF r, of 0] by blast
qed

text \<open>Every event frame a push writes reaches the connection it was collected for, unless that
  connection's descriptor has been closed in the meantime.\<close>

theorem push_reaches_target_or_closed:
  assumes "srv_reach s" "Delivered g ev target \<in> set (trace s)"
  shows "g = target \<or> conn_pc s target = Gone"
  using srv_reach_inv [OF assms(1)] assms(2) by (auto simp: sys_inv_def deliveries_ok_def)

text \<open>The exception happens: the descriptor is closed outside the write lock, so a push that collected
  it can write its frame to a new connection that was given the same number and never subscribed.\<close>

theorem push_to_reused_descriptor:
  "\<exists>s. srv_reach s \<and> Delivered 1 77 0 \<in> set (trace s) \<and> 77 \<notin> m_states (srv s) 1"
proof -
  let ?s0 = "system_init running_server sample_os"
  let ?s1 = "do_accept 9 ?s0"
  let ?s2 = "?s1\<lparr>srv := snd (addSubscription 9 77 (srv ?s1))\<rparr>"
  let ?s3 = "do_collect 77 ?s2" let ?s4 = "do_leave 0 9 ?s3" let ?s5 = "do_notify 0 9 ?s4"
  let ?s6 = "do_close 0 9 ?s5" let ?s7 = "do_accept 9 ?s6" let ?s8 = "do_push 0 ?s7"
  note defs = do_accept_def do_leave_def do_notify_def do_close_def do_collect_def do_push_def Let_def
    system_init_def running_server_def server_new_def sample_os_def addSubscription_def push_targets_def
    os_close_def smap_erase_def
  have 1: "srv_reach ?s1"
    by (rule srv_reach.step [OF reach_start], rule srv_step.accept)
      (simp_all add: system_init_def running_server_def sample_os_def)
  have 2: "srv_reach ?s2" by (rule srv_reach.step [OF 1], rule srv_step.subscribe)
  have 3: "srv_reach ?s3" by (rule srv_reach.step [OF 2], rule srv_step.collect)
  have 4: "srv_reach ?s4" by (rule srv_reach.step [OF 3], rule srv_step.leave) (simp add: defs)
  have 5: "srv_reach ?s5" by (rule srv_reach.step [OF 4], rule srv_step.notify) (simp add: defs)
  have 6: "srv_reach ?s6" by (rule srv_reach.step [OF 5], rule srv_step.close) (simp add: defs)
  have 7: "srv_reach ?s7" by (rule srv_reach.step [OF 6], rule srv_step.accept) (simp_all add: defs)
  have 8: "srv_reach ?s8" by (rule srv_reach.step [OF 7], rule srv_step.push) (simp add: defs)
  moreover have "Delivered 1 77 0 \<in> set (trace ?s8)" "77 \<notin> m_states (srv ?s8) 1" by (simp_all add: defs)
  ultimately show ?thesis by blast
qed

theorem push_reaches_target_or_closed_witness:
  "\<exists>s. srv_reach s \<and> Delivered 1 77 0 \<in> set (trace s) \<and> (1 = (0 :: nat) \<or> conn_pc s 0 = Gone)"
proof -
  obtain s where "srv_reach s" "Delivered 1 77 0 \<in> set (trace s)" using push_to_reused_descriptor by blast
  with push_reaches_target_or_closed [OF this] show ?thesis by blast
qed

text \<open>A push writes one frame to each subscriber of the event and to nobody else, and reports success
  exactly when some frame went out in full; a directed push writes to its client only if that client
  is known and subscribed.\<close>

theorem push_to_subscribers:
  "fst (pushEvent e ws ev payload sv)
     = (\<exists>(fd, g) \<in> set (m_clients sv). ev \<in> m_states sv g \<and> fst (writeEvent e (ws fd) ev payload))
   \<and> map fst (snd (pushEvent e ws ev payload sv))
     = map fst (filter (\<lambda>(fd, g). ev \<in> m_states sv g) (m_clients sv))
   \<and> (snd (pushEventTo e w fd ev payload sv) \<noteq> []
      \<longleftrightarrow> (\<exists>g. map_of (m_clients sv) fd = Some g \<and> ev \<in> m_states sv g))"
proof (intro conjI)
  show "fst (pushEvent e ws ev payload sv)
      = (\<exists>(fd, g) \<in> set (m_clients sv). ev \<in> m_states sv g \<and> fst (writeEvent e (ws fd) ev payload))"
    unfolding pushEvent_def pushEvent_fold by (force simp: push_targets_def list_ex_iff)
  show "map fst (snd (pushEvent e ws ev payload sv))
      = map fst (filter (\<lambda>(fd, g). ev \<in> m_states sv g) (m_clients sv))"
    unfolding pushEvent_def pushEvent_fold by (simp add: push_targets_def comp_def case_prod_unfold)
  show "snd (pushEventTo e w fd ev payload sv) \<noteq> []
      \<longleftrightarrow> (\<exists>g. map_of (m_clients sv) fd = Some g \<and> ev \<in> m_states sv g)"
    by (auto simp: pushEventTo_def split: option.splits prod.splits)
qed

end
