(* ===== verification/Ipc_Accept.thy ===== *)
theory Ipc_Accept
  imports Ipc_Server
begin

text \<open>
  The accept thread of the IPC server (\<open>acceptLoop\<close> in \<open>src/ipc/ipc_server.cpp\<close>) as a function of what it
  finds in each round: the running flag, what the other threads have done since the last round, the answer of
  \<open>select\<close> and the one of \<open>accept\<close>.  Its accepts are the \<open>do_accept\<close> steps of \<open>Ipc_Server\<close>.
\<close>

section \<open>The loop\<close>

datatype select_answer = SelectFails bool | Ready bool bool

text \<open>\<open>SelectFails True\<close> is \<open>EINTR\<close>; \<open>Ready p l\<close> says whether the pipe and the listening socket are readable.\<close>

record accept_round =
  ar_others :: "system \<Rightarrow> system"
  ar_select :: select_answer
  ar_accept :: "int option"

text \<open>\<open>OutOfBounds\<close>: \<open>FD_SET\<close> with a descriptor that is not below \<open>FD_SETSIZE\<close> writes outside the set.\<close>

datatype accept_end = Waiting | LeftLoop | OutOfBounds

definition FD_SETSIZE :: int where "FD_SETSIZE = 1024"

definition fits_set :: "int \<Rightarrow> bool" where
  "fits_set fd \<longleftrightarrow> 0 \<le> fd \<and> fd < FD_SETSIZE"

text \<open>One round; None: the loop goes on.  A failed accept is a round without effect, whatever the error.\<close>

definition accept_turn :: "accept_round \<Rightarrow> system \<Rightarrow> accept_end option \<times> system" where
  "accept_turn r s =
     (if \<not> m_running (srv s) then (Some LeftLoop, s)
      else if \<not> (fits_set (m_listenFd (srv s)) \<and> fits_set (fst (m_shutdownPipe (srv s)))) then (Some OutOfBounds, s)
      else case ar_select r of
        SelectFails intr \<Rightarrow> (if intr then None else Some LeftLoop, s)
      | Ready pipe_ready listen_ready \<Rightarrow>
          if pipe_ready then (Some LeftLoop, s)
          else if listen_ready
            then (case ar_accept r of None \<Rightarrow> (None, s) | Some client_fd \<Rightarrow> (None, do_accept client_fd s))
          else (None, s))"

fun acceptLoop :: "accept_round list \<Rightarrow> system \<Rightarrow> accept_end \<times> system" where
  "acceptLoop [] s = (Waiting, s)"
| "acceptLoop (r # rs) s =
     (case accept_turn r (ar_others r s) of
        (None, s1) \<Rightarrow> acceptLoop rs s1
      | (Some how, s1) \<Rightarrow> (how, s1))"

section \<open>What the loop does to the server\<close>

text \<open>
  What the environment of a run may do: between two rounds the other threads take steps of the server, and a
  descriptor the kernel hands out is a free one.
\<close>

fun rounds_ok :: "accept_round list \<Rightarrow> system \<Rightarrow> bool" where
  "rounds_ok [] s = True"
| "rounds_ok (r # rs) s =
     (srv_step\<^sup>*\<^sup>* s (ar_others r s)
      \<and> (case ar_accept r of None \<Rightarrow> True | Some fd \<Rightarrow> os_open (kos (ar_others r s)) fd = None)
      \<and> rounds_ok rs (snd (accept_turn r (ar_others r s))))"

lemma accept_turn_step:
  assumes "accept_turn r s = (e, s')" "case ar_accept r of None \<Rightarrow> True | Some fd \<Rightarrow> os_open (kos s) fd = None"
  shows "s' = s \<or> srv_step s s'"
  using assms by (auto simp: accept_turn_def split: if_splits select_answer.splits option.splits intro: srv_step.accept)

lemma reach_steps: "srv_step\<^sup>*\<^sup>* s s' \<Longrightarrow> srv_reach s \<Longrightarrow> srv_reach s'"
  by (induction rule: rtranclp_induct) (auto intro: srv_reach.step)

lemma acceptLoop_steps: "rounds_ok rs s \<Longrightarrow> srv_step\<^sup>*\<^sup>* s (snd (acceptLoop rs s))"
proof (induction rs arbitrary: s)
  case (Cons r rs)
  obtain e s1 where turn: "accept_turn r (ar_others r s) = (e, s1)" by (rule prod.exhaust)
  then have "s1 = ar_others r s \<or> srv_step (ar_others r s) s1" using accept_turn_step Cons.prems by simp
  with Cons.prems have now: "srv_step\<^sup>*\<^sup>* s s1" by (auto intro: rtranclp.rtrancl_into_rtrancl)
  have "srv_step\<^sup>*\<^sup>* s1 (snd (acceptLoop rs s1))" using Cons turn by simp
  with now turn show ?case by (cases e) (auto intro: rtranclp_trans)
qed simp

section \<open>Properties\<close>


text \<open>A stop gets through: a round that finds the flag cleared or the pipe readable is the last one, it accepts
  nothing, and the loop has ended whatever rounds the kernel would have had for it.
\<close>

theorem stop_ends_accept_loop:
  assumes "\<forall>s. \<not> m_running (srv (ar_others r s)) \<or> (\<exists>l. ar_select r = Ready True l)"
  shows "acceptLoop (before @ r # after) s = acceptLoop (before @ [r]) s
     \<and> fst (acceptLoop (before @ r # after) s) \<noteq> Waiting"
proof (induction before arbitrary: s)
  case Nil
  have "\<exists>e. accept_turn r (ar_others r s) = (Some e, ar_others r s) \<and> e \<noteq> Waiting"
    using spec [OF assms, of s] by (auto simp: accept_turn_def)
  then show ?case by auto
next
  case (Cons b bs)
  have never: "accept_turn b x \<noteq> (Some Waiting, y)" for x y
    by (auto simp: accept_turn_def split: select_answer.splits option.splits if_splits)
  obtain e s1 where "accept_turn b (ar_others b s) = (e, s1)" by (rule prod.exhaust)
  with Cons.IH [of s1] never [of "ar_others b s" s1] show ?case by (cases e) auto
qed

text \<open>
  A process with many open files: a start that gets descriptors from 1024 on succeeds, and the first round of
  the accept thread then writes outside its descriptor set.
\<close>

theorem high_descriptor_overflows_set:
  assumes "m_running (srv s)" "1024 \<le> m_listenFd (srv s)"
  shows "fst (acceptLoop (\<lparr>ar_others = id, ar_select = a, ar_accept = b\<rparr> # rs) s) = OutOfBounds"
  using assms by (simp add: accept_turn_def fits_set_def FD_SETSIZE_def)

definition quiet_round :: "select_answer \<Rightarrow> int option \<Rightarrow> accept_round" where
  "quiet_round a b = \<lparr>ar_others = id, ar_select = a, ar_accept = b\<rparr>"

definition bound_server :: server where
  "bound_server = running_server\<lparr>m_listenFd := 5, m_shutdownPipe := (3, 4)\<rparr>"

lemma reach_bound: "srv_reach (system_init bound_server sample_os)"
  by (rule srv_reach.init) (simp_all add: bound_server_def running_server_def server_new_def sample_os_def)


theorem stop_ends_accept_loop_witness:
  "fst (acceptLoop ([quiet_round (Ready False True) (Some 7)] @ quiet_round (Ready True True) (Some 8) # [quiet_round (Ready False True) (Some 9)])
      (system_init bound_server sample_os)) \<noteq> Waiting"
proof -
  have "\<forall>s. \<not> m_running (srv (ar_others (quiet_round (Ready True True) (Some 8)) s))
      \<or> (\<exists>l. ar_select (quiet_round (Ready True True) (Some 8)) = Ready True l)"
    unfolding quiet_round_def accept_round.simps by blast
  from stop_ends_accept_loop [OF this] show ?thesis by blast
qed

theorem high_descriptor_overflows_set_witness:
  "fst (acceptLoop [\<lparr>ar_others = id, ar_select = Ready False True, ar_accept = Some 1030\<rparr>]
     (system_init (running_server\<lparr>m_listenFd := 1024\<rparr>) sample_os)) = OutOfBounds"
  by (rule high_descriptor_overflows_set) (simp_all add: system_init_def running_server_def)

end
