(* ===== verification/Ipc_Lifetime.thy ===== *)
theory Ipc_Lifetime
  imports Ipc_Server
begin

text \<open>
  The whole life of a server object (\<open>src/ipc/ipc_server.cpp\<close>): constructed, started and stopped any number of times
  while its connection threads, pushes and subscriptions go on, and destroyed.  \<open>Ipc_Server\<close> follows one run of a
  started server; here the same invariant is carried over restarts, together with the descriptors the server owns.
\<close>

section \<open>Steps of a life\<close>

definition at_server :: "server \<Rightarrow> os \<Rightarrow> system \<Rightarrow> system" where
  "at_server sv os s = s\<lparr>srv := sv, kos := os\<rparr>"

inductive life_step :: "system \<Rightarrow> system \<Rightarrow> bool" where
  Serves: "srv_step s s' \<Longrightarrow> life_step s s'"
| Starts: "fresh_io io (kos s) \<Longrightarrow> start io h d (srv s) (kos s) = (ok, sv, os) \<Longrightarrow> life_step s (at_server sv os s)"
| Stops: "stop (srv s) (kos s) = (fds, sv, os) \<Longrightarrow> life_step s (at_server sv os s)"

text \<open>Lives that begin in \<open>base\<close>, a process without connections of this server.\<close>

inductive life_reach :: "os \<Rightarrow> string \<Rightarrow> IpcConfig \<Rightarrow> system \<Rightarrow> bool" for base path cfg where
  Constructed: "\<forall>fd g. os_open base fd \<noteq> Some (Conn g) \<Longrightarrow> life_reach base path cfg (system_init (server_new path cfg) base)"
| Lives: "life_reach base path cfg s \<Longrightarrow> life_step s s' \<Longrightarrow> life_reach base path cfg s'"

text \<open>\<open>Server::~Server\<close> stops; the threads keep the implementation alive until they are done.\<close>

definition Server_destroy :: "server \<Rightarrow> os \<Rightarrow> int list \<times> server \<times> os" where
  "Server_destroy sv os = stop sv os"

section \<open>What the server owns\<close>

text \<open>The descriptors that are not connections.\<close>

definition besides :: "os \<Rightarrow> int \<rightharpoonup> desc" where
  "besides os fd = (case os_open os fd of Some (Conn g) \<Rightarrow> None | d \<Rightarrow> d)"

definition owned :: "os \<Rightarrow> server \<Rightarrow> os \<Rightarrow> bool" where
  "owned base sv os \<longleftrightarrow>
     (if m_running sv
      then (\<exists>r w l. m_shutdownPipe sv = (r, w) \<and> m_listenFd sv = l \<and> 0 \<le> r \<and> 0 \<le> w \<and> 0 \<le> l \<and> distinct [r, w, l]
        \<and> os_open os r = Some PipeEnd \<and> os_open os w = Some PipeEnd \<and> os_open os l = Some (Listener (sun_path (m_socketPath sv)))
        \<and> (besides os)(r := None, w := None, l := None) = besides base)
      else besides os = besides base)"

definition life_inv :: "os \<Rightarrow> string \<Rightarrow> system \<Rightarrow> bool" where
  "life_inv base path s \<longleftrightarrow> sys_inv s \<and> owned base (srv s) (kos s) \<and> m_socketPath (srv s) = path"

lemma besides_frame: "os_open os' = os_open os \<Longrightarrow> besides os' = besides os"
  by (simp add: besides_def fun_eq_iff)

lemma owned_frame:
  assumes "owned base sv os" "m_running sv' = m_running sv" "m_shutdownPipe sv' = m_shutdownPipe sv"
    and "m_listenFd sv' = m_listenFd sv" "m_socketPath sv' = m_socketPath sv"
    and "besides os' = besides os" "\<And>fd. besides os fd \<noteq> None \<Longrightarrow> os_open os' fd = os_open os fd"
  shows "owned base sv' os'"
  using assms by (auto simp: owned_def besides_def split: if_splits)

lemma stop_owned:
  assumes "owned base sv os" "stop sv os = (fds, sv', os')"
  shows "\<not> m_running sv'" "besides os' = besides base" "m_socketPath sv' = m_socketPath sv" "m_clients sv' = m_clients sv"
    "os_open os' fd = Some (Conn g) \<longleftrightarrow> os_open os fd = Some (Conn g)"
    "m_running sv \<Longrightarrow> m_socketPath sv \<noteq> [] \<Longrightarrow> m_socketPath sv \<notin> os_sockets os'"
    "m_running sv \<Longrightarrow> fds = map fst (m_clients sv)"
proof -
  show "\<not> m_running sv'" "m_socketPath sv' = m_socketPath sv" "m_clients sv' = m_clients sv"
    "m_running sv \<Longrightarrow> m_socketPath sv \<noteq> [] \<Longrightarrow> m_socketPath sv \<notin> os_sockets os'" "m_running sv \<Longrightarrow> fds = map fst (m_clients sv)"
    using assms(2) by (auto simp: stop_def Let_def close_listen_def os_unlink_def split: if_splits)
  show "besides os' = besides base"
  proof (cases "m_running sv")
    case True
    then obtain r w l where o: "m_shutdownPipe sv = (r, w)" "m_listenFd sv = l" "0 \<le> r" "0 \<le> w" "0 \<le> l"
      "(besides os)(r := None, w := None, l := None) = besides base" using assms(1) by (auto simp: owned_def)
    have "os_open os' = (os_open os)(l := None, r := None, w := None)"
      using assms(2) True o by (auto simp: stop_def Let_def close_listen_def os_close_def os_unlink_def split: if_splits)
    then have "besides os' = (besides os)(r := None, w := None, l := None)" by (auto simp: besides_def fun_eq_iff)
    then show ?thesis using o by simp
  qed (use assms in \<open>auto simp: stop_def owned_def\<close>)
  show "os_open os' fd = Some (Conn g) \<longleftrightarrow> os_open os fd = Some (Conn g)"
  proof (cases "m_running sv")
    case True
    then obtain r w l where o: "m_shutdownPipe sv = (r, w)" "m_listenFd sv = l" "0 \<le> r" "0 \<le> w" "0 \<le> l"
      "os_open os r = Some PipeEnd" "os_open os w = Some PipeEnd" "os_open os l = Some (Listener (sun_path (m_socketPath sv)))"
      using assms(1) by (auto simp: owned_def)
    have "os_open os' = (os_open os)(l := None, r := None, w := None)"
      using assms(2) True o by (auto simp: stop_def Let_def close_listen_def os_close_def os_unlink_def split: if_splits)
    then show ?thesis using o by simp
  qed (use assms in \<open>auto simp: stop_def\<close>)
qed

lemma start_frame:
  assumes "start io h d sv os = (ok, sv', os')"
  shows "m_clients sv' = m_clients sv" "m_socketPath sv' = m_socketPath sv"
  using assms by (auto simp: start_def Let_def close_pipe_def close_listen_def split: if_splits option.splits)

lemma start_owned:
  assumes "owned base sv os" "fresh_io io os" "start io h d sv os = (ok, sv', os')"
  shows "owned base sv' os'" "os_open os' fd = Some (Conn g) \<longleftrightarrow> os_open os fd = Some (Conn g)"
proof -
  have "owned base sv' os' \<and> (os_open os' fd = Some (Conn g) \<longleftrightarrow> os_open os fd = Some (Conn g))"
  proof (cases "m_running sv \<or> \<not> ok")
    case True
    then have "os_open os' = os_open os \<and> (m_running sv \<longrightarrow> sv' = sv) \<and> (\<not> m_running sv \<longrightarrow> \<not> m_running sv')"
    proof (cases "m_running sv")
      case False
      with True start_failure_closes [OF assms(2), of sv h d sv' os'] assms(3) show ?thesis by (cases ok) simp_all
    qed (use assms(3) in \<open>simp add: start_def\<close>)
    then show ?thesis using assms(1) besides_frame [of os' os] by (auto simp: owned_def)
  next
    case False
    then have "\<not> m_running sv" and run: "start io h d sv os = (True, sv', os')" using assms(3) by simp_all
    from start_success [OF assms(2) this] obtain r w l where s: "m_running sv'" "m_shutdownPipe sv' = (r, w)" "m_listenFd sv' = l"
      "os_open os' = (os_open os)(r \<mapsto> PipeEnd, w \<mapsto> PipeEnd, l \<mapsto> Listener (sun_path (m_socketPath sv)))"
      "m_socketPath sv' = m_socketPath sv" "0 \<le> r" "0 \<le> w" "0 \<le> l" "distinct [r, w, l]"
      "os_open os r = None" "os_open os w = None" "os_open os l = None" by auto
    then have "(besides os')(r := None, w := None, l := None) = besides os" by (auto simp: besides_def fun_eq_iff)
    moreover have "besides os = besides base" using assms(1) \<open>\<not> m_running sv\<close> by (simp add: owned_def)
    ultimately show ?thesis using s by (auto simp: owned_def)
  qed
  then show "owned base sv' os'" "os_open os' fd = Some (Conn g) \<longleftrightarrow> os_open os fd = Some (Conn g)" by simp_all
qed

lemma owned_step:
  assumes "srv_step s s'" "sys_inv s" "owned base (srv s) (kos s)"
  shows "owned base (srv s') (kos s') \<and> m_socketPath (srv s') = m_socketPath (srv s)"
  using assms(1)
proof cases
  case (accept fd)
  then show ?thesis using assms(3)
    by (auto simp: do_accept_def Let_def besides_def fun_eq_iff intro!: owned_frame [OF assms(3)])
next
  case (close g fd)
  then have "os_open (kos s) fd = Some (Conn g)" using assms(2) by (simp add: sys_inv_def open_agree_def)
  then show ?thesis using close(1)
    by (auto simp: do_close_def os_close_def besides_def fun_eq_iff intro!: owned_frame [OF assms(3)])
next
  case (quit fds sv os')
  then show ?thesis using stop_owned [OF assms(3) quit(2)] by (simp add: owned_def)
qed (use assms(3) in \<open>auto simp: do_leave_def do_notify_def do_collect_def do_push_def addSubscription_def removeSubscription_def
    split: option.splits prod.splits list.splits desc.splits intro: owned_frame\<close>)

lemma life_step_inv: "life_step s s' \<Longrightarrow> life_inv base path s \<Longrightarrow> life_inv base path s'"
proof (induction rule: life_step.induct)
  case (Serves s s')
  then show ?case using srv_step_inv owned_step unfolding life_inv_def by blast
next
  case (Starts io s h d ok sv os)
  then have "owned base (srv s) (kos s)" "sys_inv s" by (simp_all add: life_inv_def)
  note started = start_owned [OF this(1) Starts(1,2)] start_frame [OF Starts(2)]
  have "sys_inv (at_server sv os s)"
    by (rule inv_frame [OF \<open>sys_inv s\<close>]) (simp_all add: at_server_def started)
  then show ?case using started Starts(3) by (simp add: life_inv_def at_server_def)
next
  case (Stops s fds sv os)
  then have "owned base (srv s) (kos s)" "sys_inv s" by (simp_all add: life_inv_def)
  note stopped = stop_owned [OF this(1) Stops(1)]
  have "sys_inv (at_server sv os s)"
    by (rule inv_frame [OF \<open>sys_inv s\<close>]) (simp_all add: at_server_def stopped)
  then show ?case using stopped Stops(2) by (simp add: life_inv_def at_server_def owned_def)
qed

lemma life_reach_inv: "life_reach base path cfg s \<Longrightarrow> life_inv base path s"
proof (induction rule: life_reach.induct)
  case Constructed
  then show ?case
    using inv_init [of "server_new path cfg" base]
    by (simp add: life_inv_def owned_def) (simp add: system_init_def server_new_def)
next
  case (Lives s s')
  then show ?case by (blast intro: life_step_inv)
qed

section \<open>Properties\<close>

text \<open>C25. 
  A server gives back what it took.  However often it was started, stopped and failed to start, and whatever its
  connections and pushes do meanwhile: when it is destroyed it is stopped, its connections in the client map are
  shut down, its socket file is unlinked if it was running, and the only descriptors left beside those the process
  had before it are the ones of connection threads that have not closed them yet; with the last of them gone
  nothing is left.
\<close>

theorem server_scope_closes:
  assumes "life_reach base path cfg s" "Server_destroy (srv s) (kos s) = (fds, sv, os)"
  shows "\<not> m_running sv \<and> (\<forall>g fd. conn_pc s g = Serving fd \<longrightarrow> fd \<in> set fds \<or> \<not> m_running (srv s))
    \<and> (m_running (srv s) \<and> path \<noteq> [] \<longrightarrow> path \<notin> os_sockets os)
    \<and> (\<forall>fd. os_open os fd = os_open base fd \<or> os_open base fd = None \<and> (\<exists>g. os_open os fd = Some (Conn g) \<and> on_fd (conn_pc s g) = Some fd))
    \<and> ((\<forall>g. conn_pc s g = Fresh \<or> conn_pc s g = Gone) \<longrightarrow> os_open os = os_open base)"
proof -
  have inv: "sys_inv s" "owned base (srv s) (kos s)" "m_socketPath (srv s) = path"
    using life_reach_inv [OF assms(1)] by (simp_all add: life_inv_def)
  note stopped = stop_owned [OF inv(2) assms(2) [unfolded Server_destroy_def]]
  have base: "\<forall>fd g. os_open base fd \<noteq> Some (Conn g)" using assms(1) by (induction rule: life_reach.induct)
  have rest: "os_open os fd = os_open base fd \<or> os_open base fd = None \<and> (\<exists>g. os_open os fd = Some (Conn g) \<and> on_fd (conn_pc s g) = Some fd)" for fd
  proof (cases "\<exists>g. os_open os fd = Some (Conn g)")
    case True
    then obtain g where g: "os_open os fd = Some (Conn g)" by blast
    then have "on_fd (conn_pc s g) = Some fd" using stopped(5) inv(1) by (simp add: sys_inv_def open_agree_def)
    moreover have "besides os fd = None" using g by (simp add: besides_def)
    then have "besides base fd = None" using stopped(2) by simp
    then have "os_open base fd = None" using base by (auto simp: besides_def split: option.splits desc.splits)
    ultimately show ?thesis using g by blast
  next
    case False
    then have "besides os fd = os_open os fd" by (auto simp: besides_def split: option.splits desc.splits)
    moreover have "besides base fd = os_open base fd" using base by (auto simp: besides_def split: option.splits desc.splits)
    ultimately show ?thesis using stopped(2) by simp
  qed
  have "fd \<in> set fds" if "conn_pc s g = Serving fd" "m_running (srv s)" for g fd
  proof -
    have "map_of (m_clients (srv s)) fd = Some g" using that inv(1) by (simp add: sys_inv_def clients_agree_def)
    then show ?thesis using stopped(7) [OF that(2)] by (force dest: map_of_SomeD)
  qed
  moreover have "os_open os = os_open base" if "\<forall>g. conn_pc s g = Fresh \<or> conn_pc s g = Gone"
  proof
    fix fd
    show "os_open os fd = os_open base fd" using rest [of fd] that by (metis on_fd_simps option.distinct(1))
  qed
  ultimately show ?thesis using stopped(1,6) inv(3) rest by auto
qed

text \<open>
  \<open>stop\<close> does not wait for the connection threads, and they look at the running flag of the object, not of the run
  they belong to: a connection that is still open when the server is started again is reported to the disconnect
  handler of the new run, which never saw it connect.
\<close>

theorem restart_reports_old_connection:
  assumes "life_reach base path cfg s" "\<not> m_running (srv s)" "conn_pc s g = Serving fd"
    and "fresh_io io (kos s)" "start io h True (srv s) (kos s) = (True, sv, os)"
  shows "life_reach base path cfg (do_notify g fd (do_leave g fd (at_server sv os s)))
    \<and> Disconnected g \<in> set (trace (do_notify g fd (do_leave g fd (at_server sv os s))))"
proof -
  have 1: "life_reach base path cfg (at_server sv os s)" by (rule Lives [OF assms(1) Starts [OF assms(4,5)]])
  have 2: "life_reach base path cfg (do_leave g fd (at_server sv os s))"
    by (rule Lives [OF 1 Serves [OF leave]]) (simp add: at_server_def assms(3))
  have "life_reach base path cfg (do_notify g fd (do_leave g fd (at_server sv os s)))"
    by (rule Lives [OF 2 Serves [OF notify]]) (simp add: do_leave_def)
  moreover have "m_running sv" "m_disconnectHandler sv"
    using start_success [OF assms(4,2,5)] by auto
  ultimately show ?thesis by (simp add: do_notify_def do_leave_def at_server_def)
qed

section \<open>Witnesses\<close>

text \<open>A server that was started, has accepted a connection, was stopped, and is destroyed while that is still open.\<close>

definition sample_started :: "server \<times> os" where
  "sample_started = snd (start sample_io None True (server_new ''/tmp/s'' sample_config) sample_os)"

definition sample_life :: system where
  "sample_life = do_accept 9 (at_server (fst sample_started) (snd sample_started) (system_init (server_new ''/tmp/s'' sample_config) sample_os))"

lemmas sample_life_defs = sample_life_def sample_started_def start_def server_new_def sample_io_def sample_os_def Let_def os_unlink_def

lemma sample_life_reach: "life_reach sample_os ''/tmp/s'' sample_config sample_life"
proof -
  have "life_reach sample_os ''/tmp/s'' sample_config (system_init (server_new ''/tmp/s'' sample_config) sample_os)"
    by (rule Constructed) (simp add: sample_os_def)
  moreover have "start sample_io None True (server_new ''/tmp/s'' sample_config) sample_os = (True, fst sample_started, snd sample_started)"
    by (simp add: sample_life_defs)
  moreover have "fresh_io sample_io sample_os" by (simp add: fresh_io_def sample_io_def sample_os_def)
  ultimately have "life_reach sample_os ''/tmp/s'' sample_config
      (at_server (fst sample_started) (snd sample_started) (system_init (server_new ''/tmp/s'' sample_config) sample_os))"
    by (intro Lives [OF _ Starts]) (simp_all add: system_init_def)
  then show ?thesis unfolding sample_life_def
    by (rule Lives [OF _ Serves [OF accept]]) (simp_all add: at_server_def sample_life_defs)
qed

theorem server_scope_closes_witness:
  "case Server_destroy (srv sample_life) (kos sample_life) of (fds, sv, os) \<Rightarrow>
     \<not> m_running sv \<and> os_open os 3 = None \<and> os_open os 9 = Some (Conn 0) \<and> ''/tmp/s'' \<notin> os_sockets os"
proof -
  obtain fds sv os where d: "Server_destroy (srv sample_life) (kos sample_life) = (fds, sv, os)" by (rule prod_cases3)
  have "os_open (kos sample_life) 9 = Some (Conn 0)" "m_running (srv sample_life)" "conn_pc sample_life g = Serving fd \<Longrightarrow> g = 0 \<and> fd = 9"
    "on_fd (conn_pc sample_life g) \<noteq> Some 3" for g fd
    by (auto simp: sample_life_defs do_accept_def at_server_def system_init_def on_fd_def split: if_splits)
  moreover have "os_open os 9 = Some (Conn 0)"
    using d by (auto simp: Server_destroy_def stop_def close_listen_def os_close_def do_accept_def at_server_def system_init_def sample_life_defs)
  moreover note closes = server_scope_closes [OF sample_life_reach d]
  moreover from closes have "os_open os 3 = os_open sample_os 3 \<or> (\<exists>g. on_fd (conn_pc sample_life g) = Some 3)" by blast
  ultimately have "os_open os 3 = None" by (simp add: sample_os_def)
  then show ?thesis using closes \<open>os_open os 9 = Some (Conn 0)\<close> \<open>m_running (srv sample_life)\<close> by (simp add: d)
qed

end
