(* ===== verification/Ipc_Start_Race.thy ===== *)
theory Ipc_Start_Race
  imports Prelude
begin

text \<open>
  \<open>Server::start\<close> and \<open>Server::stop\<close> (\<open>src/ipc/ipc_server.cpp\<close>) called by several threads of one process: \<open>start\<close>
  tests the running flag first and sets it last, \<open>stop\<close> exchanges it, and the accept thread is assigned after the
  flag.  An assignment to a thread object that is still joinable ends the process (\<open>std::terminate\<close>).  The three
  descriptors of a start, pipe and listening socket, are one unit here; \<open>Ipc_Server\<close> has them one by one.
\<close>

section \<open>Threads\<close>

datatype race_pc = Outside | Tested | Created | Flagged | Exchanged

text \<open>\<open>ra_joinable\<close>: \<open>m_acceptThread\<close> has a thread; \<open>ra_fields\<close>: \<open>m_listenFd\<close> and \<open>m_shutdownPipe\<close> name open
  descriptors; \<open>ra_units\<close>: how many such units are open.\<close>

record race =
  ra_running :: bool
  ra_joinable :: bool
  ra_fields :: bool
  ra_units :: nat
  ra_pc :: "nat \<Rightarrow> race_pc"
  ra_terminated :: bool

definition race_init :: race where
  "race_init = \<lparr>ra_running = False, ra_joinable = False, ra_fields = False, ra_units = 0, ra_pc = (\<lambda>_. Outside), ra_terminated = False\<rparr>"

definition race_goto :: "nat \<Rightarrow> race_pc \<Rightarrow> race \<Rightarrow> race" where
  "race_goto p c s = s\<lparr>ra_pc := (ra_pc s)(p := c)\<rparr>"

text \<open>Threads below \<open>n\<close> use the server.  A start that fails in between closes what it made itself; that it may
  close what another start put into the fields meanwhile is left out.\<close>

inductive race_step :: "nat \<Rightarrow> race \<Rightarrow> race \<Rightarrow> bool" for n where
  StartTests: "p < n \<Longrightarrow> \<not> ra_terminated s \<Longrightarrow> ra_pc s p = Outside \<Longrightarrow> \<not> ra_running s \<Longrightarrow> race_step n s (race_goto p Tested s)"
| StartFails: "p < n \<Longrightarrow> \<not> ra_terminated s \<Longrightarrow> ra_pc s p = Tested \<Longrightarrow> race_step n s (race_goto p Outside s)"
| StartCreates: "p < n \<Longrightarrow> \<not> ra_terminated s \<Longrightarrow> ra_pc s p = Tested
    \<Longrightarrow> race_step n s (race_goto p Created (s\<lparr>ra_fields := True, ra_units := ra_units s + 1\<rparr>))"
| StartFlags: "p < n \<Longrightarrow> \<not> ra_terminated s \<Longrightarrow> ra_pc s p = Created \<Longrightarrow> race_step n s (race_goto p Flagged (s\<lparr>ra_running := True\<rparr>))"
| StartSpawns: "p < n \<Longrightarrow> \<not> ra_terminated s \<Longrightarrow> ra_pc s p = Flagged
    \<Longrightarrow> race_step n s (race_goto p Outside (s\<lparr>ra_terminated := ra_joinable s, ra_joinable := True\<rparr>))"
| StopExchanges: "p < n \<Longrightarrow> \<not> ra_terminated s \<Longrightarrow> ra_pc s p = Outside \<Longrightarrow> ra_running s
    \<Longrightarrow> race_step n s (race_goto p Exchanged (s\<lparr>ra_running := False\<rparr>))"
| StopEnds: "p < n \<Longrightarrow> \<not> ra_terminated s \<Longrightarrow> ra_pc s p = Exchanged
    \<Longrightarrow> race_step n s (race_goto p Outside (s\<lparr>ra_joinable := False, ra_fields := False,
           ra_units := (if ra_fields s then ra_units s - 1 else ra_units s)\<rparr>))"

inductive race_reach :: "nat \<Rightarrow> race \<Rightarrow> bool" for n where
  RaceInit: "race_reach n race_init"
| RaceStep: "race_reach n s \<Longrightarrow> race_step n s s' \<Longrightarrow> race_reach n s'"

section \<open>One thread\<close>

text \<open>With one user the thread object is free whenever it is assigned, and at most one unit is open.\<close>

definition alone_ok :: "race \<Rightarrow> bool" where
  "alone_ok s \<longleftrightarrow> \<not> ra_terminated s \<and> ra_units s = (if ra_fields s then 1 else 0)
     \<and> (case ra_pc s 0 of
          Outside \<Rightarrow> ra_joinable s = ra_running s \<and> ra_fields s = ra_running s
        | Tested \<Rightarrow> \<not> ra_running s \<and> \<not> ra_joinable s \<and> \<not> ra_fields s
        | Created \<Rightarrow> \<not> ra_running s \<and> \<not> ra_joinable s \<and> ra_fields s
        | Flagged \<Rightarrow> ra_running s \<and> \<not> ra_joinable s \<and> ra_fields s
        | Exchanged \<Rightarrow> \<not> ra_running s \<and> ra_fields s)"

lemma below_one: "p < n \<Longrightarrow> n \<le> Suc 0 \<Longrightarrow> p = 0"
  by simp

lemma alone_ok_step: "race_step n s s' \<Longrightarrow> n \<le> 1 \<Longrightarrow> alone_ok s \<Longrightarrow> alone_ok s'"
  by (induction rule: race_step.induct) (auto simp: alone_ok_def race_goto_def dest!: below_one split: if_splits)

lemma alone_ok_reach: "race_reach n s \<Longrightarrow> n \<le> 1 \<Longrightarrow> alone_ok s"
proof (induction rule: race_reach.induct)
  case RaceInit
  then show ?case by (simp add: alone_ok_def race_init_def)
next
  case (RaceStep s s')
  then show ?case by (blast intro: alone_ok_step)
qed

section \<open>Two threads\<close>

definition race_at :: "bool \<Rightarrow> bool \<Rightarrow> bool \<Rightarrow> nat \<Rightarrow> race_pc \<Rightarrow> race_pc \<Rightarrow> race" where
  "race_at r j f u c0 c1 = \<lparr>ra_running = r, ra_joinable = j, ra_fields = f, ra_units = u,
     ra_pc = (\<lambda>p. if p = 0 then c0 else if p = Suc 0 then c1 else Outside), ra_terminated = False\<rparr>"

lemma race_at_simps [simp]:
  "ra_running (race_at r j f u c0 c1) = r" "ra_joinable (race_at r j f u c0 c1) = j" "ra_fields (race_at r j f u c0 c1) = f"
  "ra_units (race_at r j f u c0 c1) = u" "ra_pc (race_at r j f u c0 c1) 0 = c0" "ra_pc (race_at r j f u c0 c1) (Suc 0) = c1"
  "\<not> ra_terminated (race_at r j f u c0 c1)"
  by (simp_all add: race_at_def)

lemma race_at_moves:
  "race_goto 0 c (race_at r j f u c0 c1) = race_at r j f u c c1"
  "race_goto (Suc 0) c (race_at r j f u c0 c1) = race_at r j f u c0 c"
  "(race_at r j f u c0 c1)\<lparr>ra_running := r'\<rparr> = race_at r' j f u c0 c1"
  "(race_at r j f u c0 c1)\<lparr>ra_fields := f', ra_units := u'\<rparr> = race_at r j f' u' c0 c1"
  by (auto simp: race_at_def race_goto_def fun_eq_iff)

lemma both_start:
  assumes "2 \<le> n"
  shows "race_reach n (race_at True False True 2 Flagged Flagged)"
proof -
  have n: "0 < n" "Suc 0 < n" using assms by simp_all
  note go = RaceStep [of n, rotated]
  have "race_init = race_at False False False 0 Outside Outside" by (auto simp: race_init_def race_at_def)
  then have "race_reach n (race_at False False False 0 Outside Outside)" using RaceInit by metis
  from go [OF StartTests [OF n(1)] this] have "race_reach n (race_at False False False 0 Tested Outside)" by (simp add: race_at_moves)
  from go [OF StartTests [OF n(2)] this] have "race_reach n (race_at False False False 0 Tested Tested)" by (simp add: race_at_moves)
  from go [OF StartCreates [OF n(1)] this] have "race_reach n (race_at False False True (Suc 0) Created Tested)" by (simp add: race_at_moves)
  from go [OF StartCreates [OF n(2)] this] have "race_reach n (race_at False False True (Suc (Suc 0)) Created Created)" by (simp add: race_at_moves)
  from go [OF StartFlags [OF n(1)] this] have "race_reach n (race_at True False True (Suc (Suc 0)) Flagged Created)" by (simp add: race_at_moves)
  from go [OF StartFlags [OF n(2)] this] have "race_reach n (race_at True False True (Suc (Suc 0)) Flagged Flagged)" by (simp add: race_at_moves)
  then show ?thesis by (simp add: numeral_2_eq_2)
qed

section \<open>What several users of a server can do\<close>

text \<open>
  A server that one thread starts and stops never ends the process and has at most one set of descriptors open.
  As soon as a second thread starts or stops it, both can happen: two starts pass the test of the flag, each opens
  its descriptors over the fields of the other, and the second accept thread is assigned to the object of the
  first.
\<close>

theorem start_unsafe_iff_shared:
  "(\<exists>s. race_reach n s \<and> ra_terminated s) \<longleftrightarrow> 2 \<le> n" "(\<exists>s. race_reach n s \<and> 1 < ra_units s) \<longleftrightarrow> 2 \<le> n"
proof -
  have alone: "\<not> ra_terminated s \<and> \<not> 1 < ra_units s" if "race_reach n s" "\<not> 2 \<le> n" for s
    using alone_ok_reach [OF that(1)] that(2) by (auto simp: alone_ok_def split: if_splits)
  have two: "(\<exists>s. race_reach n s \<and> ra_terminated s) \<and> (\<exists>s. race_reach n s \<and> 1 < ra_units s)" if "2 \<le> n"
  proof -
    let ?s = "race_at True False True 2 Flagged Flagged"
    let ?t = "race_goto 0 Outside (?s\<lparr>ra_terminated := False, ra_joinable := True\<rparr>)"
    have n: "0 < n" "Suc 0 < n" using that by simp_all
    have s: "race_reach n ?s" by (rule both_start [OF that])
    then have t: "race_reach n ?t" using RaceStep [OF s StartSpawns [OF n(1)]] by simp
    have "race_reach n (race_goto (Suc 0) Outside (?t\<lparr>ra_terminated := ra_joinable ?t, ra_joinable := True\<rparr>))"
      by (rule RaceStep [OF t StartSpawns [OF n(2)]]) (simp_all add: race_goto_def)
    moreover have "ra_terminated (race_goto (Suc 0) Outside (?t\<lparr>ra_terminated := ra_joinable ?t, ra_joinable := True\<rparr>))"
      by (simp add: race_goto_def)
    moreover have "1 < ra_units ?s" by simp
    ultimately show ?thesis using s by blast
  qed
  show "(\<exists>s. race_reach n s \<and> ra_terminated s) \<longleftrightarrow> 2 \<le> n" "(\<exists>s. race_reach n s \<and> 1 < ra_units s) \<longleftrightarrow> 2 \<le> n"
    using alone two by blast+
qed

text \<open>A stop between the flag and the accept thread of a start is enough: it returns, and the thread that start then
  makes is never joined, so that the next start ends the process.\<close>

theorem stop_during_start:
  assumes "2 \<le> n" "race_reach n s" "\<not> ra_terminated s" "ra_pc s 0 = Flagged" "ra_pc s (Suc 0) = Outside" "ra_running s" "\<not> ra_joinable s"
  shows "\<exists>s'. race_reach n s' \<and> \<not> ra_terminated s' \<and> \<not> ra_running s' \<and> ra_joinable s' \<and> ra_pc s' 0 = Outside \<and> ra_pc s' (Suc 0) = Outside"
proof -
  have n: "0 < n" "Suc 0 < n" using assms(1) by simp_all
  let ?a = "race_goto (Suc 0) Exchanged (s\<lparr>ra_running := False\<rparr>)"
  let ?b = "race_goto (Suc 0) Outside (?a\<lparr>ra_joinable := False, ra_fields := False, ra_units := (if ra_fields ?a then ra_units ?a - 1 else ra_units ?a)\<rparr>)"
  let ?c = "race_goto 0 Outside (?b\<lparr>ra_terminated := ra_joinable ?b, ra_joinable := True\<rparr>)"
  have a: "race_reach n ?a" by (rule RaceStep [OF assms(2) StopExchanges [OF n(2) assms(3,5,6)]])
  have b: "race_reach n ?b" by (rule RaceStep [OF a StopEnds [OF n(2)]]) (simp_all add: race_goto_def assms)
  have "race_reach n ?c" by (rule RaceStep [OF b StartSpawns [OF n(1)]]) (simp_all add: race_goto_def assms)
  moreover have "\<not> ra_terminated ?c \<and> \<not> ra_running ?c \<and> ra_joinable ?c \<and> ra_pc ?c 0 = Outside \<and> ra_pc ?c (Suc 0) = Outside"
    by (simp add: race_goto_def assms)
  ultimately show ?thesis by blast
qed

end
