(* ===== verification/Ipc_Client.thy ===== *)
theory Ipc_Client
  imports Ipc_Server
begin

text \<open>
  The IPC client (\<open>src/ipc/ipc_client.cpp\<close>): connecting with a timeout, the reconnect backoff,
  \<open>Client::Impl\<close> (request-response calls on one connection) and \<open>Subscription::Impl\<close> (an
  event-only connection with its own reading thread).  What the kernel answers on a connection is
  given with the attempt that opens it; what other threads do to the client while a call sleeps is an
  argument.
\<close>

section \<open>Helpers\<close>

datatype connect_answer = Connected | InProgress | Refused

text \<open>The answers to the calls of \<open>connectWithTimeout\<close>: \<open>fcntl\<close> twice, \<open>connect\<close>, the return of
  \<open>select\<close>, the pending socket error.\<close>

record connect_io =
  c_getfl :: bool
  c_setfl :: bool
  c_connect :: connect_answer
  c_select :: int
  c_error :: int

definition connectWithTimeout :: "connect_io \<Rightarrow> bool" where
  "connectWithTimeout io =
     (if \<not> c_getfl io then False
      else if \<not> c_setfl io then False
      else case c_connect io of
        Connected \<Rightarrow> True
      | Refused \<Rightarrow> False
      | InProgress \<Rightarrow> if c_select io \<le> 0 then False else c_error io = 0)"

function backoff_loop :: "ReconnectConfig \<Rightarrow> nat \<Rightarrow> nat \<Rightarrow> u32 \<Rightarrow> u32" where
  "backoff_loop cfg attempt i backoff =
     (if i < attempt \<and> backoff < max_backoff_ms cfg then
        (let b = multiplier cfg backoff;
             b' = (if b > max_backoff_ms cfg then max_backoff_ms cfg else b)
         in backoff_loop cfg attempt (i + 1) b')
      else backoff)"
  by pat_completeness auto
termination
  by (relation "measure (\<lambda>(c, a, i, b). a - i)") auto

declare backoff_loop.simps [simp del]

definition calculateBackoff :: "ReconnectConfig \<Rightarrow> u32 \<Rightarrow> u32" where
  "calculateBackoff cfg attempt = backoff_loop cfg (unat attempt) 0 (initial_backoff_ms cfg)"

definition makeTransportError :: "IpcError \<Rightarrow> i32 \<times> byte list" where
  "makeTransportError err = (- ipc_error_value err, [])"

section \<open>Client::Impl\<close>

text \<open>One attempt to connect: the socket's number, the connect answers, and what the kernel will answer
  to the sends and receives on it.\<close>

record attempt_io =
  a_socket :: "int option"
  a_connect :: connect_io
  a_send :: wsock
  a_recv :: rsock

text \<open>\<open>cl_open\<close> are the descriptors the client has open, \<open>cl_sent\<close> the bytes written per request.\<close>

record client =
  m_fd :: int
  m_connected :: bool
  m_lastResult :: "i32 \<times> byte list"
  cl_ws :: wsock
  cl_rs :: rsock
  cl_open :: "int set"
  cl_sent :: "(int \<times> byte list) list"

definition client_new :: client where
  "client_new =
     \<lparr>m_fd = -1, m_connected = False, m_lastResult = (0, []), cl_ws = [], cl_rs = [], cl_open = {}, cl_sent = []\<rparr>"

definition doConnect :: "attempt_io \<Rightarrow> client \<Rightarrow> bool \<times> client" where
  "doConnect io cl =
     (case a_socket io of
        None \<Rightarrow> (False, cl\<lparr>m_fd := -1\<rparr>)
      | Some fd \<Rightarrow>
          (let cl1 = cl\<lparr>m_fd := fd, cl_open := insert fd (cl_open cl), cl_ws := a_send io, cl_rs := a_recv io\<rparr> in
           if \<not> connectWithTimeout (a_connect io)
           then (False, cl1\<lparr>m_fd := -1, cl_open := cl_open cl1 - {fd}\<rparr>)
           else (True, cl1\<lparr>m_connected := True\<rparr>)))"

definition connect :: "attempt_io \<Rightarrow> client \<Rightarrow> bool \<times> client" where
  "connect io cl = (if m_connected cl then (True, cl) else doConnect io cl)"

text \<open>The block both \<open>disconnect\<close> and the failure paths of the calls run under the state mutex.\<close>

definition drop_connection :: "client \<Rightarrow> client" where
  "drop_connection cl =
     (let cl1 = (if m_fd cl \<ge> 0 then cl\<lparr>cl_open := cl_open cl - {m_fd cl}, m_fd := -1\<rparr> else cl)
      in cl1\<lparr>m_connected := False\<rparr>)"

definition is_connected :: "client \<Rightarrow> bool" where
  "is_connected cl = m_connected cl"

definition getFd :: "client \<Rightarrow> int" where
  "getFd cl = (if m_connected cl then m_fd cl else -1)"

definition doCall :: "byte_order \<Rightarrow> u32 \<Rightarrow> u32 \<Rightarrow> byte list \<Rightarrow> client \<Rightarrow> bool \<times> client" where
  "doCall e maxlen mid params cl =
     (case writeRequest e (cl_ws cl) mid params of
        (ok, bytes, ws) \<Rightarrow>
          (let cl1 = cl\<lparr>cl_ws := ws, cl_sent := cl_sent cl @ [(m_fd cl, bytes)]\<rparr> in
           if \<not> ok then (False, cl1)
           else case readResponse e (cl_rs cl1) maxlen of
             (None, rs) \<Rightarrow> (False, cl1\<lparr>cl_rs := rs\<rparr>)
           | (Some (status, body), rs) \<Rightarrow> (True, cl1\<lparr>cl_rs := rs, m_lastResult := (status, body)\<rparr>)))"

text \<open>\<open>io1\<close> serves the lazy connect, \<open>io2\<close> the reconnect; \<open>others\<close> is what other threads do to the client
  during the backoff.\<close>

definition call :: "byte_order \<Rightarrow> u32 \<Rightarrow> attempt_io \<Rightarrow> (client \<Rightarrow> client) \<Rightarrow> attempt_io \<Rightarrow> u32 \<Rightarrow> byte list
    \<Rightarrow> client \<Rightarrow> (i32 \<times> byte list) \<times> client" where
  "call e maxlen io1 others io2 mid params cl =
     (let (ok, cl1) = (if \<not> m_connected cl then doConnect io1 cl else (True, cl)) in
      if \<not> ok then (makeTransportError kSocketFailed, cl1)
      else if getFd cl1 < 0 then (makeTransportError kSocketFailed, cl1)
      else
        (let (done1, cl2) = doCall e maxlen mid params cl1 in
         if done1 then (m_lastResult cl2, cl2)
         else
           (let cl3 = others (drop_connection cl2);
                (ok2, cl4) = doConnect io2 cl3 in
            if \<not> ok2 then (makeTransportError kSocketFailed, cl4)
            else if getFd cl4 < 0 then (makeTransportError kSocketFailed, cl4)
            else
              (let (done2, cl5) = doCall e maxlen mid params cl4 in
               if done2 then (m_lastResult cl5, cl5)
               else (makeTransportError kTransportFailed, drop_connection cl5)))))"

definition callOnce :: "byte_order \<Rightarrow> u32 \<Rightarrow> attempt_io \<Rightarrow> u32 \<Rightarrow> byte list \<Rightarrow> client
    \<Rightarrow> (i32 \<times> byte list) \<times> client" where
  "callOnce e maxlen io1 mid params cl =
     (let (ok, cl1) = (if \<not> m_connected cl then doConnect io1 cl else (True, cl)) in
      if \<not> ok then (makeTransportError kSocketFailed, cl1)
      else if getFd cl1 < 0 then (makeTransportError kSocketFailed, cl1)
      else
        (let (done1, cl2) = doCall e maxlen mid params cl1 in
         if done1 then (m_lastResult cl2, cl2)
         else (makeTransportError kTransportFailed, drop_connection cl2)))"

section \<open>Subscription::Impl\<close>

datatype sub_result = SubFd int | SubFailed | SubRejected

text \<open>The result, the bytes of the handshake request written, and the receiving side left for the event
  loop; every path but the successful one closes the socket.\<close>

definition doConnectAndSubscribe :: "byte_order \<Rightarrow> u32 \<Rightarrow> attempt_io \<Rightarrow> u32 \<Rightarrow> byte list \<Rightarrow> int set
    \<Rightarrow> sub_result \<times> byte list \<times> rsock \<times> int set" where
  "doConnectAndSubscribe e maxlen io mid params opened =
     (case a_socket io of
        None \<Rightarrow> (SubFailed, [], [], opened)
      | Some fd \<Rightarrow>
          (let opened1 = insert fd opened in
           if \<not> connectWithTimeout (a_connect io) then (SubFailed, [], [], opened1 - {fd})
           else case writeRequest e (a_send io) mid params of
             (False, bytes, _) \<Rightarrow> (SubFailed, bytes, [], opened1 - {fd})
           | (True, bytes, _) \<Rightarrow>
               (case readResponse e (a_recv io) maxlen of
                  (None, rs) \<Rightarrow> (SubFailed, bytes, [], opened1 - {fd})
                | (Some (status, _), rs) \<Rightarrow>
                    if status \<noteq> 0 then (SubRejected, bytes, [], opened1 - {fd})
                    else (SubFd fd, bytes, rs, opened1))))"

text \<open>The callbacks of the event loop; \<open>acts\<close> are the values \<open>m_active\<close> has when the loop looks.  An
  exception of the callback is swallowed, so it does not show.\<close>

fun eventLoop :: "byte_order \<Rightarrow> u32 \<Rightarrow> bool list \<Rightarrow> rsock \<Rightarrow> (u32 \<times> byte list) list" where
  "eventLoop e maxlen [] rs = []"
| "eventLoop e maxlen (active # acts) rs =
     (if \<not> active then []
      else case readEvent e rs maxlen of
        (None, rs1) \<Rightarrow> []
      | (Some (ev, payload), rs1) \<Rightarrow> (ev, payload) # eventLoop e maxlen acts rs1)"

text \<open>One round of \<open>runLoop\<close>: the flags it reads, the connection attempt, and the flags its event loop
  reads.\<close>

record sub_round =
  r_enter :: bool
  r_io :: attempt_io
  r_after :: bool
  r_events :: "bool list"

record sub =
  s_active :: bool
  s_attempt :: u32
  s_open :: "int set"
  s_handshakes :: "byte list list"
  s_callbacks :: "(u32 \<times> byte list) list"
  s_sleeps :: "u32 list"

definition sub_new :: sub where
  "sub_new = \<lparr>s_active = True, s_attempt = 0, s_open = {}, s_handshakes = [], s_callbacks = [], s_sleeps = []\<rparr>"

definition sub_sleep :: "ReconnectConfig \<Rightarrow> sub \<Rightarrow> sub" where
  "sub_sleep cfg s = s\<lparr>s_sleeps := s_sleeps s @ [calculateBackoff cfg (s_attempt s)], s_attempt := s_attempt s + 1\<rparr>"

fun runLoop :: "byte_order \<Rightarrow> IpcConfig \<Rightarrow> u32 \<Rightarrow> byte list \<Rightarrow> sub_round list \<Rightarrow> sub \<Rightarrow> sub" where
  "runLoop e cfg mid params [] s = s"
| "runLoop e cfg mid params (r # rs) s =
     (if \<not> (s_active s \<and> r_enter r) then s\<lparr>s_active := False\<rparr>
      else case doConnectAndSubscribe e (max_frame_bytes cfg) (r_io r) mid params (s_open s) of
        (res, bytes, sock, opened) \<Rightarrow>
          (let s1 = s\<lparr>s_open := opened, s_handshakes := s_handshakes s @ [bytes]\<rparr> in
           case res of
             SubFd fd \<Rightarrow>
               (let s2 = s1\<lparr>s_attempt := 0,
                            s_callbacks := s_callbacks s1 @ eventLoop e (max_frame_bytes cfg) (r_events r) sock,
                            s_open := s_open s1 - {fd}\<rparr>
                in if \<not> r_after r then s2\<lparr>s_active := False\<rparr>
                   else runLoop e cfg mid params rs (sub_sleep (reconnect cfg) s2))
           | SubRejected \<Rightarrow> s1\<lparr>s_active := False\<rparr>
           | SubFailed \<Rightarrow>
               if \<not> r_after r then s1\<lparr>s_active := False\<rparr>
               else runLoop e cfg mid params rs (sub_sleep (reconnect cfg) s1)))"

section \<open>Backoff\<close>

lemma backoff_loop_bounded:
  "backoff \<le> max_backoff_ms cfg \<Longrightarrow> backoff_loop cfg attempt i backoff \<le> max_backoff_ms cfg"
proof (induction cfg attempt i backoff rule: backoff_loop.induct)
  case (1 cfg attempt i backoff)
  show ?case
  proof (cases "i < attempt \<and> backoff < max_backoff_ms cfg")
    case True
    let ?b = "if multiplier cfg backoff > max_backoff_ms cfg then max_backoff_ms cfg else multiplier cfg backoff"
    have "?b \<le> max_backoff_ms cfg" by auto
    with 1(1) True have "backoff_loop cfg attempt (i + 1) ?b \<le> max_backoff_ms cfg" by simp
    then show ?thesis using True by (subst backoff_loop.simps) (simp add: Let_def)
  next
    case False
    with 1(2) show ?thesis by (subst backoff_loop.simps) (simp only: if_False)
  qed
qed

lemma backoff_loop_grows:
  "(\<And>b. b < max_backoff_ms cfg \<Longrightarrow> b \<le> multiplier cfg b)
   \<Longrightarrow> backoff \<le> backoff_loop cfg attempt i backoff"
proof (induction cfg attempt i backoff rule: backoff_loop.induct)
  case (1 cfg attempt i backoff)
  show ?case
  proof (cases "i < attempt \<and> backoff < max_backoff_ms cfg")
    case True
    let ?b = "if multiplier cfg backoff > max_backoff_ms cfg then max_backoff_ms cfg else multiplier cfg backoff"
    have "backoff \<le> ?b" using True "1.prems" by auto
    also have "?b \<le> backoff_loop cfg attempt (i + 1) ?b" using 1 True by simp
    finally show ?thesis using True by (subst backoff_loop.simps) (simp add: Let_def)
  qed (subst backoff_loop.simps, auto)
qed

section \<open>The client's descriptors\<close>

definition client_inv :: "client \<Rightarrow> bool" where
  "client_inv cl \<longleftrightarrow> (m_connected cl \<longleftrightarrow> 0 \<le> m_fd cl) \<and> cl_open cl = (if m_connected cl then {m_fd cl} else {})"

text \<open>A free non-negative number for every socket the attempt opens.\<close>

definition io_ok :: "attempt_io \<Rightarrow> bool" where
  "io_ok io \<longleftrightarrow> (\<forall>fd. a_socket io = Some fd \<longrightarrow> 0 \<le> fd)"

lemma client_inv_new: "client_inv client_new"
  by (simp add: client_inv_def client_new_def)

lemma doConnect_inv [inv_intros]:
  "io_ok io \<Longrightarrow> client_inv cl \<Longrightarrow> \<not> m_connected cl \<Longrightarrow> client_inv (snd (doConnect io cl))"
  by (auto simp: doConnect_def client_inv_def io_ok_def Let_def split: option.splits)

lemma doConnect_connected:
  "io_ok io \<Longrightarrow> doConnect io cl = (True, cl') \<Longrightarrow> m_connected cl' \<and> 0 \<le> m_fd cl' \<and> cl_sent cl' = cl_sent cl"
  by (auto simp: doConnect_def io_ok_def Let_def split: option.splits if_splits)

lemma doConnect_failed: "doConnect io cl = (False, cl') \<Longrightarrow> m_fd cl' = -1 \<and> m_connected cl' = m_connected cl \<and> cl_sent cl' = cl_sent cl"
  by (auto simp: doConnect_def Let_def split: option.splits if_splits)

lemma drop_inv [inv_intros]: "client_inv cl \<Longrightarrow> client_inv (drop_connection cl) \<and> \<not> m_connected (drop_connection cl)"
  by (auto simp: drop_connection_def client_inv_def Let_def)

lemma drop_frame [frame_simps, simp]: "cl_sent (drop_connection cl) = cl_sent cl"
  by (simp add: drop_connection_def Let_def)

lemma doCall_frame [frame_simps]:
  assumes "doCall e maxlen mid params cl = (fin, cl')"
  shows "m_fd cl' = m_fd cl" "m_connected cl' = m_connected cl" "cl_open cl' = cl_open cl"
    "\<exists>bytes. cl_sent cl' = cl_sent cl @ [(m_fd cl, bytes)]"
  using assms by (auto simp: doCall_def Let_def split: prod.splits option.splits if_splits bool.splits)

lemma doCall_inv [inv_intros]: "client_inv cl \<Longrightarrow> doCall e maxlen mid params cl = (fin, cl') \<Longrightarrow> client_inv cl'"
  using doCall_frame by (fastforce simp: client_inv_def)

section \<open>Calls\<close>

lemma doCall_lastResult:
  "doCall e maxlen mid params cl = (True, cl') \<Longrightarrow>
     \<exists>rs. readResponse e (cl_rs cl) maxlen = (Some (m_lastResult cl'), rs) \<and> cl_rs cl' = rs"
  by (auto simp: doCall_def Let_def split: prod.splits option.splits if_splits)

lemma lazy_connect:
  assumes "client_inv cl" "io_ok io" "(if \<not> m_connected cl then doConnect io cl else (True, cl)) = (ok, cl1)"
  shows "client_inv cl1 \<and> cl_sent cl1 = cl_sent cl \<and> (if ok then m_connected cl1 \<and> 0 \<le> getFd cl1 else \<not> m_connected cl1)"
proof (cases "m_connected cl")
  case True
  with assms show ?thesis by (auto simp: getFd_def client_inv_def)
next
  case False
  with assms(3) have run: "doConnect io cl = (ok, cl1)" by simp
  have inv: "client_inv cl1" using doConnect_inv [OF assms(2,1) False] run by simp
  show ?thesis
  proof (cases ok)
    case True
    with run have "doConnect io cl = (True, cl1)" by simp
    from doConnect_connected [OF assms(2) this] inv True show ?thesis by (simp add: getFd_def)
  next
    case F: False
    with run have "doConnect io cl = (False, cl1)" by simp
    from doConnect_failed [OF this] inv F False show ?thesis by simp
  qed
qed

text \<open>A call ends connected with a response, or disconnected with a transport error.\<close>

definition ended :: "client \<Rightarrow> (i32 \<times> byte list) \<Rightarrow> client \<Rightarrow> nat \<Rightarrow> bool" where
  "ended cl r cl' n \<longleftrightarrow> client_inv cl'
     \<and> (\<exists>sent. cl_sent cl' = cl_sent cl @ sent \<and> length sent \<le> n)
     \<and> (m_connected cl' \<and> r = m_lastResult cl'
        \<or> \<not> m_connected cl' \<and> r \<in> {makeTransportError kSocketFailed, makeTransportError kTransportFailed})"

lemma attempt_ends:
  assumes "client_inv cl" "m_connected cl" "doCall e maxlen mid params cl = (ok, cl')"
  shows "if ok then client_inv cl' \<and> m_connected cl' \<and> (\<exists>b. cl_sent cl' = cl_sent cl @ [b])
         else client_inv (drop_connection cl') \<and> \<not> m_connected (drop_connection cl')
              \<and> (\<exists>b. cl_sent (drop_connection cl') = cl_sent cl @ [b])"
proof -
  obtain b where "cl_sent cl' = cl_sent cl @ [(m_fd cl, b)]" using doCall_frame(4) [OF assms(3)] by blast
  then show ?thesis
    using doCall_inv [OF assms(1,3)] doCall_frame(2) [OF assms(3)] assms(2) drop_inv [of cl'] by auto
qed

lemma callOnce_ends:
  assumes "client_inv cl" "io_ok io1" "callOnce e maxlen io1 mid params cl = (r, cl')"
  shows "ended cl r cl' 1"
proof -
  obtain ok cl1 where c: "(if \<not> m_connected cl then doConnect io1 cl else (True, cl)) = (ok, cl1)" by (rule prod.exhaust)
  note l = lazy_connect [OF assms(1,2) c]
  show ?thesis
  proof (cases ok)
    case False
    with assms(3) c l show ?thesis by (auto simp: callOnce_def Let_def ended_def)
  next
    case True
    obtain ok2 cl2 where d: "doCall e maxlen mid params cl1 = (ok2, cl2)" by (rule prod.exhaust)
    have "client_inv cl1" "m_connected cl1" using l True by auto
    from attempt_ends [OF this d] assms(3) c l d True show ?thesis
      by (cases ok2) (auto simp: callOnce_def Let_def ended_def)
  qed
qed

lemma call_ends:
  assumes "client_inv cl" "io_ok io1" "io_ok io2" "call e maxlen io1 id io2 mid params cl = (r, cl')"
  shows "ended cl r cl' 2"
proof -
  obtain ok cl1 where c: "(if \<not> m_connected cl then doConnect io1 cl else (True, cl)) = (ok, cl1)" by (rule prod.exhaust)
  note l = lazy_connect [OF assms(1,2) c]
  show ?thesis
  proof (cases ok)
    case False
    with assms(4) c l show ?thesis by (auto simp: call_def Let_def ended_def)
  next
    case True
    obtain ok2 cl2 where d: "doCall e maxlen mid params cl1 = (ok2, cl2)" by (rule prod.exhaust)
    have conn: "client_inv cl1" "m_connected cl1" using l True by auto
    note a = attempt_ends [OF conn d]
    show ?thesis
    proof (cases ok2)
      case ok2: True
      with a assms(4) c l d True show ?thesis by (auto simp: call_def Let_def ended_def)
    next
      case ok2: False
      let ?cl3 = "drop_connection cl2"
      have inv3: "client_inv ?cl3" "\<not> m_connected ?cl3" and s3: "\<exists>b. cl_sent ?cl3 = cl_sent cl @ [b]"
        using a ok2 l by auto
      obtain ok4 cl4 where c4: "doConnect io2 ?cl3 = (ok4, cl4)" by (rule prod.exhaust)
      have "(if \<not> m_connected ?cl3 then doConnect io2 ?cl3 else (True, ?cl3)) = (ok4, cl4)" using c4 inv3 by simp
      note l4 = lazy_connect [OF inv3(1) assms(3) this]
      show ?thesis
      proof (cases ok4)
        case False
        with assms(4) c l d True ok2 c4 l4 s3 show ?thesis by (auto simp: call_def Let_def ended_def)
      next
        case ok4: True
        obtain ok5 cl5 where d5: "doCall e maxlen mid params cl4 = (ok5, cl5)" by (rule prod.exhaust)
        have "client_inv cl4" "m_connected cl4" using l4 ok4 by auto
        from attempt_ends [OF this d5] assms(4) c l d True ok2 c4 l4 s3 ok4 d5 show ?thesis
          by (cases ok5) (auto simp: call_def Let_def ended_def)
      qed
    qed
  qed
qed

section \<open>Subscriptions\<close>

lemma eventLoop_frames: "eventLoop e maxlen (replicate n True) rs = read_frames n (\<lambda>s. readEvent e s maxlen) rs"
  by (induction n arbitrary: rs) (auto split: prod.splits option.splits)

lemma handshake_prefix:
  assumes "doConnectAndSubscribe e maxlen io mid params {} = (res, bytes, sock, opened)"
  shows "(\<exists>rest. bytes @ rest = encodeRequest e mid params)
    \<and> (case res of SubFd fd \<Rightarrow> opened = {fd} \<and> bytes = encodeRequest e mid params | _ \<Rightarrow> opened = {})"
proof -
  have pre: "\<exists>rest. out @ rest = encodeRequest e mid params" if "writeRequest e ws mid params = (ok, out, ws')" for ok out ws ws'
  proof (cases ok)
    case True
    with that have "writeAll ws (encodeRequest e mid params) = (True, out, ws')" by (simp add: writeRequest_def)
    from writeAll_complete [OF this] show ?thesis by simp
  next
    case False
    with that have "writeAll ws (encodeRequest e mid params) = (False, out, ws')" by (simp add: writeRequest_def)
    from writeAll_partial [OF this] show ?thesis by auto
  qed
  have full: "out = encodeRequest e mid params" if "writeRequest e ws mid params = (True, out, ws')" for out ws ws'
    using that writeAll_complete by (simp add: writeRequest_def)
  show ?thesis
  proof (cases "a_socket io")
    case None
    with assms show ?thesis by (auto simp: doConnectAndSubscribe_def)
  next
    case (Some fd)
    obtain ok out ws' where w: "writeRequest e (a_send io) mid params = (ok, out, ws')" by (rule prod_cases3)
    obtain q rs where q: "readResponse e (a_recv io) maxlen = (q, rs)" by (rule prod.exhaust)
    show ?thesis
      using assms Some pre [OF w] full w q
      by (cases "connectWithTimeout (a_connect io)"; cases ok; cases q)
        (auto simp: doConnectAndSubscribe_def Let_def split: if_splits)
  qed
qed

text \<open>What holds of a subscription between two rounds.\<close>

definition sub_inv :: "byte_order \<Rightarrow> IpcConfig \<Rightarrow> u32 \<Rightarrow> byte list \<Rightarrow> sub \<Rightarrow> bool" where
  "sub_inv e cfg mid params s \<longleftrightarrow> s_open s = {}
     \<and> (\<forall>b \<in> set (s_handshakes s). \<exists>rest. b @ rest = encodeRequest e mid params)
     \<and> (initial_backoff_ms (reconnect cfg) \<le> max_backoff_ms (reconnect cfg)
        \<longrightarrow> (\<forall>d \<in> set (s_sleeps s). d \<le> max_backoff_ms (reconnect cfg)))
     \<and> length (s_sleeps s) \<le> length (s_handshakes s)"

lemma sub_inv_new: "sub_inv e cfg mid params sub_new"
  by (simp add: sub_inv_def sub_new_def)

lemma runLoop_inv:
  "sub_inv e cfg mid params s
   \<Longrightarrow> sub_inv e cfg mid params (runLoop e cfg mid params rounds s)
     \<and> length (s_handshakes (runLoop e cfg mid params rounds s)) \<le> length (s_handshakes s) + length rounds"
proof (induction rounds arbitrary: s)
  case (Cons r rs)
  show ?case
  proof (cases "s_active s \<and> r_enter r")
    case False
    with Cons.prems show ?thesis by (auto simp: sub_inv_def)
  next
    case True
    have empty: "s_open s = {}" using Cons.prems by (simp add: sub_inv_def)
    obtain res bytes sock opened where d:
      "doConnectAndSubscribe e (max_frame_bytes cfg) (r_io r) mid params (s_open s) = (res, bytes, sock, opened)"
      by (rule prod_cases4)
    note h = handshake_prefix [OF d [unfolded empty]]
    let ?s1 = "s\<lparr>s_open := opened, s_handshakes := s_handshakes s @ [bytes]\<rparr>"
    have slept: "sub_inv e cfg mid params (sub_sleep (reconnect cfg) t)"
      if "sub_inv e cfg mid params t" "length (s_sleeps t) < length (s_handshakes t)" for t
      using that backoff_loop_bounded [of "initial_backoff_ms (reconnect cfg)" "reconnect cfg"]
      by (auto simp: sub_inv_def sub_sleep_def calculateBackoff_def)
    show ?thesis
    proof (cases res)
      case (SubFd fd)
      let ?s2 = "?s1\<lparr>s_attempt := 0,
          s_callbacks := s_callbacks ?s1 @ eventLoop e (max_frame_bytes cfg) (r_events r) sock,
          s_open := s_open ?s1 - {fd}\<rparr>"
      have inv2: "sub_inv e cfg mid params ?s2" "length (s_sleeps ?s2) < length (s_handshakes ?s2)"
        using Cons.prems h SubFd by (auto simp: sub_inv_def)
      show ?thesis
      proof (cases "r_after r")
        case False
        with inv2 True d SubFd show ?thesis by (auto simp: Let_def sub_inv_def)
      next
        case after: True
        from Cons.IH [OF slept [OF inv2]]
        have "sub_inv e cfg mid params (runLoop e cfg mid params rs (sub_sleep (reconnect cfg) ?s2))"
          "length (s_handshakes (runLoop e cfg mid params rs (sub_sleep (reconnect cfg) ?s2)))
            \<le> length (s_handshakes ?s2) + length rs"
          by (simp_all add: sub_sleep_def)
        with True d SubFd after show ?thesis by (simp add: Let_def)
      qed
    next
      case SubRejected
      with Cons.prems h True d show ?thesis by (auto simp: Let_def sub_inv_def)
    next
      case SubFailed
      have inv1: "sub_inv e cfg mid params ?s1" "length (s_sleeps ?s1) < length (s_handshakes ?s1)"
        using Cons.prems h SubFailed by (auto simp: sub_inv_def)
      show ?thesis
      proof (cases "r_after r")
        case False
        with inv1 True d SubFailed show ?thesis by (auto simp: Let_def sub_inv_def)
      next
        case after: True
        from Cons.IH [OF slept [OF inv1]]
        have "sub_inv e cfg mid params (runLoop e cfg mid params rs (sub_sleep (reconnect cfg) ?s1))"
          "length (s_handshakes (runLoop e cfg mid params rs (sub_sleep (reconnect cfg) ?s1)))
            \<le> length (s_handshakes ?s1) + length rs"
          by (simp_all add: sub_sleep_def)
        with True d SubFailed after show ?thesis by (simp add: Let_def)
      qed
    qed
  qed
qed simp

lemma is_connected_after:
  "connect io cl = (ok, cl') \<Longrightarrow> is_connected cl' = ok" "\<not> is_connected (drop_connection cl)"
  by (auto simp: is_connected_def connect_def doConnect_def drop_connection_def Let_def split: option.splits if_splits)

section \<open>Properties\<close>

text \<open>C31. When no other thread touches the client during its backoff, a call ends either connected, with the
  response it read, or disconnected, with FW-0301 or FW-0304 negated; it writes its request at most
  twice, and \<open>callOnce\<close> at most once; the client's one descriptor is the only one left open.\<close>

theorem calls_end_cleanly:
  assumes "client_inv cl" "io_ok io1" "io_ok io2"
  shows "(case call e maxlen io1 id io2 mid params cl of (r, cl') \<Rightarrow> ended cl r cl' 2)
    \<and> (case callOnce e maxlen io1 mid params cl of (r, cl') \<Rightarrow> ended cl r cl' 1)"
  using call_ends [OF assms] callOnce_ends [OF assms(1,2)] by (auto split: prod.splits)

definition good_connect :: connect_io where
  "good_connect = \<lparr>c_getfl = True, c_setfl = True, c_connect = Connected, c_select = 0, c_error = 0\<rparr>"

definition silent_peer :: "int \<Rightarrow> attempt_io" where
  "silent_peer fd = \<lparr>a_socket = Some fd, a_connect = good_connect, a_send = [Taken 100], a_recv = [RecvEof]\<rparr>"

theorem calls_end_cleanly_witness:
  "case call LittleEndian 64 (silent_peer 5) id (silent_peer 6) 7 [1] client_new of (r, cl') \<Rightarrow> ended client_new r cl' 2"
proof -
  have "io_ok (silent_peer fd)" if "0 \<le> fd" for fd using that by (simp add: io_ok_def silent_peer_def)
  then show ?thesis
    using calls_end_cleanly [OF client_inv_new, of "silent_peer 5" "silent_peer 6" LittleEndian 64 7 "[1]"] by simp
qed

text \<open>The state mutex is not held during the backoff: a \<open>connect\<close> by another thread in that time opens a
  descriptor the reconnect then overwrites, and it stays open for good.\<close>

theorem reconnect_leaks_descriptor:
  "let (r, cl) = call LittleEndian 64 (silent_peer 5) (\<lambda>c. snd (connect (silent_peer 8) c)) (silent_peer 6) 7 [1] client_new
   in r = makeTransportError kTransportFailed \<and> m_fd cl = -1 \<and> cl_open cl = {8}"
proof -
  have req: "encodeRequest LittleEndian 7 [1] \<noteq> []" "length (encodeRequest LittleEndian 7 [1]) = 9"
    by (simp_all add: encodeRequest_def codec_simps flip: length_greater_0_conv)
  have w: "writeRequest LittleEndian [Taken 100] 7 [1] = (True, encodeRequest LittleEndian 7 [1], [])"
    using req by (simp add: writeRequest_def writeAll.simps)
  have r: "readResponse LittleEndian [RecvEof] 64 = (None, [RecvEof])"
    by (simp add: readResponse_def readExact.simps header_size_def)
  show ?thesis
    by (simp add: call_def client_new_def silent_peer_def good_connect_def doConnect_def connect_def
        connectWithTimeout_def getFd_def doCall_def w r drop_connection_def Let_def)
qed

text \<open>The reconnect delay never exceeds the configured maximum and never falls below the initial delay,
  when the initial delay is within the maximum and the multiplier does not shrink it.\<close>

theorem backoff_within_bounds:
  assumes "initial_backoff_ms cfg \<le> max_backoff_ms cfg"
    and "\<And>b. b < max_backoff_ms cfg \<Longrightarrow> b \<le> multiplier cfg b"
  shows "initial_backoff_ms cfg \<le> calculateBackoff cfg attempt \<and> calculateBackoff cfg attempt \<le> max_backoff_ms cfg"
  using backoff_loop_bounded [OF assms(1)] backoff_loop_grows [OF assms(2)] by (simp add: calculateBackoff_def)

theorem backoff_within_bounds_witness:
  "let cfg = reconnect sample_config
   in initial_backoff_ms cfg \<le> calculateBackoff cfg 9 \<and> calculateBackoff cfg 9 \<le> max_backoff_ms cfg"
proof -
  let ?cfg = "reconnect sample_config"
  have "b \<le> multiplier ?cfg b" if "b < max_backoff_ms ?cfg" for b
  proof -
    have b: "unat b < 5000" using that by (simp add: sample_config_def word_less_nat_alt)
    then have "unat b * unat (2 :: u32) < 2 ^ LENGTH(32)" by simp
    then have "unat (b * 2) = unat b * unat (2 :: u32)" by (rule unat_mult_lem [THEN iffD1])
    then have "unat b \<le> unat (b * 2)" by simp
    then show ?thesis by (simp add: sample_config_def word_le_nat_alt)
  qed
  then show ?thesis
    using backoff_within_bounds [of ?cfg 9] by (simp add: sample_config_def Let_def)
qed

text \<open>A subscription sends the same request on every connection, closes every socket it opened, sleeps
  at most once per attempt and never longer than the maximum; it makes at most one attempt per round.\<close>

theorem subscription_rounds:
  "let s = runLoop e cfg mid params rounds sub_new
   in s_open s = {} \<and> (\<forall>b \<in> set (s_handshakes s). \<exists>rest. b @ rest = encodeRequest e mid params)
     \<and> (initial_backoff_ms (reconnect cfg) \<le> max_backoff_ms (reconnect cfg)
        \<longrightarrow> (\<forall>d \<in> set (s_sleeps s). d \<le> max_backoff_ms (reconnect cfg)))
     \<and> length (s_sleeps s) \<le> length (s_handshakes s) \<and> length (s_handshakes s) \<le> length rounds"
  using runLoop_inv [OF sub_inv_new, of e cfg mid params rounds]
  by (auto simp: sub_inv_def sub_new_def Let_def)

theorem subscription_rounds_witness:
  "let s = runLoop LittleEndian sample_config 3 [9]
             [\<lparr>r_enter = True, r_io = silent_peer 4, r_after = True, r_events = []\<rparr>] sub_new
   in s_open s = {} \<and> (\<forall>d \<in> set (s_sleeps s). d \<le> 5000)"
proof -
  let ?s = "runLoop LittleEndian sample_config 3 [9]
      [\<lparr>r_enter = True, r_io = silent_peer 4, r_after = True, r_events = []\<rparr>] sub_new"
  have cfg: "initial_backoff_ms (reconnect sample_config) = 100" "max_backoff_ms (reconnect sample_config) = 5000"
    by (simp_all add: sample_config_def)
  from subscription_rounds [of LittleEndian sample_config 3 "[9]"
      "[\<lparr>r_enter = True, r_io = silent_peer 4, r_after = True, r_events = []\<rparr>]"]
  have "s_open ?s = {} \<and> ((100 :: u32) \<le> 5000 \<longrightarrow> (\<forall>d \<in> set (s_sleeps ?s). d \<le> 5000))"
    unfolding Let_def cfg by blast
  then show ?thesis unfolding Let_def by simp
qed

text \<open>After an accepted handshake the callback receives exactly the event frames that follow the response
  on the stream, in order and with their payloads, whatever the segmentation.\<close>

theorem events_in_order:
  assumes "a_socket io = Some fd" "connectWithTimeout (a_connect io)"
    and "writeRequest e (a_send io) mid params = (True, out, ws)"
    and "pending (a_recv io) = encodeResponse e 0 reply @ concat (map (\<lambda>(k, b). encodeEvent e k b) evs) @ later"
    and "length reply \<le> unat maxlen" "\<forall>(k, b) \<in> set evs. length b \<le> unat maxlen"
  shows "case doConnectAndSubscribe e maxlen io mid params {} of (res, bytes, sock, opened) \<Rightarrow>
      res = SubFd fd \<and> bytes = encodeRequest e mid params
      \<and> eventLoop e maxlen (replicate (length evs) True) sock = evs"
proof -
  obtain rs where rs: "readResponse e (a_recv io) maxlen = (Some (0, reply), rs)"
      "pending rs = event_channel.encode_all e evs @ later"
    using response_channel.rd_enc [OF assms(4,5)] by (auto simp: event_channel.encode_all_def)
  from event_channel.read_frames_stream [OF rs(2) assms(6), where n = 0]
  have "read_frames (length evs) (\<lambda>s. readEvent e s maxlen) rs = evs" by auto
  moreover have "out = encodeRequest e mid params"
    using assms(3) writeAll_complete by (simp add: writeRequest_def)
  ultimately show ?thesis
    using assms(1-3) rs(1) by (simp add: doConnectAndSubscribe_def Let_def eventLoop_frames)
qed

definition event_peer :: attempt_io where
  "event_peer =
     \<lparr>a_socket = Some 4, a_connect = good_connect, a_send = [Taken 100],
      a_recv = [Segment (encodeResponse LittleEndian 0 [] @ encodeEvent LittleEndian 5 [1, 2] @ encodeEvent LittleEndian 6 [3])]\<rparr>"

theorem events_in_order_witness:
  "case doConnectAndSubscribe LittleEndian 64 event_peer 3 [] {} of (res, bytes, sock, opened) \<Rightarrow>
     res = SubFd 4 \<and> eventLoop LittleEndian 64 (replicate 2 True) sock = [(5, [1, 2]), (6, [3])]"
proof -
  let ?evs = "[(5, [1, 2]), (6, [3])] :: (u32 \<times> byte list) list"
  have w: "writeRequest LittleEndian (a_send event_peer) 3 [] = (True, encodeRequest LittleEndian 3 [], [])"
    by (simp add: event_peer_def writeRequest_def writeAll.simps encodeRequest_def codec_simps flip: length_greater_0_conv)
  have sock: "a_socket event_peer = Some 4" "connectWithTimeout (a_connect event_peer)"
    by (simp_all add: event_peer_def good_connect_def connectWithTimeout_def)
  have wire: "pending (a_recv event_peer) = encodeResponse LittleEndian 0 []
      @ concat (map (\<lambda>(k, b). encodeEvent LittleEndian k b) ?evs) @ []"
    by (simp add: event_peer_def)
  have len: "length ?evs = 2" by simp
  from events_in_order [OF sock w wire, of 64] show ?thesis
    unfolding len by (auto split: prod.splits)
qed

end
