(* ===== verification/Ipc_Subscription.thy ===== *)
theory Ipc_Subscription
  imports Ipc_Client
begin

text \<open>
  The two threads of a subscription (\<open>Subscription::Impl\<close> in \<open>src/ipc/ipc_client.cpp\<close>): the reading thread
  \<open>runLoop\<close> and the callers of \<open>cancel\<close>, which its mutex runs one at a time, over the atomics \<open>m_active\<close> and
  \<open>m_fd\<close> and the process's descriptor table, which other threads change too.  Each step is one access to shared
  state; the handshake is one step (its waits are limited by the connect and receive timeouts), and what it
  sends and reads is the subject of \<open>Ipc_Client\<close>.
\<close>

section \<open>State\<close>

text \<open>Whose socket a descriptor is.\<close>

datatype owner = Free | Ours | Theirs

text \<open>Where \<open>runLoop\<close> stands: at its loop test, connecting, after a failed handshake (True: rejected by the
  server), about to store the descriptor, at the event loop's test, in its read, about to clear \<open>m_fd\<close>, about
  to close, at the test after it, in the backoff sleep, about to clear \<open>m_active\<close>, and returned.\<close>

datatype reader = AtLoop | Connecting | Failed bool | Rejecting | Storing nat | AtEvents nat | Reading nat
  | Clearing nat | Closing nat | AfterClose | Sleeping | Stopping | Finished

datatype canceller = NoCancel | AtExchange | AtFd | AtShutdown nat | AtJoin

record subscription =
  m_active :: bool
  sb_fd :: "nat option"
  sb_reader :: reader
  sb_cancel :: canceller
  sb_joined :: bool
  sb_table :: "nat \<Rightarrow> owner"
  sb_down :: "nat set"

definition sub_start :: "(nat \<Rightarrow> owner) \<Rightarrow> subscription" where
  "sub_start table =
     \<lparr>m_active = True, sb_fd = None, sb_reader = AtLoop, sb_cancel = NoCancel, sb_joined = False,
      sb_table = table, sb_down = {}\<rparr>"

section \<open>The steps of runLoop\<close>

definition at_loop :: "subscription \<Rightarrow> subscription" where
  "at_loop s = s\<lparr>sb_reader := (if m_active s then Connecting else Stopping)\<rparr>"

definition subscribed :: "nat \<Rightarrow> subscription \<Rightarrow> subscription" where
  "subscribed fd s = s\<lparr>sb_table := (sb_table s)(fd := Ours), sb_down := sb_down s - {fd}, sb_reader := Storing fd\<rparr>"

definition after_failure :: "bool \<Rightarrow> subscription \<Rightarrow> subscription" where
  "after_failure rejected s =
     s\<lparr>sb_reader := (if \<not> m_active s then Stopping else if rejected then Rejecting else Sleeping)\<rparr>"

definition reject :: "subscription \<Rightarrow> subscription" where
  "reject s = s\<lparr>m_active := False, sb_reader := Stopping\<rparr>"

definition store_fd :: "nat \<Rightarrow> subscription \<Rightarrow> subscription" where
  "store_fd fd s = s\<lparr>sb_fd := Some fd, sb_reader := AtEvents fd\<rparr>"

definition at_events :: "nat \<Rightarrow> subscription \<Rightarrow> subscription" where
  "at_events fd s = s\<lparr>sb_reader := (if m_active s then Reading fd else Clearing fd)\<rparr>"

definition read_done :: "nat \<Rightarrow> bool \<Rightarrow> subscription \<Rightarrow> subscription" where
  "read_done fd ok s = s\<lparr>sb_reader := (if ok then AtEvents fd else Clearing fd)\<rparr>"

definition clear_fd :: "nat \<Rightarrow> subscription \<Rightarrow> subscription" where
  "clear_fd fd s = s\<lparr>sb_fd := None, sb_reader := Closing fd\<rparr>"

definition close_fd :: "nat \<Rightarrow> subscription \<Rightarrow> subscription" where
  "close_fd fd s = s\<lparr>sb_table := (sb_table s)(fd := Free), sb_down := sb_down s - {fd}, sb_reader := AfterClose\<rparr>"

definition after_close :: "subscription \<Rightarrow> subscription" where
  "after_close s = s\<lparr>sb_reader := (if m_active s then Sleeping else Stopping)\<rparr>"

definition run_stop :: "subscription \<Rightarrow> subscription" where
  "run_stop s = s\<lparr>m_active := False, sb_reader := Finished\<rparr>"

inductive reader_step :: "subscription \<Rightarrow> subscription \<Rightarrow> bool" where
  Loop: "sb_reader s = AtLoop \<Longrightarrow> reader_step s (at_loop s)"
| Fail: "sb_reader s = Connecting \<Longrightarrow> reader_step s (s\<lparr>sb_reader := Failed rejected\<rparr>)"
| Subscribe: "sb_reader s = Connecting \<Longrightarrow> sb_table s fd = Free \<Longrightarrow> reader_step s (subscribed fd s)"
| AfterFail: "sb_reader s = Failed rejected \<Longrightarrow> reader_step s (after_failure rejected s)"
| Reject: "sb_reader s = Rejecting \<Longrightarrow> reader_step s (reject s)"
| Store: "sb_reader s = Storing fd \<Longrightarrow> reader_step s (store_fd fd s)"
| Events: "sb_reader s = AtEvents fd \<Longrightarrow> reader_step s (at_events fd s)"
| Read: "sb_reader s = Reading fd \<Longrightarrow> reader_step s (read_done fd ok s)"
| Clear: "sb_reader s = Clearing fd \<Longrightarrow> reader_step s (clear_fd fd s)"
| Close: "sb_reader s = Closing fd \<Longrightarrow> reader_step s (close_fd fd s)"
| After: "sb_reader s = AfterClose \<Longrightarrow> reader_step s (after_close s)"
| Wake: "sb_reader s = Sleeping \<Longrightarrow> reader_step s (s\<lparr>sb_reader := AtLoop\<rparr>)"
| Stop: "sb_reader s = Stopping \<Longrightarrow> reader_step s (run_stop s)"

text \<open>The read of a connection nobody has shut down may wait; every other step is taken on its own.\<close>

definition waits :: "subscription \<Rightarrow> bool" where
  "waits s \<longleftrightarrow> (\<exists>fd. sb_reader s = Reading fd \<and> fd \<notin> sb_down s)"

section \<open>The steps of cancel\<close>

definition cancel_exchange :: "subscription \<Rightarrow> subscription" where
  "cancel_exchange s = (if m_active s then s\<lparr>m_active := False, sb_cancel := AtFd\<rparr> else s\<lparr>sb_cancel := AtJoin\<rparr>)"

definition cancel_take_fd :: "subscription \<Rightarrow> subscription" where
  "cancel_take_fd s = s\<lparr>sb_fd := None, sb_cancel := (case sb_fd s of Some fd \<Rightarrow> AtShutdown fd | None \<Rightarrow> AtJoin)\<rparr>"

text \<open>\<open>shutdown\<close> acts on whatever socket has the number now.\<close>

definition cancel_shutdown :: "nat \<Rightarrow> subscription \<Rightarrow> subscription" where
  "cancel_shutdown fd s =
     s\<lparr>sb_down := (if sb_table s fd = Free then sb_down s else insert fd (sb_down s)), sb_cancel := AtJoin\<rparr>"

inductive cancel_step :: "subscription \<Rightarrow> subscription \<Rightarrow> bool" where
  Begin: "sb_cancel s = NoCancel \<Longrightarrow> cancel_step s (s\<lparr>sb_cancel := AtExchange\<rparr>)"
| Exchange: "sb_cancel s = AtExchange \<Longrightarrow> cancel_step s (cancel_exchange s)"
| TakeFd: "sb_cancel s = AtFd \<Longrightarrow> cancel_step s (cancel_take_fd s)"
| Shutdown: "sb_cancel s = AtShutdown fd \<Longrightarrow> cancel_step s (cancel_shutdown fd s)"
| Join: "sb_cancel s = AtJoin \<Longrightarrow> sb_joined s \<or> sb_reader s = Finished
    \<Longrightarrow> cancel_step s (s\<lparr>sb_joined := True, sb_cancel := NoCancel\<rparr>)"

inductive sub_step :: "subscription \<Rightarrow> subscription \<Rightarrow> bool" where
  Reader: "reader_step s s' \<Longrightarrow> sub_step s s'"
| Cancel: "cancel_step s s' \<Longrightarrow> sub_step s s'"
| OtherOpen: "sb_table s fd = Free \<Longrightarrow> sub_step s (s\<lparr>sb_table := (sb_table s)(fd := Theirs), sb_down := sb_down s - {fd}\<rparr>)"
| OtherClose: "sb_table s fd = Theirs \<Longrightarrow> sub_step s (s\<lparr>sb_table := (sb_table s)(fd := Free), sb_down := sb_down s - {fd}\<rparr>)"

inductive sub_reach :: "subscription \<Rightarrow> bool" where
  Start: "\<forall>fd. table fd \<noteq> Ours \<Longrightarrow> sub_reach (sub_start table)"
| Step: "sub_reach s \<Longrightarrow> sub_step s s' \<Longrightarrow> sub_reach s'"

lemmas step_defs = at_loop_def subscribed_def after_failure_def reject_def store_fd_def at_events_def read_done_def
  clear_fd_def close_fd_def after_close_def run_stop_def cancel_exchange_def cancel_take_fd_def cancel_shutdown_def

section \<open>Invariant\<close>

fun reader_fds :: "reader \<Rightarrow> nat set" where
  "reader_fds (Storing fd) = {fd}"
| "reader_fds (AtEvents fd) = {fd}"
| "reader_fds (Reading fd) = {fd}"
| "reader_fds (Clearing fd) = {fd}"
| "reader_fds (Closing fd) = {fd}"
| "reader_fds _ = {}"

text \<open>What \<open>m_fd\<close> may be.\<close>

fun may_hold :: "reader \<Rightarrow> nat option set" where
  "may_hold (AtEvents fd) = {None, Some fd}"
| "may_hold (Reading fd) = {None, Some fd}"
| "may_hold (Clearing fd) = {None, Some fd}"
| "may_hold _ = {None}"

definition fds_ok :: "subscription \<Rightarrow> bool" where
  "fds_ok s \<longleftrightarrow> (\<forall>fd. sb_table s fd = Ours \<longleftrightarrow> fd \<in> reader_fds (sb_reader s)) \<and> sb_fd s \<in> may_hold (sb_reader s)"

definition cancel_ok :: "subscription \<Rightarrow> bool" where
  "cancel_ok s \<longleftrightarrow> (m_active s \<longrightarrow> sb_cancel s \<in> {NoCancel, AtExchange} \<and> sb_reader s \<noteq> Finished)
     \<and> (sb_joined s \<longrightarrow> sb_reader s = Finished)"

text \<open>A cancel that finds the reader reading has its descriptor to shut down, or will.\<close>

definition wake_ok :: "subscription \<Rightarrow> bool" where
  "wake_ok s \<longleftrightarrow>
     (case sb_reader s of
        AtEvents fd \<Rightarrow> m_active s \<longrightarrow> sb_fd s = Some fd
      | Reading fd \<Rightarrow> (m_active s \<longrightarrow> sb_fd s = Some fd)
          \<and> (sb_fd s = Some fd \<and> (m_active s \<or> sb_cancel s = AtFd) \<or> sb_cancel s = AtShutdown fd \<or> fd \<in> sb_down s)
      | _ \<Rightarrow> True)"

definition sub_inv :: "subscription \<Rightarrow> bool" where
  "sub_inv s \<longleftrightarrow> fds_ok s \<and> cancel_ok s \<and> wake_ok s"

lemma reader_inv: "reader_step s s' \<Longrightarrow> sub_inv s \<Longrightarrow> sub_inv s'"
  by (cases rule: reader_step.cases, assumption)
    (auto simp: sub_inv_def fds_ok_def cancel_ok_def wake_ok_def step_defs)

lemma only_ours: "\<forall>fd. (t fd = Ours) = (fd = x) \<Longrightarrow> t x \<noteq> Free"
  by (metis owner.distinct(1))

lemma cancel_inv: "cancel_step s s' \<Longrightarrow> sub_inv s \<Longrightarrow> sub_inv s'"
  by (cases rule: cancel_step.cases, assumption)
    (auto simp: sub_inv_def fds_ok_def cancel_ok_def wake_ok_def step_defs dest!: only_ours split: reader.splits option.splits)

lemma other_inv:
  assumes "sub_inv s" "sb_table s fd \<noteq> Ours" "x \<noteq> Ours"
  shows "sub_inv (s\<lparr>sb_table := (sb_table s)(fd := x), sb_down := sb_down s - {fd}\<rparr>)"
  using assms by (auto simp: sub_inv_def fds_ok_def cancel_ok_def wake_ok_def split: reader.splits)

lemma sub_inv_step: "sub_step s s' \<Longrightarrow> sub_inv s \<Longrightarrow> sub_inv s'"
  by (cases rule: sub_step.cases, assumption) (auto intro: reader_inv cancel_inv other_inv)

lemma sub_reach_inv: "sub_reach s \<Longrightarrow> sub_inv s"
proof (induction rule: sub_reach.induct)
  case (Start table)
  then show ?case by (simp add: sub_inv_def fds_ok_def cancel_ok_def wake_ok_def sub_start_def)
qed (rule sub_inv_step)

section \<open>Properties\<close>

text \<open>How many steps the reader is from its end once \<open>m_active\<close> is false.\<close>

fun steps_left :: "reader \<Rightarrow> nat" where
  "steps_left Connecting = 8"
| "steps_left (Storing fd) = 7"
| "steps_left (Reading fd) = 6"
| "steps_left (AtEvents fd) = 5"
| "steps_left (Clearing fd) = 4"
| "steps_left (Closing fd) = 3"
| "steps_left Sleeping = 3"
| "steps_left (Failed rejected) = 2"
| "steps_left AfterClose = 2"
| "steps_left AtLoop = 2"
| "steps_left Rejecting = 2"
| "steps_left Stopping = 1"
| "steps_left Finished = 0"

lemma steps_left_decreases: "reader_step s s' \<Longrightarrow> \<not> m_active s \<Longrightarrow> steps_left (sb_reader s') < steps_left (sb_reader s)"
  by (cases rule: reader_step.cases) (auto simp: step_defs)

lemma reader_enabled: "sb_reader s \<noteq> Finished \<Longrightarrow> \<exists>s'. reader_step s s'"
  by (cases "sb_reader s") (auto intro: reader_step.intros)

lemma still_inactive: "sub_step s s' \<Longrightarrow> \<not> m_active s \<Longrightarrow> \<not> m_active s'"
  by (auto elim!: sub_step.cases reader_step.cases cancel_step.cases simp: step_defs split: option.splits if_splits)


text \<open>C39. 
  The subscription holds at most one socket, the one its reader works on, and none once the reader has
  finished; \<open>m_fd\<close> never names another; and after a join nothing is left of it.
\<close>

theorem subscription_descriptors:
  assumes "sub_reach s"
  shows "(\<forall>fd. sb_table s fd = Ours \<longleftrightarrow> fd \<in> reader_fds (sb_reader s))
     \<and> (\<forall>fd. sb_fd s = Some fd \<longrightarrow> sb_table s fd = Ours)
     \<and> (sb_joined s \<longrightarrow> \<not> m_active s \<and> sb_fd s = None \<and> (\<forall>fd. sb_table s fd \<noteq> Ours))"
proof -
  from sub_reach_inv [OF assms] have inv: "fds_ok s" "cancel_ok s" by (simp_all add: sub_inv_def)
  then have 1: "\<forall>fd. sb_table s fd = Ours \<longleftrightarrow> fd \<in> reader_fds (sb_reader s)"
    and 2: "sb_fd s \<in> may_hold (sb_reader s)" by (simp_all add: fds_ok_def)
  have 3: "sb_joined s \<Longrightarrow> sb_reader s = Finished \<and> \<not> m_active s" using inv(2) by (auto simp: cancel_ok_def)
  from 2 have "\<forall>fd. sb_fd s = Some fd \<longrightarrow> fd \<in> reader_fds (sb_reader s)" by (cases "sb_reader s") auto
  with 1 have "\<forall>fd. sb_fd s = Some fd \<longrightarrow> sb_table s fd = Ours" by blast
  moreover have "sb_joined s \<Longrightarrow> \<not> m_active s \<and> sb_fd s = None \<and> (\<forall>fd. sb_table s fd \<noteq> Ours)"
    using 1 2 3 by simp
  ultimately show ?thesis using 1 by blast
qed

section \<open>A shutdown that comes late\<close>

text \<open>A subscription reading on descriptor \<open>n\<close>.\<close>

definition reading_on :: "nat \<Rightarrow> subscription" where
  "reading_on n = at_events n (store_fd n (subscribed n (at_loop (sub_start (\<lambda>fd. Free)))))"

lemma reading_on_val:
  "reading_on n = \<lparr>m_active = True, sb_fd = Some n, sb_reader = Reading n, sb_cancel = NoCancel, sb_joined = False,
     sb_table = (\<lambda>fd. Free)(n := Ours), sb_down = {}\<rparr>"
  by (simp add: reading_on_def step_defs sub_start_def)

lemma reach_reading_on: "sub_reach (reading_on n)"
proof -
  let ?s0 = "sub_start (\<lambda>fd. Free)"
  have "sub_reach ?s0" by (rule sub_reach.Start) simp
  moreover have "sub_step ?s0 (at_loop ?s0)" by (intro sub_step.Reader Loop) (simp add: sub_start_def)
  moreover have "sub_step (at_loop ?s0) (subscribed n (at_loop ?s0))"
    by (intro sub_step.Reader Subscribe) (simp_all add: sub_start_def at_loop_def)
  moreover have "sub_step (subscribed n (at_loop ?s0)) (store_fd n (subscribed n (at_loop ?s0)))"
    by (intro sub_step.Reader Store) (simp add: subscribed_def)
  moreover have "sub_step (store_fd n (subscribed n (at_loop ?s0))) (reading_on n)"
    unfolding reading_on_def by (intro sub_step.Reader Events) (simp add: store_fd_def)
  ultimately show ?thesis using sub_reach.Step by metis
qed

text \<open>A \<open>cancel\<close> takes the descriptor; the connection breaks, the reader closes it, another thread opens a
  socket that gets the number.\<close>

definition taken_on :: "nat \<Rightarrow> subscription" where
  "taken_on n = cancel_take_fd (cancel_exchange ((reading_on n)\<lparr>sb_cancel := AtExchange\<rparr>))"

definition closed_on :: "nat \<Rightarrow> subscription" where
  "closed_on n = close_fd n (clear_fd n (read_done n False (taken_on n)))"

definition reused_on :: "nat \<Rightarrow> subscription" where
  "reused_on n = (closed_on n)\<lparr>sb_table := (sb_table (closed_on n))(n := Theirs), sb_down := sb_down (closed_on n) - {n}\<rparr>"

lemma taken_on_val:
  "taken_on n = \<lparr>m_active = False, sb_fd = None, sb_reader = Reading n, sb_cancel = AtShutdown n, sb_joined = False,
     sb_table = (\<lambda>fd. Free)(n := Ours), sb_down = {}\<rparr>"
  by (simp add: taken_on_def cancel_take_fd_def cancel_exchange_def reading_on_val)

lemma closed_on_val:
  "closed_on n = \<lparr>m_active = False, sb_fd = None, sb_reader = AfterClose, sb_cancel = AtShutdown n, sb_joined = False,
     sb_table = (\<lambda>fd. Free), sb_down = {}\<rparr>"
  by (simp add: closed_on_def close_fd_def clear_fd_def read_done_def taken_on_val fun_eq_iff)

lemma reach_taken_on: "sub_reach (taken_on n)"
proof -
  let ?a = "(reading_on n)\<lparr>sb_cancel := AtExchange\<rparr>"
  have "sub_step (reading_on n) ?a" by (intro sub_step.Cancel Begin) (simp add: reading_on_val)
  moreover have "sub_step ?a (cancel_exchange ?a)" by (intro sub_step.Cancel Exchange) simp
  moreover have "sub_step (cancel_exchange ?a) (taken_on n)"
    unfolding taken_on_def by (intro sub_step.Cancel TakeFd) (simp add: cancel_exchange_def reading_on_val)
  ultimately show ?thesis using reach_reading_on sub_reach.Step by metis
qed

lemma reach_reused_on: "sub_reach (reused_on n)"
proof -
  let ?r = "read_done n False (taken_on n)"
  have "sub_step (taken_on n) ?r" by (intro sub_step.Reader Read) (simp add: taken_on_val)
  moreover have "sub_step ?r (clear_fd n ?r)" by (intro sub_step.Reader Clear) (simp add: read_done_def)
  moreover have "sub_step (clear_fd n ?r) (closed_on n)"
    unfolding closed_on_def by (intro sub_step.Reader Close) (simp add: clear_fd_def)
  moreover have "sub_step (closed_on n) (reused_on n)"
    unfolding reused_on_def by (rule sub_step.OtherOpen) (simp add: closed_on_val)
  ultimately show ?thesis using reach_taken_on sub_reach.Step by metis
qed

text \<open>
  \<open>cancel\<close> can shut down a socket that is not the subscription's: the descriptor it took from \<open>m_fd\<close> may have
  been closed by the reading thread and opened by another before the call.
\<close>

theorem cancel_shuts_down_foreign_socket:
  "\<exists>s s'. sub_reach s \<and> sb_table s n = Theirs \<and> n \<notin> sb_down s \<and> cancel_step s s'
     \<and> sb_table s' n = Theirs \<and> n \<in> sb_down s'"
proof -
  have "cancel_step (reused_on n) (cancel_shutdown n (reused_on n))"
    by (rule Shutdown) (simp add: reused_on_def closed_on_val)
  moreover have "sb_table (reused_on n) n = Theirs" "n \<notin> sb_down (reused_on n)" by (simp_all add: reused_on_def)
  ultimately show ?thesis using reach_reused_on [of n]
    by (intro exI [of _ "reused_on n"] exI [of _ "cancel_shutdown n (reused_on n)"]) (simp add: cancel_shutdown_def)
qed

text \<open>A cancel at its join, for the witnesses.\<close>

definition joining_on :: "nat \<Rightarrow> subscription" where
  "joining_on n = cancel_shutdown n (taken_on n)"

lemma reach_joining_on: "sub_reach (joining_on n)"
proof -
  have "sub_step (taken_on n) (joining_on n)"
    unfolding joining_on_def by (intro sub_step.Cancel Shutdown) (simp add: taken_on_val)
  with reach_taken_on show ?thesis by (rule sub_reach.Step)
qed


theorem subscription_descriptors_witness:
  "\<forall>fd. sb_table (reused_on 7) fd \<noteq> Ours"
  using subscription_descriptors [OF reach_reused_on, of 7] by (simp add: reused_on_def closed_on_val)

end
