(* ===== verification/Ipc_Reentry.thy ===== *)
theory Ipc_Reentry
  imports Ipc_Subscription
begin

text \<open>
  The mutexes around a subscription (\<open>src/ipc/ipc_client.cpp\<close>): \<open>m_cancelMutex\<close>, which \<open>Subscription::Impl::cancel\<close>
  holds while it joins the reading thread, \<open>m_subMutex\<close>, which \<open>Client::Impl::disconnect\<close> holds while it cancels
  its subscriptions and \<open>subscribe\<close> takes to register one, and the callback, which the reading thread runs without
  a lock and which may call back into the client.  A user thread cancels the subscription, or disconnects the
  client it belongs to; the steps of the subscription itself are those of \<open>Ipc_Subscription\<close>.
\<close>

section \<open>State\<close>

datatype thread = User | ReadingThread

text \<open>What a callback may ask of the client, and where the user thread is; \<open>True\<close>: within \<open>disconnect\<close>.\<close>

datatype request_back = CallsCancel | CallsSubscribe

datatype user_pc = UserIdle | WantsSubs | WantsCancel bool | InCancel bool

record client_threads =
  t_sub :: subscription
  m_cancelMutex :: "thread option"
  m_subMutex :: "thread option"
  t_user :: user_pc
  t_callback :: "request_back option"

definition threads_start :: "(nat \<Rightarrow> owner) \<Rightarrow> client_threads" where
  "threads_start table = \<lparr>t_sub = sub_start table, m_cancelMutex = None, m_subMutex = None, t_user = UserIdle,
     t_callback = None\<rparr>"

section \<open>Steps\<close>

text \<open>The locks of \<open>disconnect\<close> and \<open>cancel\<close>.\<close>

definition lock_subs :: "client_threads \<Rightarrow> client_threads" where
  "lock_subs s = s\<lparr>m_subMutex := Some User, t_user := WantsCancel True\<rparr>"

definition lock_cancel :: "bool \<Rightarrow> client_threads \<Rightarrow> client_threads" where
  "lock_cancel d s = s\<lparr>m_cancelMutex := Some User, t_user := InCancel d, t_sub := (t_sub s)\<lparr>sb_cancel := AtExchange\<rparr>\<rparr>"

text \<open>A step of the body of \<open>cancel\<close>; the locks are released when it has returned.\<close>

definition cancel_moves :: "bool \<Rightarrow> subscription \<Rightarrow> client_threads \<Rightarrow> client_threads" where
  "cancel_moves d sub s =
     (if sb_cancel sub = NoCancel
      then s\<lparr>t_sub := sub, m_cancelMutex := None, m_subMutex := (if d then None else m_subMutex s), t_user := UserIdle\<rparr>
      else s\<lparr>t_sub := sub\<rparr>)"

text \<open>A callback's own \<open>cancel\<close> does the exchange and the shutdown, then its join of the thread it runs on
  throws, which the event loop swallows; a callback's \<open>subscribe\<close> only takes the lock for a moment.\<close>

definition callback_cancel :: "nat \<Rightarrow> client_threads \<Rightarrow> client_threads" where
  "callback_cancel fd s =
     s\<lparr>t_callback := None,
       t_sub := (t_sub s)\<lparr>m_active := False, sb_fd := (if m_active (t_sub s) then None else sb_fd (t_sub s)),
         sb_down := (if m_active (t_sub s) \<and> sb_fd (t_sub s) = Some fd then insert fd (sb_down (t_sub s)) else sb_down (t_sub s)),
         sb_reader := AtEvents fd\<rparr>\<rparr>"

definition callback_subscribe :: "nat \<Rightarrow> client_threads \<Rightarrow> client_threads" where
  "callback_subscribe fd s = s\<lparr>t_callback := None, t_sub := (t_sub s)\<lparr>sb_reader := AtEvents fd\<rparr>\<rparr>"

inductive threads_step :: "client_threads \<Rightarrow> client_threads \<Rightarrow> bool" where
  Disconnect: "t_user s = UserIdle \<Longrightarrow> threads_step s (s\<lparr>t_user := WantsSubs\<rparr>)"
| CancelCall: "t_user s = UserIdle \<Longrightarrow> threads_step s (s\<lparr>t_user := WantsCancel False\<rparr>)"
| LockSubs: "t_user s = WantsSubs \<Longrightarrow> m_subMutex s = None \<Longrightarrow> threads_step s (lock_subs s)"
| LockCancel: "t_user s = WantsCancel d \<Longrightarrow> m_cancelMutex s = None \<Longrightarrow> threads_step s (lock_cancel d s)"
| CancelMoves: "t_user s = InCancel d \<Longrightarrow> sb_cancel (t_sub s) \<noteq> NoCancel \<Longrightarrow> cancel_step (t_sub s) sub
    \<Longrightarrow> threads_step s (cancel_moves d sub s)"
| ReaderMoves: "t_callback s = None \<Longrightarrow> reader_step (t_sub s) sub \<Longrightarrow> threads_step s (s\<lparr>t_sub := sub\<rparr>)"
| Event: "t_callback s = None \<Longrightarrow> sb_reader (t_sub s) = Reading fd \<Longrightarrow> threads_step s (s\<lparr>t_callback := Some op\<rparr>)"
| CallbackCancel: "t_callback s = Some CallsCancel \<Longrightarrow> sb_reader (t_sub s) = Reading fd \<Longrightarrow> m_cancelMutex s = None
    \<Longrightarrow> threads_step s (callback_cancel fd s)"
| CallbackSubscribe: "t_callback s = Some CallsSubscribe \<Longrightarrow> sb_reader (t_sub s) = Reading fd \<Longrightarrow> m_subMutex s = None
    \<Longrightarrow> threads_step s (callback_subscribe fd s)"

inductive_cases threads_stepE: "threads_step s s'"

inductive threads_reach :: "client_threads \<Rightarrow> bool" where
  ThreadsStart: "\<forall>fd. table fd \<noteq> Ours \<Longrightarrow> threads_reach (threads_start table)"
| ThreadsStep: "threads_reach s \<Longrightarrow> threads_step s s' \<Longrightarrow> threads_reach s'"

lemmas thread_defs = lock_subs_def lock_cancel_def cancel_moves_def callback_cancel_def callback_subscribe_def

section \<open>Invariant\<close>

text \<open>Who holds what: the user thread holds the mutexes of the functions it is inside, the callback none.\<close>

definition locks_ok :: "client_threads \<Rightarrow> bool" where
  "locks_ok s \<longleftrightarrow>
     (m_cancelMutex s = (case t_user s of InCancel d \<Rightarrow> Some User | _ \<Rightarrow> None))
     \<and> (m_subMutex s = (case t_user s of WantsCancel True \<Rightarrow> Some User | InCancel True \<Rightarrow> Some User | _ \<Rightarrow> None))
     \<and> (sb_cancel (t_sub s) = NoCancel \<longleftrightarrow> (\<forall>d. t_user s \<noteq> InCancel d))
     \<and> (t_callback s \<noteq> None \<longrightarrow> (\<exists>fd. sb_reader (t_sub s) = Reading fd))
     \<and> cancel_ok (t_sub s)"

lemma cancel_ok_reader: "reader_step s s' \<Longrightarrow> cancel_ok s \<Longrightarrow> cancel_ok s' \<and> sb_cancel s' = sb_cancel s"
  by (cases rule: reader_step.cases, assumption) (auto simp: cancel_ok_def step_defs)

lemma cancel_ok_cancel: "cancel_step s s' \<Longrightarrow> cancel_ok s \<Longrightarrow> cancel_ok s' \<and> sb_reader s' = sb_reader s"
  by (cases rule: cancel_step.cases, assumption) (auto simp: cancel_ok_def step_defs split: option.splits)

lemma locks_ok_step: "threads_step s s' \<Longrightarrow> locks_ok s \<Longrightarrow> locks_ok s'"
proof (cases rule: threads_step.cases, assumption)
  fix d sub
  assume "threads_step s s'" "locks_ok s" "s' = cancel_moves d sub s" "t_user s = InCancel d" "cancel_step (t_sub s) sub"
  then show ?thesis using cancel_ok_cancel [of "t_sub s" sub]
    by (cases d) (auto simp: locks_ok_def cancel_moves_def)
next
  fix sub
  assume "threads_step s s'" "locks_ok s" "s' = s\<lparr>t_sub := sub\<rparr>" "t_callback s = None" "reader_step (t_sub s) sub"
  then show ?thesis using cancel_ok_reader [of "t_sub s" sub] by (auto simp: locks_ok_def)
qed (auto simp: locks_ok_def thread_defs cancel_ok_def split: user_pc.splits bool.splits)

lemma locks_ok_reach: "threads_reach s \<Longrightarrow> locks_ok s"
proof (induction rule: threads_reach.induct)
  case (ThreadsStart table)
  then show ?case by (simp add: locks_ok_def threads_start_def sub_start_def cancel_ok_def)
next
  case (ThreadsStep s s')
  then show ?case by (blast intro: locks_ok_step)
qed

section \<open>Properties\<close>


text \<open>Both deadlocks are reached.\<close>

definition reading_threads :: client_threads where
  "reading_threads = (threads_start (\<lambda>fd. Free))\<lparr>t_sub := reading_on 7\<rparr>"

lemma reader_run:
  "reader_step\<^sup>*\<^sup>* sub sub' \<Longrightarrow> threads_reach s \<Longrightarrow> t_sub s = sub \<Longrightarrow> t_callback s = None \<Longrightarrow> threads_reach (s\<lparr>t_sub := sub'\<rparr>)"
proof (induction rule: rtranclp_induct)
  case base
  have "s\<lparr>t_sub := x\<rparr> = s" if "t_sub s = x" for x using that by (cases s) auto
  from this [OF base(2)] base(1) show ?case by simp
next
  case (step y z)
  have "threads_step (s\<lparr>t_sub := y\<rparr>) ((s\<lparr>t_sub := y\<rparr>)\<lparr>t_sub := z\<rparr>)"
    using step by (intro ReaderMoves) simp_all
  from ThreadsStep [OF _ this] step show ?case by simp
qed

lemma reach_reading_threads: "threads_reach reading_threads"
proof -
  let ?s0 = "sub_start (\<lambda>fd. Free)"
  have "reader_step ?s0 (at_loop ?s0)" by (intro Loop) (simp add: sub_start_def)
  moreover have "reader_step (at_loop ?s0) (subscribed 7 (at_loop ?s0))"
    by (intro Subscribe) (simp_all add: sub_start_def at_loop_def)
  moreover have "reader_step (subscribed 7 (at_loop ?s0)) (store_fd 7 (subscribed 7 (at_loop ?s0)))"
    by (intro Store) (simp add: subscribed_def)
  moreover have "reader_step (store_fd 7 (subscribed 7 (at_loop ?s0))) (reading_on 7)"
    unfolding reading_on_def by (intro Events) (simp add: store_fd_def)
  ultimately have "reader_step\<^sup>*\<^sup>* ?s0 (reading_on 7)" by (meson converse_rtranclp_into_rtranclp r_into_rtranclp)
  from reader_run [OF this ThreadsStart [of "\<lambda>fd. Free"]] show ?thesis
    by (simp add: reading_threads_def threads_start_def)
qed

text \<open>The callback starts, then the user thread goes to its join; \<open>d\<close>: through \<open>disconnect\<close>.\<close>

definition joining_threads :: "request_back \<Rightarrow> bool \<Rightarrow> client_threads" where
  "joining_threads op d = \<lparr>t_sub = joining_on 7, m_cancelMutex = Some User, m_subMutex = (if d then Some User else None),
     t_user = InCancel d, t_callback = Some op\<rparr>"


lemma reach_joining_threads: "threads_reach (joining_threads op d)"
proof -
  let ?a = "reading_threads\<lparr>t_callback := Some op\<rparr>"
  let ?b = "?a\<lparr>t_user := WantsCancel d, m_subMutex := (if d then Some User else None)\<rparr>"
  let ?sub = "(reading_on 7)\<lparr>sb_cancel := AtExchange\<rparr>"
  let ?c = "lock_cancel d ?b"
  note v = reading_threads_def threads_start_def reading_on_val
  have a: "threads_reach ?a"
    by (rule ThreadsStep [OF reach_reading_threads Event [of _ 7]]) (simp_all add: v)
  have b: "threads_reach ?b"
  proof (cases d)
    case True
    have "threads_reach (?a\<lparr>t_user := WantsSubs\<rparr>)" by (rule ThreadsStep [OF a Disconnect]) (simp add: v)
    then have "threads_reach (lock_subs (?a\<lparr>t_user := WantsSubs\<rparr>))" by (rule ThreadsStep [OF _ LockSubs]) (simp_all add: v)
    with True show ?thesis by (simp add: lock_subs_def v)
  next
    case False
    have "threads_reach (?a\<lparr>t_user := WantsCancel False\<rparr>)" by (rule ThreadsStep [OF a CancelCall]) (simp add: v)
    with False show ?thesis by (simp add: v)
  qed
  have c: "threads_reach ?c" by (rule ThreadsStep [OF b LockCancel]) (simp_all add: v)
  have moves: "threads_reach (s\<lparr>t_sub := sub\<rparr>)"
    if "threads_reach s" "t_user s = InCancel d" "sb_cancel (t_sub s) \<noteq> NoCancel" "cancel_step (t_sub s) sub" "sb_cancel sub \<noteq> NoCancel"
    for s sub
    using ThreadsStep [OF that(1) CancelMoves [OF that(2-4)]] that(5) by (simp add: cancel_moves_def)
  have sub: "t_sub ?c = ?sub" "t_user ?c = InCancel d" by (simp_all add: lock_cancel_def v)
  have "cancel_step ?sub (cancel_exchange ?sub)" by (intro Exchange) simp
  then have e: "threads_reach (?c\<lparr>t_sub := cancel_exchange ?sub\<rparr>)"
    by (intro moves c) (simp_all add: sub cancel_exchange_def reading_on_val)
  have "cancel_step (cancel_exchange ?sub) (taken_on 7)"
    unfolding taken_on_def by (intro TakeFd) (simp add: cancel_exchange_def reading_on_val)
  then have f: "threads_reach (?c\<lparr>t_sub := taken_on 7\<rparr>)"
    using moves [OF e, of "taken_on 7"] by (simp add: sub cancel_exchange_def reading_on_val taken_on_val)
  have "cancel_step (taken_on 7) (joining_on 7)"
    unfolding joining_on_def by (intro Shutdown) (simp add: taken_on_val)
  then have "threads_reach (?c\<lparr>t_sub := joining_on 7\<rparr>)"
    using moves [OF f, of "joining_on 7"] by (simp add: sub taken_on_val joining_on_def cancel_shutdown_def)
  moreover have "?c\<lparr>t_sub := joining_on 7\<rparr> = joining_threads op d"
    by (simp add: lock_cancel_def joining_threads_def v)
  ultimately show ?thesis by simp
qed


end
