(* ===== verification/Ipc_Sharing.thy ===== *)
theory Ipc_Sharing
  imports Ipc_Subscription
begin

text \<open>
  One client shared by threads (\<open>Client::Impl\<close> in \<open>src/ipc/ipc_client.cpp\<close>).  \<open>m_callMutex\<close> lets one \<open>call\<close> or
  \<open>callOnce\<close> run at a time; \<open>m_stateMutex\<close> is held only around the single accesses to \<open>m_fd\<close> and \<open>m_connected\<close>, so a
  \<open>connect\<close> or \<open>disconnect\<close> of another thread falls between any two steps of the call.  Each step below is one
  section under the state mutex or one system call of \<open>doCall\<close>; the descriptor table is the process's, in which
  other code opens and closes descriptors too, and the kernel reuses numbers.  What is sent is the subject of
  \<open>Ipc_Client\<close>.
\<close>

section \<open>State\<close>

text \<open>Where the running call stands: idle, at its lazy connect, at \<open>getFd\<close>, inside \<open>doCall\<close> with its own copy of
  the descriptor, about to drop the connection after a failure, and in the backoff before the reconnect.  True:
  it still has its retry (\<open>call\<close>'s first attempt).\<close>

datatype call_pc = CallIdle | AtConnect bool | AtGetFd bool | InCall bool nat | AtDrop bool | AtBackoff

text \<open>\<open>cn_used\<close> records each system call of \<open>doCall\<close>: the descriptor, and whose it was at that moment.\<close>

record connection =
  cn_fd :: "nat option"
  cn_connected :: bool
  cn_call :: call_pc
  cn_table :: "nat \<Rightarrow> owner"
  cn_used :: "(nat \<times> owner) list"

definition conn_start :: "(nat \<Rightarrow> owner) \<Rightarrow> connection" where
  "conn_start table = \<lparr>cn_fd = None, cn_connected = False, cn_call = CallIdle, cn_table = table, cn_used = []\<rparr>"

section \<open>Sections under the state mutex\<close>

text \<open>\<open>doConnect\<close>, which looks at neither field: \<open>None\<close> when the socket or the connecting fails.\<close>

definition conn_open :: "nat option \<Rightarrow> connection \<Rightarrow> connection" where
  "conn_open r s =
     (case r of
        None \<Rightarrow> s\<lparr>cn_fd := None\<rparr>
      | Some fd \<Rightarrow> s\<lparr>cn_fd := Some fd, cn_table := (cn_table s)(fd := Ours), cn_connected := True\<rparr>)"

text \<open>The end of \<open>disconnect\<close>, and what a failed attempt does.\<close>

definition conn_drop :: "connection \<Rightarrow> connection" where
  "conn_drop s =
     (case cn_fd s of
        Some fd \<Rightarrow> s\<lparr>cn_table := (cn_table s)(fd := Free), cn_fd := None, cn_connected := False\<rparr>
      | None \<Rightarrow> s\<lparr>cn_connected := False\<rparr>)"

text \<open>\<open>getFd\<close> and the test after it.\<close>

definition conn_get_fd :: "bool \<Rightarrow> connection \<Rightarrow> connection" where
  "conn_get_fd retry s =
     (case (if cn_connected s then cn_fd s else None) of
        None \<Rightarrow> s\<lparr>cn_call := CallIdle\<rparr>
      | Some fd \<Rightarrow> s\<lparr>cn_call := InCall retry fd\<rparr>)"

text \<open>A \<open>send\<close> or \<open>recv\<close> of \<open>doCall\<close>.\<close>

definition conn_use :: "nat \<Rightarrow> connection \<Rightarrow> connection" where
  "conn_use fd s = s\<lparr>cn_used := cn_used s @ [(fd, cn_table s fd)]\<rparr>"

text \<open>After the drop \<open>call\<close> goes to its backoff, \<open>callOnce\<close> and a second failure return.\<close>

definition conn_failed :: "bool \<Rightarrow> connection \<Rightarrow> connection" where
  "conn_failed retry s = (conn_drop s)\<lparr>cn_call := (if retry then AtBackoff else CallIdle)\<rparr>"

lemmas conn_defs = conn_open_def conn_drop_def conn_get_fd_def conn_use_def conn_failed_def

section \<open>Steps\<close>

text \<open>What the other threads of the client do meanwhile.\<close>

datatype other_op = Connects | Disconnects

inductive conn_step :: "other_op set \<Rightarrow> connection \<Rightarrow> connection \<Rightarrow> bool" for W where
  Begin: "cn_call s = CallIdle \<Longrightarrow> conn_step W s (s\<lparr>cn_call := AtConnect retry\<rparr>)"
| Connected: "cn_call s = AtConnect retry \<Longrightarrow> cn_connected s \<Longrightarrow> conn_step W s (s\<lparr>cn_call := AtGetFd retry\<rparr>)"
| Opens: "cn_call s = AtConnect retry \<Longrightarrow> \<not> cn_connected s \<Longrightarrow> cn_table s fd = Free
    \<Longrightarrow> conn_step W s ((conn_open (Some fd) s)\<lparr>cn_call := AtGetFd retry\<rparr>)"
| OpenFails: "cn_call s = AtConnect retry \<Longrightarrow> \<not> cn_connected s
    \<Longrightarrow> conn_step W s ((conn_open None s)\<lparr>cn_call := CallIdle\<rparr>)"
| GetFd: "cn_call s = AtGetFd retry \<Longrightarrow> conn_step W s (conn_get_fd retry s)"
| Uses: "cn_call s = InCall retry fd \<Longrightarrow> conn_step W s (conn_use fd s)"
| Answers: "cn_call s = InCall retry fd \<Longrightarrow> conn_step W s (s\<lparr>cn_call := CallIdle\<rparr>)"
| Fails: "cn_call s = InCall retry fd \<Longrightarrow> conn_step W s (s\<lparr>cn_call := AtDrop retry\<rparr>)"
| Drops: "cn_call s = AtDrop retry \<Longrightarrow> conn_step W s (conn_failed retry s)"
| Reopens: "cn_call s = AtBackoff \<Longrightarrow> cn_table s fd = Free
    \<Longrightarrow> conn_step W s ((conn_open (Some fd) s)\<lparr>cn_call := AtGetFd False\<rparr>)"
| ReopenFails: "cn_call s = AtBackoff \<Longrightarrow> conn_step W s ((conn_open None s)\<lparr>cn_call := CallIdle\<rparr>)"
| OtherConnect: "Connects \<in> W \<Longrightarrow> \<not> cn_connected s \<Longrightarrow> cn_table s fd = Free \<Longrightarrow> conn_step W s (conn_open (Some fd) s)"
| OtherConnectFails: "Connects \<in> W \<Longrightarrow> \<not> cn_connected s \<Longrightarrow> conn_step W s (conn_open None s)"
| OtherDisconnect: "Disconnects \<in> W \<Longrightarrow> conn_step W s (conn_drop s)"
| ElsewhereOpened: "cn_table s fd = Free \<Longrightarrow> conn_step W s (s\<lparr>cn_table := (cn_table s)(fd := Theirs)\<rparr>)"
| ElsewhereClosed: "cn_table s fd = Theirs \<Longrightarrow> conn_step W s (s\<lparr>cn_table := (cn_table s)(fd := Free)\<rparr>)"

inductive conn_reach :: "other_op set \<Rightarrow> connection \<Rightarrow> bool" for W where
  ConnStart: "\<forall>fd. table fd \<noteq> Ours \<Longrightarrow> conn_reach W (conn_start table)"
| ConnStep: "conn_reach W s \<Longrightarrow> conn_step W s s' \<Longrightarrow> conn_reach W s'"

section \<open>Invariants\<close>

text \<open>Always: the stored descriptor is the client's, and a client that has one is connected.\<close>

definition fd_ok :: "connection \<Rightarrow> bool" where
  "fd_ok s \<longleftrightarrow> (\<forall>fd. cn_fd s = Some fd \<longrightarrow> cn_table s fd = Ours \<and> cn_connected s)"

lemma fd_ok_step: "conn_step W s s' \<Longrightarrow> fd_ok s \<Longrightarrow> fd_ok s'"
  by (cases rule: conn_step.cases, assumption) (auto simp: fd_ok_def conn_defs split: option.splits if_splits)

lemma fd_ok_reach: "conn_reach W s \<Longrightarrow> fd_ok s"
proof (induction rule: conn_reach.induct)
  case (ConnStart table)
  show ?case by (simp add: fd_ok_def conn_start_def)
qed (rule fd_ok_step)

text \<open>Without a \<open>disconnect\<close> meanwhile, a call in progress works on the stored descriptor.\<close>

definition call_ok :: "connection \<Rightarrow> bool" where
  "call_ok s \<longleftrightarrow> (\<forall>retry fd. cn_call s = InCall retry fd \<longrightarrow> cn_fd s = Some fd) \<and> (\<forall>u \<in> set (cn_used s). snd u = Ours)"

lemma call_ok_step: "conn_step W s s' \<Longrightarrow> Disconnects \<notin> W \<Longrightarrow> fd_ok s \<Longrightarrow> call_ok s \<Longrightarrow> call_ok s'"
  by (cases rule: conn_step.cases, assumption)
    (auto simp: call_ok_def fd_ok_def conn_defs split: option.splits if_splits)

lemma call_ok_reach: "conn_reach W s \<Longrightarrow> Disconnects \<notin> W \<Longrightarrow> call_ok s"
proof (induction rule: conn_reach.induct)
  case (ConnStart table)
  show ?case by (simp add: call_ok_def conn_start_def)
next
  case (ConnStep s s')
  then show ?case by (blast intro: call_ok_step fd_ok_reach)
qed

text \<open>The connection's bookkeeping: connected exactly when a descriptor is stored, and no other socket is open.\<close>

definition conn_ok :: "connection \<Rightarrow> bool" where
  "conn_ok s \<longleftrightarrow> (cn_connected s \<longleftrightarrow> cn_fd s \<noteq> None) \<and> (\<forall>fd. cn_table s fd = Ours \<longleftrightarrow> cn_fd s = Some fd)"

text \<open>Without a \<open>connect\<close> meanwhile, the backoff finds the client as the drop left it.\<close>

definition backoff_ok :: "connection \<Rightarrow> bool" where
  "backoff_ok s \<longleftrightarrow> conn_ok s \<and> (cn_call s = AtBackoff \<longrightarrow> cn_fd s = None)"

lemma backoff_ok_elsewhere:
  "backoff_ok s \<Longrightarrow> cn_table s fd \<noteq> Ours \<Longrightarrow> w \<noteq> Ours \<Longrightarrow> backoff_ok (s\<lparr>cn_table := (cn_table s)(fd := w)\<rparr>)"
  by (auto simp: backoff_ok_def conn_ok_def)

lemma backoff_ok_step:
  assumes "conn_step W s s'" "Connects \<notin> W" "backoff_ok s"
  shows "backoff_ok s'"
  using assms(1)
proof cases
  case (ElsewhereOpened fd)
  with assms(3) show ?thesis by (simp add: backoff_ok_elsewhere)
next
  case (ElsewhereClosed fd)
  with assms(3) show ?thesis by (simp add: backoff_ok_elsewhere)
qed (use assms(2,3) in \<open>auto simp: backoff_ok_def conn_ok_def conn_defs split: option.splits if_splits\<close>)

lemma backoff_ok_reach: "conn_reach W s \<Longrightarrow> Connects \<notin> W \<Longrightarrow> backoff_ok s"
proof (induction rule: conn_reach.induct)
  case (ConnStart table)
  then show ?case by (simp add: backoff_ok_def conn_ok_def conn_start_def)
next
  case (ConnStep s s')
  then show ?case by (blast intro: backoff_ok_step)
qed

section \<open>Properties\<close>

text \<open>A client that holds no other descriptor of its own, with its call at \<open>pc\<close>.\<close>

definition conn_at :: "nat option \<Rightarrow> bool \<Rightarrow> call_pc \<Rightarrow> nat set \<Rightarrow> connection" where
  "conn_at r c pc ours =
     \<lparr>cn_fd = r, cn_connected = c, cn_call = pc, cn_table = (\<lambda>fd. if fd \<in> ours then Ours else Free), cn_used = []\<rparr>"

lemma conn_at_eqI:
  "cn_fd s = r \<Longrightarrow> cn_connected s = c \<Longrightarrow> cn_call s = pc \<Longrightarrow> cn_used s = [] \<Longrightarrow> cn_table s = (\<lambda>fd. if fd \<in> ours then Ours else Free)
    \<Longrightarrow> s = conn_at r c pc ours"
  by (cases s) (simp add: conn_at_def)

lemma reach_in_call: "conn_reach W (conn_at (Some 3) True (InCall True 3) {3})"
proof -
  let ?s0 = "conn_start (\<lambda>fd. Free)"
  let ?s1 = "?s0\<lparr>cn_call := AtConnect True\<rparr>"
  let ?s2 = "(conn_open (Some 3) ?s1)\<lparr>cn_call := AtGetFd True\<rparr>"
  have "conn_reach W ?s1" by (rule ConnStep [OF ConnStart Begin]) (simp_all add: conn_start_def)
  then have "conn_reach W ?s2" by (rule ConnStep [OF _ Opens]) (simp_all add: conn_start_def)
  then have "conn_reach W (conn_get_fd True ?s2)" by (rule ConnStep [OF _ GetFd]) (simp add: conn_open_def)
  moreover have "conn_get_fd True ?s2 = conn_at (Some 3) True (InCall True 3) {3}"
    by (rule conn_at_eqI) (auto simp: conn_start_def conn_open_def conn_get_fd_def)
  ultimately show ?thesis by simp
qed

lemma reach_backoff: "conn_reach W (conn_at None False AtBackoff {})"
proof -
  let ?s = "conn_at (Some 3) True (InCall True 3) {3}"
  have "conn_reach W (?s\<lparr>cn_call := AtDrop True\<rparr>)"
    by (rule ConnStep [OF reach_in_call Fails [of _ True 3]]) (simp add: conn_at_def)
  then have "conn_reach W (conn_failed True (?s\<lparr>cn_call := AtDrop True\<rparr>))"
    by (rule ConnStep [OF _ Drops]) simp
  moreover have "conn_failed True (?s\<lparr>cn_call := AtDrop True\<rparr>) = conn_at None False AtBackoff {}"
    by (rule conn_at_eqI) (auto simp: conn_at_def conn_failed_def conn_drop_def)
  ultimately show ?thesis by simp
qed

text \<open>C10. 
  A call sends to or reads from a descriptor that is not its connection exactly when other threads may
  disconnect the client meanwhile: \<open>disconnect\<close> closes the descriptor the call goes on using, and the number may
  by then belong to another socket or file of the process.
\<close>

theorem foreign_use_iff_disconnect:
  "(\<exists>s fd w. conn_reach W s \<and> (fd, w) \<in> set (cn_used s) \<and> w \<noteq> Ours) \<longleftrightarrow> Disconnects \<in> W"
proof
  show "Disconnects \<in> W" if "\<exists>s fd w. conn_reach W s \<and> (fd, w) \<in> set (cn_used s) \<and> w \<noteq> Ours"
  proof (rule ccontr)
    assume "Disconnects \<notin> W"
    from that obtain s fd w where "conn_reach W s" "(fd, w) \<in> set (cn_used s)" "w \<noteq> Ours" by blast
    with call_ok_reach [OF this(1) \<open>Disconnects \<notin> W\<close>] show False by (auto simp: call_ok_def)
  qed
  show "\<exists>s fd w. conn_reach W s \<and> (fd, w) \<in> set (cn_used s) \<and> w \<noteq> Ours" if "Disconnects \<in> W"
  proof -
    let ?a = "conn_at (Some 3) True (InCall True 3) {3}"
    let ?b = "conn_drop ?a"
    let ?c = "?b\<lparr>cn_table := (cn_table ?b)(3 := Theirs)\<rparr>"
    have "conn_reach W ?b" by (rule ConnStep [OF reach_in_call OtherDisconnect [OF that]])
    then have "conn_reach W ?c" by (rule ConnStep [OF _ ElsewhereOpened]) (simp add: conn_at_def conn_drop_def)
    then have "conn_reach W (conn_use 3 ?c)"
      by (rule ConnStep [OF _ Uses [of _ True]]) (simp add: conn_at_def conn_drop_def)
    moreover have "(3, Theirs) \<in> set (cn_used (conn_use 3 ?c))" by (simp add: conn_use_def)
    ultimately show ?thesis by blast
  qed
qed

text \<open>C11. 
  The client loses track of its connection, counted as connected without a descriptor or left with an open socket
  it no longer knows, exactly when other threads may connect it while a call is in its backoff: the reconnect
  looks at neither field.
\<close>

theorem bookkeeping_breaks_iff_connect:
  "(\<exists>s. conn_reach W s \<and> \<not> conn_ok s) \<longleftrightarrow> Connects \<in> W"
proof
  show "Connects \<in> W" if "\<exists>s. conn_reach W s \<and> \<not> conn_ok s"
    using that backoff_ok_reach by (auto simp: backoff_ok_def)
  show "\<exists>s. conn_reach W s \<and> \<not> conn_ok s" if "Connects \<in> W"
  proof -
    let ?a = "conn_at None False AtBackoff {}"
    have "conn_reach W (conn_open (Some 4) ?a)"
      by (rule ConnStep [OF reach_backoff OtherConnect [OF that]]) (simp_all add: conn_at_def)
    then have "conn_reach W ((conn_open None (conn_open (Some 4) ?a))\<lparr>cn_call := CallIdle\<rparr>)"
      by (rule ConnStep [OF _ ReopenFails]) (simp add: conn_at_def conn_open_def)
    moreover have "\<not> conn_ok ((conn_open None (conn_open (Some 4) ?a))\<lparr>cn_call := CallIdle\<rparr>)"
      by (simp add: conn_ok_def conn_open_def conn_at_def)
    ultimately show ?thesis by blast
  qed
qed

text \<open>A client counted as connected without a descriptor.\<close>

definition wedged :: "connection \<Rightarrow> bool" where
  "wedged s \<longleftrightarrow> cn_connected s \<and> cn_fd s = None \<and> cn_call s \<in> {CallIdle, AtConnect True, AtConnect False, AtGetFd True, AtGetFd False}"

lemma wedged_step: "conn_step W s s' \<Longrightarrow> Disconnects \<notin> W \<Longrightarrow> wedged s \<Longrightarrow> wedged s' \<and> cn_used s' = cn_used s"
  by (cases rule: conn_step.cases, assumption) (auto simp: wedged_def conn_get_fd_def)

text \<open>
  Until somebody disconnects it, such a client never makes a call again: the lazy connect takes it as connected,
  \<open>getFd\<close> gives no descriptor, and every call ends in an error without a byte sent.
\<close>

theorem wedged_client_never_calls:
  assumes "(conn_step W)\<^sup>*\<^sup>* s s'" "Disconnects \<notin> W" "wedged s"
  shows "wedged s' \<and> cn_used s' = cn_used s"
  using assms(1)
proof (induction rule: rtranclp_induct)
  case base
  show ?case using assms(3) by simp
next
  case (step y z)
  then show ?case using wedged_step [OF step(2) assms(2)] by simp
qed

text \<open>The reconnect that fails after another thread connected leaves the client in that state.\<close>

theorem failed_reconnect_wedges: "\<exists>s. conn_reach {Connects} s \<and> wedged s"
proof -
  let ?a = "conn_at None False AtBackoff {}"
  have "conn_reach {Connects} (conn_open (Some 4) ?a)"
    by (rule ConnStep [OF reach_backoff OtherConnect]) (simp_all add: conn_at_def)
  then have "conn_reach {Connects} ((conn_open None (conn_open (Some 4) ?a))\<lparr>cn_call := CallIdle\<rparr>)"
    by (rule ConnStep [OF _ ReopenFails]) (simp add: conn_at_def conn_open_def)
  moreover have "wedged ((conn_open None (conn_open (Some 4) ?a))\<lparr>cn_call := CallIdle\<rparr>)"
    by (simp add: wedged_def conn_open_def conn_at_def)
  ultimately show ?thesis by blast
qed

theorem wedged_client_never_calls_witness:
  "wedged (conn_at None True (AtConnect True) {4}) \<and> cn_used (conn_at None True (AtConnect True) {4}) = []"
proof -
  let ?s = "conn_at None True CallIdle {4}"
  have "conn_step {Connects} ?s (?s\<lparr>cn_call := AtConnect True\<rparr>)" by (rule Begin) (simp add: conn_at_def)
  then have "(conn_step {Connects})\<^sup>*\<^sup>* ?s (conn_at None True (AtConnect True) {4})" by (simp add: conn_at_def)
  then show ?thesis using wedged_client_never_calls [of "{Connects}" ?s] by (simp add: wedged_def conn_at_def)
qed

section \<open>The sequential client takes these steps\<close>

text \<open>A client of \<open>Ipc_Client\<close> seen as a shared connection: its descriptor, its flag, and its open sockets.\<close>

definition abs_conn :: "call_pc \<Rightarrow> (nat \<times> owner) list \<Rightarrow> client \<Rightarrow> connection" where
  "abs_conn pc u cl =
     \<lparr>cn_fd = (if m_fd cl < 0 then None else Some (nat (m_fd cl))), cn_connected = m_connected cl, cn_call = pc,
      cn_table = (\<lambda>fd. if int fd \<in> cl_open cl then Ours else Free), cn_used = u\<rparr>"

text \<open>The kernel gives a socket a number that is not in use.\<close>

definition fresh :: "attempt_io \<Rightarrow> client \<Rightarrow> bool" where
  "fresh io cl \<longleftrightarrow> (\<forall>fd. a_socket io = Some fd \<longrightarrow> 0 \<le> fd \<and> fd \<notin> cl_open cl)"

lemma abs_conn_sel [simp]:
  "cn_call (abs_conn pc u cl) = pc" "cn_used (abs_conn pc u cl) = u" "cn_connected (abs_conn pc u cl) = m_connected cl"
  "abs_conn pc u cl\<lparr>cn_call := pc'\<rparr> = abs_conn pc' u cl" "abs_conn pc u cl\<lparr>cn_used := u'\<rparr> = abs_conn pc u' cl"
  by (simp_all add: abs_conn_def)

lemma doConnect_as_conn_open:
  assumes "fresh io cl" "doConnect io cl = (ok, cl')"
  shows "abs_conn pc u cl' = conn_open (if ok then Some (nat (m_fd cl')) else None) (abs_conn pc u cl)"
    and "ok \<Longrightarrow> cn_table (abs_conn pc u cl) (nat (m_fd cl')) = Free \<and> m_connected cl' \<and> 0 \<le> m_fd cl'"
  using assms
  by (auto simp: doConnect_def fresh_def abs_conn_def conn_open_def Let_def fun_eq_iff split: option.splits if_splits)

lemma drop_as_conn_drop: "abs_conn pc u (drop_connection cl) = conn_drop (abs_conn pc u cl)"
  by (auto simp: drop_connection_def abs_conn_def conn_drop_def Let_def fun_eq_iff)

lemma drop_steps:
  "conn_step W (abs_conn (AtDrop retry) u cl) (abs_conn (if retry then AtBackoff else CallIdle) u (drop_connection cl))"
  using Drops [of "abs_conn (AtDrop retry) u cl" retry W]
  by (simp add: conn_failed_def flip: drop_as_conn_drop)

lemma doCall_steps:
  assumes "m_connected cl" "0 \<le> m_fd cl" "doCall e maxlen mid params cl = (fin, cl')"
  shows "\<exists>u'. (conn_step W)\<^sup>*\<^sup>* (abs_conn (AtGetFd retry) u cl) (abs_conn (if fin then CallIdle else AtDrop retry) u' cl')"
proof -
  let ?fd = "nat (m_fd cl)"
  let ?u = "u @ [(?fd, cn_table (abs_conn (AtGetFd retry) u cl) ?fd)]"
  have same: "abs_conn pc u' cl' = abs_conn pc u' cl" for pc u'
    using doCall_frame(1-3) [OF assms(3)] by (simp add: abs_conn_def)
  have get: "conn_step W (abs_conn (AtGetFd retry) u cl) (abs_conn (InCall retry ?fd) u cl)"
    using GetFd [of "abs_conn (AtGetFd retry) u cl" retry W] assms(1,2) by (simp add: conn_get_fd_def abs_conn_def)
  have use1: "conn_step W (abs_conn (InCall retry ?fd) u cl) (abs_conn (InCall retry ?fd) ?u cl)"
    using Uses [of "abs_conn (InCall retry ?fd) u cl" retry ?fd W] by (simp add: conn_use_def abs_conn_def)
  have fin: "conn_step W (abs_conn (InCall retry ?fd) ?u cl) (abs_conn (if fin then CallIdle else AtDrop retry) ?u cl)"
    using Answers [of "abs_conn (InCall retry ?fd) ?u cl" retry ?fd W] Fails [of "abs_conn (InCall retry ?fd) ?u cl" retry ?fd W]
    by simp
  have "(conn_step W)\<^sup>*\<^sup>* (abs_conn (AtGetFd retry) u cl) (abs_conn (if fin then CallIdle else AtDrop retry) ?u cl)"
    using get use1 fin by (meson r_into_rtranclp rtranclp.rtrancl_into_rtrancl)
  then show ?thesis unfolding same by blast
qed

lemma lazy_steps:
  assumes "fresh io cl" "client_inv cl" "(if \<not> m_connected cl then doConnect io cl else (True, cl)) = (ok, cl1)"
  shows "(conn_step W)\<^sup>*\<^sup>* (abs_conn CallIdle u cl) (abs_conn (if ok then AtGetFd retry else CallIdle) u cl1)"
    and "ok \<Longrightarrow> m_connected cl1 \<and> 0 \<le> m_fd cl1"
proof -
  let ?a = "abs_conn (AtConnect retry) u cl"
  have start: "conn_step W (abs_conn CallIdle u cl) ?a" using Begin [of "abs_conn CallIdle u cl" W retry] by simp
  have "conn_step W ?a (abs_conn (if ok then AtGetFd retry else CallIdle) u cl1) \<and> (ok \<longrightarrow> m_connected cl1 \<and> 0 \<le> m_fd cl1)"
  proof (cases "m_connected cl")
    case True
    then show ?thesis using assms Connected [of ?a retry W] by (auto simp: client_inv_def)
  next
    case False
    with assms(3) have run: "doConnect io cl = (ok, cl1)" by simp
    note opened = doConnect_as_conn_open [OF assms(1) run, of _ u]
    have to: "abs_conn pc u cl1 = conn_open (if ok then Some (nat (m_fd cl1)) else None) ?a\<lparr>cn_call := pc\<rparr>" for pc
      by (simp flip: opened(1))
    show ?thesis using False opened(2) [of "AtConnect retry"] Opens [of ?a retry "nat (m_fd cl1)" W] OpenFails [of ?a retry W]
      by (cases ok) (simp_all add: to)
  qed
  with start show "(conn_step W)\<^sup>*\<^sup>* (abs_conn CallIdle u cl) (abs_conn (if ok then AtGetFd retry else CallIdle) u cl1)"
    and "ok \<Longrightarrow> m_connected cl1 \<and> 0 \<le> m_fd cl1"
    by (auto intro: converse_rtranclp_into_rtranclp)
qed

lemma reopen_steps:
  assumes "fresh io cl" "doConnect io cl = (ok, cl1)"
  shows "conn_step W (abs_conn AtBackoff u cl) (abs_conn (if ok then AtGetFd False else CallIdle) u cl1)"
proof -
  note opened = doConnect_as_conn_open [OF assms, of _ u]
  have to: "abs_conn pc u cl1 = conn_open (if ok then Some (nat (m_fd cl1)) else None) (abs_conn AtBackoff u cl)\<lparr>cn_call := pc\<rparr>" for pc
    by (simp flip: opened(1))
  show ?thesis
    using opened(2) [of AtBackoff] Reopens [of "abs_conn AtBackoff u cl" "nat (m_fd cl1)" W] ReopenFails [of "abs_conn AtBackoff u cl" W]
    by (cases ok) (simp_all add: to)
qed

text \<open>The second half of \<open>call\<close>: the reconnect and the retry.\<close>

lemma retry_steps:
  assumes "fresh io c" "doConnect io c = (ok, cl4)" "doCall e maxlen mid params cl4 = (fin, cl5)"
  shows "\<exists>u'. (conn_step W)\<^sup>*\<^sup>* (abs_conn AtBackoff u c)
      (abs_conn CallIdle u' (if \<not> ok then cl4 else if fin then cl5 else drop_connection cl5))"
proof (cases ok)
  case False
  then show ?thesis using reopen_steps [OF assms(1,2), of W u] by auto
next
  case True
  have c4: "m_connected cl4" "0 \<le> m_fd cl4" using doConnect_as_conn_open(2) [OF assms(1,2) True] by blast+
  obtain u2 where "(conn_step W)\<^sup>*\<^sup>* (abs_conn (AtGetFd False) u cl4) (abs_conn (if fin then CallIdle else AtDrop False) u2 cl5)"
    using doCall_steps [OF c4 assms(3), of W False u] by blast
  with reopen_steps [OF assms(1,2), of W u] True
  have upto: "(conn_step W)\<^sup>*\<^sup>* (abs_conn AtBackoff u c) (abs_conn (if fin then CallIdle else AtDrop False) u2 cl5)"
    by (auto intro: converse_rtranclp_into_rtranclp)
  show ?thesis
    using upto rtranclp.rtrancl_into_rtrancl [OF upto, of "abs_conn CallIdle u2 (drop_connection cl5)"] drop_steps [of W False u2 cl5] True
    by (cases fin) auto
qed

text \<open>
  Every run of \<open>call\<close> is a run of these steps, with whatever the other threads of \<open>W\<close> do to the client during its
  backoff: it starts and ends idle.  The sends and receives of one attempt count as one use.
\<close>

theorem call_refines_steps:
  assumes "client_inv cl" "fresh io1 cl"
    and others: "\<And>c u. client_inv c \<Longrightarrow> \<not> m_connected c
      \<Longrightarrow> fresh io2 (others c) \<and> (conn_step W)\<^sup>*\<^sup>* (abs_conn AtBackoff u c) (abs_conn AtBackoff u (others c))"
  shows "\<exists>u'. (conn_step W)\<^sup>*\<^sup>* (abs_conn CallIdle u cl) (abs_conn CallIdle u' (snd (call e maxlen io1 others io2 mid params cl)))"
    (is "\<exists>u'. ?steps (abs_conn CallIdle u cl) (abs_conn CallIdle u' ?end)")
proof -
  obtain ok cl1 where lazy: "(if \<not> m_connected cl then doConnect io1 cl else (True, cl)) = (ok, cl1)" by fastforce
  obtain done1 cl2 where run1: "doCall e maxlen mid params cl1 = (done1, cl2)" by fastforce
  let ?c = "drop_connection cl2"
  obtain ok2 cl4 where open2: "doConnect io2 (others ?c) = (ok2, cl4)" by fastforce
  obtain done2 cl5 where run2: "doCall e maxlen mid params cl4 = (done2, cl5)" by fastforce
  note first = lazy_steps [OF assms(2,1) lazy]
  have io: "io_ok io1" using assms(2) by (simp add: fresh_def io_ok_def)
  have inv1: "client_inv cl1" using lazy_connect [OF assms(1) io lazy] by blast
  have dropped: "client_inv ?c \<and> \<not> m_connected ?c" by (rule drop_inv [OF doCall_inv [OF inv1 run1]])
  have connected: "m_connected cl4 \<and> 0 \<le> m_fd cl4" if ok2
    using doConnect_as_conn_open(2) [OF _ open2 that] others dropped by blast
  have result: "?end = (if \<not> ok then cl1 else if done1 then cl2 else if \<not> ok2 then cl4 else if done2 then cl5 else drop_connection cl5)"
    using lazy run1 open2 run2 first(2) connected by (cases ok; cases ok2) (simp_all add: call_def getFd_def)
  show ?thesis
  proof (cases ok)
    case False
    then show ?thesis using first(1) [of W u True] result by auto
  next
    case True
    note c1 = first(2) [OF True]
    obtain u1 where "?steps (abs_conn (AtGetFd True) u cl1) (abs_conn (if done1 then CallIdle else AtDrop True) u1 cl2)"
      using doCall_steps [OF c1 [THEN conjunct1] c1 [THEN conjunct2] run1, of W True u] by blast
    then have upto: "?steps (abs_conn CallIdle u cl) (abs_conn (if done1 then CallIdle else AtDrop True) u1 cl2)"
      using first(1) [of W u True] True by auto
    show ?thesis
    proof (cases done1)
      case True
      then show ?thesis using upto result \<open>ok\<close> by auto
    next
      case False
      have "?steps (abs_conn CallIdle u cl) (abs_conn AtBackoff u1 ?c)"
        using rtranclp.rtrancl_into_rtrancl [OF upto, of "abs_conn AtBackoff u1 ?c"] drop_steps [of W True u1 cl2] False by simp
      then have "?steps (abs_conn CallIdle u cl) (abs_conn AtBackoff u1 (others ?c))"
        using others [of ?c u1] dropped by (meson rtranclp_trans)
      moreover obtain u2 where "?steps (abs_conn AtBackoff u1 (others ?c)) (abs_conn CallIdle u2 ?end)"
        using retry_steps [OF _ open2 run2, of W u1] others dropped False \<open>ok\<close> unfolding result by auto
      ultimately show ?thesis by (meson rtranclp_trans)
    qed
  qed
qed

text \<open>A call whose peers never answer, with another thread's \<open>connect\<close> in its backoff.\<close>

lemma silent_connect_steps:
  assumes "client_inv c" "\<not> m_connected c"
  shows "conn_step {Connects} (abs_conn pc u c) (abs_conn pc u (snd (connect (silent_peer 8) c)))"
proof -
  have "fresh (silent_peer 8) c" using assms by (simp add: fresh_def client_inv_def silent_peer_def)
  moreover have opened: "doConnect (silent_peer 8) c = (True, snd (connect (silent_peer 8) c))"
    "m_fd (snd (connect (silent_peer 8) c)) = 8"
    using assms(2) by (simp_all add: connect_def doConnect_def silent_peer_def good_connect_def connectWithTimeout_def Let_def)
  ultimately have "abs_conn pc u (snd (connect (silent_peer 8) c)) = conn_open (Some 8) (abs_conn pc u c)"
    "cn_table (abs_conn pc u c) 8 = Free"
    using doConnect_as_conn_open [OF _ opened(1), of pc u] by simp_all
  then show ?thesis using assms(2) OtherConnect [of "{Connects}" "abs_conn pc u c" 8] by simp
qed

theorem call_refines_steps_witness:
  "\<exists>u'. (conn_step {Connects})\<^sup>*\<^sup>* (abs_conn CallIdle [] client_new)
     (abs_conn CallIdle u' (snd (call LittleEndian 64 (silent_peer 5) (\<lambda>c. snd (connect (silent_peer 8) c)) (silent_peer 6) 7 [1] client_new)))"
proof (rule call_refines_steps [OF client_inv_new])
  show "fresh (silent_peer 5) client_new" by (simp add: fresh_def silent_peer_def client_new_def)
  fix c :: client and u
  assume c: "client_inv c" "\<not> m_connected c"
  then have "cl_open (snd (connect (silent_peer 8) c)) = {8}"
    by (simp add: client_inv_def connect_def doConnect_def silent_peer_def good_connect_def connectWithTimeout_def Let_def)
  then show "fresh (silent_peer 6) (snd (connect (silent_peer 8) c))
      \<and> (conn_step {Connects})\<^sup>*\<^sup>* (abs_conn AtBackoff u c) (abs_conn AtBackoff u (snd (connect (silent_peer 8) c)))"
    using silent_connect_steps [OF c, of AtBackoff u] by (simp add: fresh_def silent_peer_def r_into_rtranclp)
qed

end
