(* ===== verification/Ipc_Handle.thy ===== *)
theory Ipc_Handle
  imports Prelude
begin

text \<open>
  The \<open>Subscription\<close> handles of \<open>src/ipc/ipc_client.cpp\<close>: movable owners of a subscription whose thread must have
  been joined, by \<open>cancel\<close>, before its last owner goes (a \<open>std::thread\<close> destroyed joinable ends the process).  The
  client itself keeps only weak pointers.  What one \<open>cancel\<close> does is the subject of \<open>Ipc_Subscription\<close>; here it
  has returned, and the subscription counts as joined.  The operations are those of one thread, one after another.
\<close>

section \<open>Handles\<close>

text \<open>The variables that hold handles, with the subscription each owns (\<open>m_impl\<close>), the subscriptions whose thread
  was started, those whose thread was joined, and those whose thread ended by itself.\<close>

record handles =
  m_impl :: "nat \<Rightarrow> nat option"
  hd_started :: "nat set"
  hd_joined :: "nat set"
  hd_ended :: "nat set"

definition no_handles :: handles where
  "no_handles = \<lparr>m_impl = (\<lambda>h. None), hd_started = {}, hd_joined = {}, hd_ended = {}\<rparr>"

text \<open>\<open>if (m_impl) m_impl->cancel()\<close>.\<close>

definition cancel_held :: "nat \<Rightarrow> handles \<Rightarrow> handles" where
  "cancel_held h s = (case m_impl s h of None \<Rightarrow> s | Some i \<Rightarrow> s\<lparr>hd_joined := insert i (hd_joined s)\<rparr>)"

text \<open>\<open>std::move\<close> of the pointer of \<open>other\<close> into \<open>h\<close>.\<close>

definition take_impl :: "nat \<Rightarrow> nat \<Rightarrow> handles \<Rightarrow> handles" where
  "take_impl h other s = s\<lparr>m_impl := (m_impl s)(other := None, h := m_impl s other)\<rparr>"

text \<open>A subscription that was never owned, started and put into the new handle \<open>h\<close>.\<close>

definition handle_subscribe :: "nat \<Rightarrow> nat \<Rightarrow> handles \<Rightarrow> handles" where
  "handle_subscribe h i s =
     (if i \<in> hd_started s \<or> m_impl s h \<noteq> None then s
      else s\<lparr>m_impl := (m_impl s)(h \<mapsto> i), hd_started := insert i (hd_started s)\<rparr>)"

definition handle_move :: "nat \<Rightarrow> nat \<Rightarrow> handles \<Rightarrow> handles" where
  "handle_move h other s = (if h = other \<or> m_impl s h \<noteq> None then s else take_impl h other s)"

definition handle_assign :: "nat \<Rightarrow> nat \<Rightarrow> handles \<Rightarrow> handles" where
  "handle_assign h other s = (if h \<noteq> other then take_impl h other (cancel_held h s) else s)"

definition handle_cancel :: "nat \<Rightarrow> handles \<Rightarrow> handles" where
  "handle_cancel h s = cancel_held h s"

definition handle_destroy :: "nat \<Rightarrow> handles \<Rightarrow> handles" where
  "handle_destroy h s = (let s1 = cancel_held h s in s1\<lparr>m_impl := (m_impl s1)(h := None)\<rparr>)"

text \<open>The first half of \<open>disconnect\<close> cancels every subscription a handle still owns; the others' weak pointers
  give nothing.\<close>

definition handle_disconnect :: "handles \<Rightarrow> handles" where
  "handle_disconnect s = s\<lparr>hd_joined := hd_joined s \<union> ran (m_impl s)\<rparr>"

text \<open>\<open>m_impl && m_impl->isActive()\<close>: a cancelled or ended subscription is not active.\<close>

definition handle_isActive :: "nat \<Rightarrow> handles \<Rightarrow> bool" where
  "handle_isActive h s = (case m_impl s h of None \<Rightarrow> False | Some i \<Rightarrow> i \<notin> hd_joined s \<union> hd_ended s)"

section \<open>Programs with handles\<close>

datatype handle_op = Subscribes nat nat | Moves nat nat | Assigns nat nat | Cancels nat | Destroys nat | Ends nat | Disconnecting

fun handle_step :: "handle_op \<Rightarrow> handles \<Rightarrow> handles" where
  "handle_step (Subscribes h i) s = handle_subscribe h i s"
| "handle_step (Moves h other) s = handle_move h other s"
| "handle_step (Assigns h other) s = handle_assign h other s"
| "handle_step (Cancels h) s = handle_cancel h s"
| "handle_step (Destroys h) s = handle_destroy h s"
| "handle_step (Ends i) s = s\<lparr>hd_ended := insert i (hd_ended s)\<rparr>"
| "handle_step Disconnecting s = handle_disconnect s"

definition handle_run :: "handle_op list \<Rightarrow> handles" where
  "handle_run ops = fold handle_step ops no_handles"

text \<open>Every started thread has exactly one owner, or was joined and has at most one.\<close>

definition handles_ok :: "handles \<Rightarrow> bool" where
  "handles_ok s \<longleftrightarrow>
     (\<forall>i \<in> hd_started s. i \<in> hd_joined s \<or> (\<exists>h. m_impl s h = Some i))
     \<and> (\<forall>h i. m_impl s h = Some i \<longrightarrow> i \<in> hd_started s)
     \<and> (\<forall>h h' i. m_impl s h = Some i \<longrightarrow> m_impl s h' = Some i \<longrightarrow> h = h')"

lemma handles_ok_cancel: "handles_ok s \<Longrightarrow> handles_ok (cancel_held h s)"
  by (auto simp: handles_ok_def cancel_held_def split: option.split)

lemma handles_ok_release:
  "handles_ok s \<Longrightarrow> (\<And>i. m_impl s h = Some i \<Longrightarrow> i \<in> hd_joined s) \<Longrightarrow> handles_ok (s\<lparr>m_impl := (m_impl s)(h := None)\<rparr>)"
  by (auto simp: handles_ok_def) metis+

lemma cancel_held_joins: "m_impl (cancel_held h s) h = Some i \<Longrightarrow> i \<in> hd_joined (cancel_held h s)"
  by (auto simp: cancel_held_def split: option.splits)

text \<open>Taking over from another handle, when the taker holds nothing that still needs a join.\<close>

lemma handles_ok_take:
  assumes "handles_ok s" "\<And>i. m_impl s h = Some i \<Longrightarrow> i \<in> hd_joined s" "h \<noteq> other"
  shows "handles_ok (take_impl h other s)"
proof -
  let ?m = "m_impl (take_impl h other s)"
  have at: "?m k = (if k = h then m_impl s other else if k = other then None else m_impl s k)" for k
    by (simp add: take_impl_def)
  have "\<exists>k. ?m k = Some i" if "m_impl s k = Some i" "k \<noteq> h" for k i
    using that by (cases "k = other") (auto simp: at)
  moreover have "handles_ok s" "hd_started (take_impl h other s) = hd_started s" "hd_joined (take_impl h other s) = hd_joined s"
    using assms(1) by (simp_all add: take_impl_def)
  ultimately show ?thesis using assms(2,3) by (auto simp: handles_ok_def at split: if_splits) metis+
qed

lemma handles_ok_subscribe:
  assumes "handles_ok s"
  shows "handles_ok (handle_subscribe h i s)"
proof (cases "i \<in> hd_started s \<or> m_impl s h \<noteq> None")
  case True
  with assms show ?thesis by (simp add: handle_subscribe_def)
next
  case False
  let ?m = "(m_impl s)(h \<mapsto> i)"
  have "\<exists>k. ?m k = Some j" if "m_impl s k = Some j" for j k
    using that False by (intro exI [of _ k]) auto
  moreover have "?m h = Some i" by simp
  ultimately have "\<forall>j \<in> insert i (hd_started s). j \<in> hd_joined s \<or> (\<exists>k. ?m k = Some j)"
    using assms unfolding handles_ok_def by (metis insertE)
  then show ?thesis using False assms by (auto simp: handle_subscribe_def handles_ok_def)
qed

lemma handles_ok_step: "handles_ok s \<Longrightarrow> handles_ok (handle_step op s)"
proof (cases op)
  case (Subscribes h i)
  assume "handles_ok s"
  with Subscribes show ?thesis by (simp add: handles_ok_subscribe)
next
  case (Moves h other)
  assume "handles_ok s"
  with Moves handles_ok_take [of s h other] show ?thesis by (auto simp: handle_move_def)
next
  case (Assigns h other)
  assume ok: "handles_ok s"
  then have "handles_ok (take_impl h other (cancel_held h s))" if "h \<noteq> other"
    by (intro handles_ok_take handles_ok_cancel that cancel_held_joins)
  with Assigns ok show ?thesis by (simp add: handle_assign_def)
next
  case (Cancels h)
  assume "handles_ok s"
  with Cancels show ?thesis by (simp add: handle_cancel_def handles_ok_cancel)
next
  case (Destroys h)
  assume "handles_ok s"
  with Destroys handles_ok_release [OF handles_ok_cancel cancel_held_joins, of s h] show ?thesis
    by (simp add: handle_destroy_def Let_def)
next
  case (Ends i)
  assume "handles_ok s"
  with Ends show ?thesis by (simp add: handles_ok_def)
next
  case Disconnecting
  assume "handles_ok s"
  with Disconnecting show ?thesis by (auto simp: handles_ok_def handle_disconnect_def)
qed

lemma handles_ok_run: "handles_ok (handle_run ops)"
proof -
  have "handles_ok s \<Longrightarrow> handles_ok (fold handle_step ops s)" for s
    by (induction ops arbitrary: s) (simp_all add: handles_ok_step)
  moreover have "handles_ok no_handles" by (simp add: handles_ok_def no_handles_def)
  ultimately show ?thesis by (simp add: handle_run_def)
qed

section \<open>Properties\<close>

text \<open>
  Whatever a program does with its handles, also when subscriptions end by themselves meanwhile, a subscription
  whose thread was started is owned by a handle or its thread was joined: no thread is left joinable when its
  last owner goes.
\<close>

theorem no_thread_left_joinable: "hd_started (handle_run ops) - ran (m_impl (handle_run ops)) \<subseteq> hd_joined (handle_run ops)"
  using handles_ok_run [of ops] by (auto simp: handles_ok_def ran_def)

text \<open>Assigning over a handle cancels what it held, and leaves the source empty.\<close>

theorem assignment_hands_over:
  assumes "h \<noteq> other" "m_impl (handle_run ops) h = Some i" "m_impl (handle_run ops) other = Some j"
  shows "let s = handle_run (ops @ [Assigns h other])
         in i \<in> hd_joined s \<and> m_impl s h = Some j \<and> m_impl s other = None \<and> handle_isActive h s = handle_isActive other (handle_run ops)"
proof -
  have "i \<noteq> j" using assms handles_ok_run [of ops] by (auto simp: handles_ok_def)
  moreover have "handle_run (ops @ [Assigns h other]) = handle_assign h other (handle_run ops)" by (simp add: handle_run_def)
  ultimately show ?thesis
    using assms by (simp add: handle_assign_def cancel_held_def take_impl_def handle_isActive_def Let_def)
qed

theorem assignment_hands_over_witness:
  "m_impl (handle_run ([Subscribes 1 10, Subscribes 2 20] @ [Assigns 1 2])) 1 = Some 20"
  using assignment_hands_over [of 1 2 "[Subscribes 1 10, Subscribes 2 20]" 10 20]
  by (simp add: handle_run_def handle_subscribe_def no_handles_def Let_def)

end
