(* ===== verification/Config_Tree.thy ===== *)
theory Config_Tree
  imports Prelude
begin

text \<open>
  Configuration trees (\<open>src/config/config_merger.cpp\<close>, \<open>config_validator.cpp\<close>,
  \<open>immutable_config_view.cpp\<close>): the YAML documents the framework works on, the deep merge of layers,
  the validator and the read-only view.  yaml-cpp is not part of the sources: its conversions, its
  printer and its parser are the fields of a record the operations take.
\<close>

section \<open>YAML documents\<close>

text \<open>A mapping is the list of its pairs in document order; keys may be any node and may repeat.\<close>

datatype yaml = YNull | YScalar string | YSeq "yaml list" | YMap "(yaml \<times> yaml) list"

definition IsNull :: "yaml \<Rightarrow> bool" where
  "IsNull y \<longleftrightarrow> y = YNull"

definition IsScalar :: "yaml \<Rightarrow> bool" where
  "IsScalar y = (case y of YScalar _ \<Rightarrow> True | _ \<Rightarrow> False)"

definition IsSequence :: "yaml \<Rightarrow> bool" where
  "IsSequence y = (case y of YSeq _ \<Rightarrow> True | _ \<Rightarrow> False)"

definition IsMap :: "yaml \<Rightarrow> bool" where
  "IsMap y = (case y of YMap _ \<Rightarrow> True | _ \<Rightarrow> False)"

text \<open>
  The library: \<open>node.as<T>()\<close> (None: it throws), \<open>YAML::Dump\<close>, \<open>YAML::Load\<close>, \<open>YAML::LoadFile\<close> (Inl: the
  text of the exception), \<open>YAML::Load\<close> of a text that need not be YAML, the text of the exception raised on a
  node, and the tree that a walk \<open>current = current[part]\<close> on a non-const node leaves
  behind, which the comments of \<open>config_manager.cpp\<close> warn about.
\<close>

record 'd yaml_cpp =
  as_string :: "yaml \<Rightarrow> string option"
  as_int :: "yaml \<Rightarrow> int option"
  as_double :: "yaml \<Rightarrow> 'd option"
  as_bool :: "yaml \<Rightarrow> bool option"
  as_uint32 :: "yaml \<Rightarrow> u32 option"
  Dump :: "yaml \<Rightarrow> string"
  Load :: "string \<Rightarrow> yaml"
  LoadFile :: "string \<Rightarrow> string + yaml"
  parse :: "string \<Rightarrow> string + yaml"
  what_of :: "yaml \<Rightarrow> string"
  after_walk :: "yaml \<Rightarrow> string list \<Rightarrow> yaml"

text \<open>\<open>node[key]\<close> on a mapping finds the first pair with that key; assigning to it replaces that pair's
  value or appends a pair.\<close>

fun node_get :: "string \<Rightarrow> (yaml \<times> yaml) list \<Rightarrow> yaml option" where
  "node_get key [] = None"
| "node_get key ((k, v) # r) = (if k = YScalar key then Some v else node_get key r)"

fun node_set :: "string \<Rightarrow> yaml \<Rightarrow> (yaml \<times> yaml) list \<Rightarrow> (yaml \<times> yaml) list" where
  "node_set key v [] = [(YScalar key, v)]"
| "node_set key v ((k, w) # r) = (if k = YScalar key then (k, v) # r else (k, w) # node_set key v r)"

section \<open>ConfigMerger\<close>

text \<open>None: a key of the override is not convertible to a string and the conversion throws.\<close>

function mergeMap :: "'d yaml_cpp \<Rightarrow> (yaml \<times> yaml) list \<Rightarrow> (yaml \<times> yaml) list \<Rightarrow> (yaml \<times> yaml) list option" where
  "mergeMap Y base [] = Some base"
| "mergeMap Y base ((k, v) # over) =
     (case as_string Y k of
        None \<Rightarrow> None
      | Some key \<Rightarrow>
          (case (node_get key base, v) of
             (Some (YMap bm), YMap om) \<Rightarrow>
               (case mergeMap Y bm om of
                  None \<Rightarrow> None
                | Some m \<Rightarrow> mergeMap Y (node_set key (YMap m) base) over)
           | _ \<Rightarrow> mergeMap Y (node_set key v base) over))"
  by pat_completeness auto
termination
  by (relation "measure (\<lambda>(Y, b, over). size_list (size_prod size size) over)") auto

text \<open>None stands for the undefined node.\<close>

definition merge :: "'d yaml_cpp \<Rightarrow> yaml option \<Rightarrow> yaml option \<Rightarrow> yaml option option" where
  "merge Y base over =
     (case base of
        None \<Rightarrow> Some over
      | Some b \<Rightarrow>
          if IsNull b then Some over
          else case over of
            None \<Rightarrow> Some (Some b)
          | Some v \<Rightarrow>
              if IsNull v then Some (Some b)
              else case (b, v) of
                (YMap bm, YMap om) \<Rightarrow> map_option (\<lambda>m. Some (YMap m)) (mergeMap Y bm om)
              | _ \<Rightarrow> Some (Some v))"

definition mergeMultiple :: "'d yaml_cpp \<Rightarrow> yaml list \<Rightarrow> yaml option" where
  "mergeMultiple Y nodes =
     (case nodes of
        [] \<Rightarrow> Some YNull
      | n # ns \<Rightarrow>
          map_option (case_option YNull id)
            (foldl (\<lambda>acc node. case acc of None \<Rightarrow> None | Some r \<Rightarrow> merge Y r (Some node)) (Some (Some n)) ns))"

section \<open>Dotted paths\<close>

text \<open>The loop over \<open>std::getline(stream, part, '.')\<close>, which drops empty parts.\<close>

fun split_on :: "char \<Rightarrow> string \<Rightarrow> string list" where
  "split_on c [] = [[]]"
| "split_on c (x # xs) =
     (if x = c then [] # split_on c xs
      else case split_on c xs of [] \<Rightarrow> [[x]] | p # ps \<Rightarrow> (x # p) # ps)"

definition splitPath :: "string \<Rightarrow> string list" where
  "splitPath path = filter (\<lambda>part. part \<noteq> []) (split_on CHR ''.'' path)"

text \<open>\<open>getNode\<close>: None is the undefined node a missing key gives, \<open>Some YNull\<close> also the fresh
  \<open>YAML::Node()\<close> returned where the walk leaves the mappings.\<close>

fun getNode :: "yaml option \<Rightarrow> string list \<Rightarrow> yaml option" where
  "getNode current [] = current"
| "getNode current (part # parts) =
     (case current of
        Some (YMap m) \<Rightarrow> getNode (node_get part m) parts
      | _ \<Rightarrow> Some YNull)"

section \<open>ConfigValidator\<close>

datatype ConfigError = kOk | kFileNotFound | kParseFailed | kValidationFailed | kMergeConflict

datatype ConfigType = kScalar | kSequence | kMap

record ConfigErrorInfo =
  code :: ConfigError
  message :: string
  path :: string

record ValidationRule =
  r_path :: string
  expectedType :: ConfigType
  required :: bool
  description :: string

definition addRule :: "ValidationRule \<Rightarrow> ValidationRule list \<Rightarrow> ValidationRule list" where
  "addRule rule rules = rules @ [rule]"

definition addRules :: "ValidationRule list \<Rightarrow> ValidationRule list \<Rightarrow> ValidationRule list" where
  "addRules new rules = rules @ new"

definition clearRules :: "ValidationRule list \<Rightarrow> ValidationRule list" where
  "clearRules rules = []"

definition checkType :: "yaml option \<Rightarrow> ConfigType \<Rightarrow> bool" where
  "checkType node ty =
     (case node of
        None \<Rightarrow> False
      | Some y \<Rightarrow> (case ty of kScalar \<Rightarrow> IsScalar y | kSequence \<Rightarrow> IsSequence y | kMap \<Rightarrow> IsMap y))"

text \<open>The loop of \<open>validate\<close>; each rule walks the tree the earlier walks left.\<close>

fun validate :: "'d yaml_cpp \<Rightarrow> ValidationRule list \<Rightarrow> yaml \<Rightarrow> ConfigErrorInfo" where
  "validate Y [] config = \<lparr>code = kOk, message = [], path = []\<rparr>"
| "validate Y (rule # rules) config =
     (let node = getNode (Some config) (splitPath (r_path rule));
          config' = after_walk Y config (splitPath (r_path rule)) in
      if (case node of None \<Rightarrow> True | Some y \<Rightarrow> IsNull y) then
        (if required rule
         then \<lparr>code = kValidationFailed, message = ''Required field missing: '' @ description rule, path = r_path rule\<rparr>
         else validate Y rules config')
      else if \<not> checkType node (expectedType rule)
      then \<lparr>code = kValidationFailed, message = ''Type mismatch for field: '' @ description rule, path = r_path rule\<rparr>
      else validate Y rules config')"

section \<open>ImmutableConfigViewImpl\<close>

text \<open>The view is the text of the tree it was made from (\<open>m_yamlStr\<close>), parsed again by every operation.\<close>

type_synonym view = string

definition view_new :: "'d yaml_cpp \<Rightarrow> yaml \<Rightarrow> view" where
  "view_new Y root = Dump Y root"

definition view_node :: "'d yaml_cpp \<Rightarrow> view \<Rightarrow> string \<Rightarrow> yaml option" where
  "view_node Y v key = getNode (Some (Load Y v)) (splitPath key)"

definition has :: "'d yaml_cpp \<Rightarrow> view \<Rightarrow> string \<Rightarrow> bool" where
  "has Y v key = (case view_node Y v key of None \<Rightarrow> False | Some y \<Rightarrow> \<not> IsNull y)"

text \<open>The four scalar getters share their shape; an exception of the conversion gives the default.\<close>

definition get_scalar :: "(yaml \<Rightarrow> 'a option) \<Rightarrow> yaml option \<Rightarrow> 'a \<Rightarrow> 'a" where
  "get_scalar conv node defaultValue =
     (case node of
        None \<Rightarrow> defaultValue
      | Some y \<Rightarrow> if IsScalar y then (case conv y of None \<Rightarrow> defaultValue | Some x \<Rightarrow> x) else defaultValue)"

definition getString :: "'d yaml_cpp \<Rightarrow> view \<Rightarrow> string \<Rightarrow> string \<Rightarrow> string" where
  "getString Y v key defaultValue = get_scalar (as_string Y) (view_node Y v key) defaultValue"

definition getInt :: "'d yaml_cpp \<Rightarrow> view \<Rightarrow> string \<Rightarrow> int \<Rightarrow> int" where
  "getInt Y v key defaultValue = get_scalar (as_int Y) (view_node Y v key) defaultValue"

definition getDouble :: "'d yaml_cpp \<Rightarrow> view \<Rightarrow> string \<Rightarrow> 'd \<Rightarrow> 'd" where
  "getDouble Y v key defaultValue = get_scalar (as_double Y) (view_node Y v key) defaultValue"

definition getBool :: "'d yaml_cpp \<Rightarrow> view \<Rightarrow> string \<Rightarrow> bool \<Rightarrow> bool" where
  "getBool Y v key defaultValue = get_scalar (as_bool Y) (view_node Y v key) defaultValue"

text \<open>\<open>getStringList\<close>: a failing conversion ends the loop with what was collected.\<close>

fun collect_strings :: "'d yaml_cpp \<Rightarrow> yaml list \<Rightarrow> string list" where
  "collect_strings Y [] = []"
| "collect_strings Y (item # items) =
     (if IsScalar item
      then (case as_string Y item of None \<Rightarrow> [] | Some s \<Rightarrow> s # collect_strings Y items)
      else collect_strings Y items)"

definition getStringList :: "'d yaml_cpp \<Rightarrow> view \<Rightarrow> string \<Rightarrow> string list" where
  "getStringList Y v key =
     (case view_node Y v key of Some (YSeq items) \<Rightarrow> collect_strings Y items | _ \<Rightarrow> [])"

definition getSection :: "'d yaml_cpp \<Rightarrow> view \<Rightarrow> string \<Rightarrow> view option" where
  "getSection Y v key =
     (case view_node Y v key of Some (YMap m) \<Rightarrow> Some (view_new Y (YMap m)) | _ \<Rightarrow> None)"

text \<open>\<open>getKeys\<close> is not guarded: None is the exception of a key that is not a string.\<close>

fun keys_of :: "'d yaml_cpp \<Rightarrow> (yaml \<times> yaml) list \<Rightarrow> string list option" where
  "keys_of Y [] = Some []"
| "keys_of Y ((k, v) # r) =
     (case as_string Y k of
        None \<Rightarrow> None
      | Some key \<Rightarrow> (case keys_of Y r of None \<Rightarrow> None | Some ks \<Rightarrow> Some (key # ks)))"

definition getKeys :: "'d yaml_cpp \<Rightarrow> view \<Rightarrow> string list option" where
  "getKeys Y v = (case Load Y v of YMap m \<Rightarrow> keys_of Y m | _ \<Rightarrow> Some [])"

definition toYamlClone :: "'d yaml_cpp \<Rightarrow> view \<Rightarrow> yaml" where
  "toYamlClone Y v = Load Y v"

section \<open>Laws of the library and well-formed documents\<close>

definition string_ok :: "'d yaml_cpp \<Rightarrow> bool" where
  "string_ok Y \<longleftrightarrow> (\<forall>s. as_string Y (YScalar s) = Some s)"

text \<open>Scalar keys, none repeated.\<close>

fun wf_yaml :: "yaml \<Rightarrow> bool" where
  "wf_yaml (YMap m) \<longleftrightarrow> list_all (\<lambda>p. IsScalar (fst p) \<and> wf_yaml (snd p)) m \<and> distinct (map fst m)"
| "wf_yaml _ \<longleftrightarrow> True"

lemma IsScalar_iff: "IsScalar y \<longleftrightarrow> (\<exists>s. y = YScalar s)"
  by (cases y) (auto simp: IsScalar_def)

lemma IsMap_iff: "IsMap y \<longleftrightarrow> (\<exists>m. y = YMap m)"
  by (cases y) (auto simp: IsMap_def)

lemma node_get_set [simp]: "node_get k (node_set key v m) = (if k = key then Some v else node_get k m)"
  by (induction key v m rule: node_set.induct) auto

lemma node_set_same: "node_get key m = Some v \<Longrightarrow> node_set key v m = m"
  by (induction key v m rule: node_set.induct) (auto split: if_splits)

interpretation yaml_map: keyed node_get node_set "\<lambda>m. True"
  by unfold_locales auto

lemma node_get_None: "YScalar k \<notin> fst ` set m \<Longrightarrow> node_get k m = None"
  by (induction k m rule: node_get.induct) auto

lemma node_get_mem: "node_get k m = Some v \<Longrightarrow> (YScalar k, v) \<in> set m"
  by (induction k m rule: node_get.induct) (auto split: if_splits)

lemma mem_node_get: "distinct (map fst m) \<Longrightarrow> (YScalar k, v) \<in> set m \<Longrightarrow> node_get k m = Some v"
  by (induction k m rule: node_get.induct) (auto simp: image_iff)

section \<open>The merge, key by key\<close>

text \<open>What a key holds after the merge of two mappings.\<close>

definition merged_entry :: "'d yaml_cpp \<Rightarrow> yaml option \<Rightarrow> yaml option \<Rightarrow> yaml option" where
  "merged_entry Y b v =
     (case v of
        None \<Rightarrow> b
      | Some (YMap om) \<Rightarrow>
          (case b of Some (YMap bm) \<Rightarrow> map_option YMap (mergeMap Y bm om) | _ \<Rightarrow> v)
      | _ \<Rightarrow> v)"

lemma mergeMap_step:
  assumes "as_string Y k = Some key" "mergeMap Y base ((k, v) # over) = Some m"
  shows "\<exists>w. merged_entry Y (node_get key base) (Some v) = Some w \<and> mergeMap Y (node_set key w base) over = Some m"
  using assms by (cases v; cases "node_get key base"; cases "the (node_get key base)")
    (auto simp: merged_entry_def split: option.splits yaml.splits)

lemma mergeMap_get:
  assumes "string_ok Y" "wf_yaml (YMap over)" "mergeMap Y base over = Some m"
  shows "node_get k m = merged_entry Y (node_get k base) (node_get k over)"
  using assms(2,3)
proof (induction over arbitrary: base)
  case Nil
  then show ?case by (simp add: merged_entry_def)
next
  case (Cons p over)
  obtain kn v where p: "p = (kn, v)" by (rule prod.exhaust)
  from Cons.prems(1) p obtain key where key: "kn = YScalar key" by (auto simp: IsScalar_iff)
  from key assms(1) have conv: "as_string Y kn = Some key" by (simp add: string_ok_def)
  from mergeMap_step [OF conv Cons.prems(2) [unfolded p]] obtain w
    where w: "merged_entry Y (node_get key base) (Some v) = Some w"
      and rest: "mergeMap Y (node_set key w base) over = Some m" by blast
  from Cons.prems(1) p have wf: "wf_yaml (YMap over)" and new: "kn \<notin> fst ` set over" by auto
  from Cons.IH [OF wf rest] have get: "node_get k m = merged_entry Y (node_get k (node_set key w base)) (node_get k over)" .
  show ?case
  proof (cases "k = key")
    case True
    with new key have "node_get k over = None" by (simp add: node_get_None)
    with get w True show ?thesis by (simp add: p key merged_entry_def)
  next
    case False
    with get show ?thesis by (simp add: p key)
  qed
qed

lemma mergeMap_total:
  assumes "string_ok Y" "wf_yaml (YMap over)"
  shows "\<exists>m. mergeMap Y base over = Some m"
  using assms(2)
proof (induction over arbitrary: base rule: measure_induct_rule [where f = "size_list (size_prod size size)"])
  case (less over)
  show ?case
  proof (cases over)
    case (Cons p rest)
    obtain k v where p: "p = (k, v)" by (rule prod.exhaust)
    from less.prems Cons p obtain key where "k = YScalar key" by (auto simp: IsScalar_iff)
    with assms(1) have conv: "as_string Y k = Some key" by (simp add: string_ok_def)
    have wf: "wf_yaml v" "wf_yaml (YMap rest)" using less.prems Cons p by auto
    have tail: "\<exists>m. mergeMap Y b rest = Some m" for b
      using less.IH [of rest b] wf(2) Cons by simp
    have head: "\<exists>m. mergeMap Y b om = Some m" if "v = YMap om" for b om
      using less.IH [of om b] wf(1) Cons p that by simp
    show ?thesis using conv head tail unfolding Cons p
      by (cases v; cases "node_get key base"; cases "the (node_get key base)") (fastforce split: option.splits)+
  qed simp
qed

section \<open>The merge, path by path\<close>

text \<open>A document speaks about a path when it has a node there or cuts the path off with a node that is not
  a mapping.\<close>

fun touches :: "yaml \<Rightarrow> string list \<Rightarrow> bool" where
  "touches y [] \<longleftrightarrow> True"
| "touches y (k # ks) \<longleftrightarrow>
     (case y of YMap m \<Rightarrow> (case node_get k m of None \<Rightarrow> False | Some v \<Rightarrow> touches v ks) | _ \<Rightarrow> True)"

definition layer_touches :: "yaml \<Rightarrow> string list \<Rightarrow> bool" where
  "layer_touches y p \<longleftrightarrow> y \<noteq> YNull \<and> touches y p"

lemma getNode_None [simp]: "getNode None p = Some v \<Longrightarrow> v = YNull"
  by (cases p) auto

lemma getNode_through:
  assumes "getNode (Some y) (k # ks) = Some v" "v \<noteq> YNull"
  obtains m w where "y = YMap m" "node_get k m = Some w" "getNode (Some w) ks = Some v"
proof -
  from assms obtain m where m: "y = YMap m" by (cases y) auto
  with assms have g: "getNode (node_get k m) ks = Some v" by simp
  with assms(2) obtain w where "node_get k m = Some w" by (cases "node_get k m") (auto dest: getNode_None)
  with m g show ?thesis by (auto intro: that)
qed

lemma wf_entry: "wf_yaml (YMap m) \<Longrightarrow> node_get k m = Some w \<Longrightarrow> wf_yaml w"
  by (auto dest!: node_get_mem simp: list_all_iff)

lemma mergeMap_leaf_wins:
  assumes "string_ok Y"
  shows "wf_yaml (YMap over) \<Longrightarrow> mergeMap Y base over = Some m \<Longrightarrow> getNode (Some (YMap over)) p = Some v
    \<Longrightarrow> v \<noteq> YNull \<Longrightarrow> \<not> IsMap v \<Longrightarrow> getNode (Some (YMap m)) p = Some v"
proof (induction p arbitrary: base over m)
  case Nil
  then show ?case by (auto simp: IsMap_def)
next
  case (Cons k ks)
  from Cons.prems(3,4) obtain w where w: "node_get k over = Some w" "getNode (Some w) ks = Some v"
    by (rule getNode_through) auto
  have at: "node_get k m = merged_entry Y (node_get k base) (Some w)"
    using mergeMap_get [OF assms Cons.prems(1,2), of k] w by simp
  show ?case
  proof (cases "\<exists>bm om. node_get k base = Some (YMap bm) \<and> w = YMap om")
    case True
    then obtain bm om where b: "node_get k base = Some (YMap bm)" and om: "w = YMap om" by blast
    have wf: "wf_yaml (YMap om)" using wf_entry [OF Cons.prems(1) w(1)] om by simp
    obtain m1 where m1: "mergeMap Y bm om = Some m1" using mergeMap_total [OF assms wf] by blast
    have "getNode (Some (YMap m1)) ks = Some v" by (rule Cons.IH [OF wf m1 w(2) [unfolded om] Cons.prems(4,5)])
    with at b om m1 show ?thesis by (simp add: merged_entry_def)
  next
    case False
    with at have "node_get k m = Some w"
      by (cases w; cases "node_get k base"; cases "the (node_get k base)") (auto simp: merged_entry_def)
    with w show ?thesis by simp
  qed
qed

lemma mergeMap_untouched:
  assumes "string_ok Y"
  shows "wf_yaml (YMap over) \<Longrightarrow> mergeMap Y base over = Some m \<Longrightarrow> getNode (Some (YMap base)) p = Some v
    \<Longrightarrow> v \<noteq> YNull \<Longrightarrow> \<not> touches (YMap over) p \<Longrightarrow> getNode (Some (YMap m)) p = Some v"
proof (induction p arbitrary: base over m)
  case (Cons k ks)
  from Cons.prems(3,4) obtain w where w: "node_get k base = Some w" "getNode (Some w) ks = Some v"
    by (rule getNode_through) auto
  have at: "node_get k m = merged_entry Y (Some w) (node_get k over)"
    using mergeMap_get [OF assms Cons.prems(1,2), of k] w by simp
  show ?case
  proof (cases "node_get k over")
    case None
    with at w show ?thesis by (simp add: merged_entry_def)
  next
    case (Some u)
    with Cons.prems(5) have u: "\<not> touches u ks" by simp
    then obtain j js where ks: "ks = j # js" by (cases ks) auto
    from u ks obtain om where om: "u = YMap om" by (cases u) auto
    obtain bm where bm: "w = YMap bm" by (rule getNode_through [OF w(2) [unfolded ks] Cons.prems(4)])
    have wf: "wf_yaml (YMap om)" using wf_entry [OF Cons.prems(1) Some] om by simp
    obtain m1 where m1: "mergeMap Y bm om = Some m1" using mergeMap_total [OF assms wf] by blast
    have "getNode (Some (YMap m1)) ks = Some v"
      by (rule Cons.IH [OF wf m1 w(2) [unfolded bm] Cons.prems(4) u [unfolded om]])
    with at Some om bm m1 show ?thesis by (simp add: merged_entry_def)
  qed
qed simp

lemma merge_total:
  assumes "string_ok Y" "wf_yaml over"
  shows "\<exists>y. merge Y (Some base) (Some over) = Some (Some y)"
  using mergeMap_total [OF assms(1)] assms(2)
  by (cases over; cases base) (auto simp: merge_def IsNull_def)

lemma merge_leaf_wins:
  assumes "string_ok Y" "wf_yaml over" "merge Y (Some base) (Some over) = Some (Some y)"
    "getNode (Some over) p = Some v" "v \<noteq> YNull" "\<not> IsMap v"
  shows "getNode (Some y) p = Some v"
proof (cases "\<exists>bm om. base = YMap bm \<and> over = YMap om")
  case True
  then obtain bm om where b: "base = YMap bm" and o: "over = YMap om" by blast
  with assms(3) obtain m where m: "mergeMap Y bm om = Some m" "y = YMap m"
    by (auto simp: merge_def IsNull_def)
  show ?thesis unfolding m(2)
    by (rule mergeMap_leaf_wins [OF assms(1) assms(2) [unfolded o] m(1) assms(4) [unfolded o] assms(5,6)])
next
  case False
  have "over \<noteq> YNull" using assms(4,5) by (cases p) auto
  with False assms(3) have "y = over"
    by (cases base; cases over) (auto simp: merge_def IsNull_def)
  with assms(4) show ?thesis by simp
qed

lemma merge_untouched:
  assumes "string_ok Y" "wf_yaml over" "merge Y (Some base) (Some over) = Some (Some y)"
    "getNode (Some base) p = Some v" "v \<noteq> YNull" "\<not> layer_touches over p"
  shows "getNode (Some y) p = Some v"
proof (cases "over = YNull")
  case True
  with assms(3,4) have "y = base \<or> base = YNull" by (auto simp: merge_def IsNull_def split: if_splits)
  with assms(4,5) show ?thesis by (cases p) auto
next
  case False
  with assms(6) have nt: "\<not> touches over p" by (simp add: layer_touches_def)
  then obtain k ks where p: "p = k # ks" by (cases p) auto
  from nt p obtain om where o: "over = YMap om" by (cases over) auto
  obtain bm where b: "base = YMap bm" by (rule getNode_through [OF assms(4) [unfolded p] assms(5)])
  from assms(3) b o obtain m where m: "mergeMap Y bm om = Some m" "y = YMap m"
    by (auto simp: merge_def IsNull_def)
  show ?thesis unfolding m(2)
    by (rule mergeMap_untouched [OF assms(1) assms(2) [unfolded o] m(1) assms(4) [unfolded b] assms(5) nt [unfolded o]])
qed

section \<open>Stacks of layers\<close>

definition merge_step :: "'d yaml_cpp \<Rightarrow> yaml option option \<Rightarrow> yaml \<Rightarrow> yaml option option" where
  "merge_step Y acc node = (case acc of None \<Rightarrow> None | Some r \<Rightarrow> merge Y r (Some node))"

lemma mergeMultiple_fold:
  "mergeMultiple Y (n # ns) = map_option (case_option YNull id) (foldl (merge_step Y) (Some (Some n)) ns)"
  by (simp add: mergeMultiple_def merge_step_def [abs_def])

lemma fold_total:
  assumes "string_ok Y"
  shows "list_all wf_yaml ns \<Longrightarrow> \<exists>y. foldl (merge_step Y) (Some (Some b)) ns = Some (Some y)"
proof (induction ns arbitrary: b)
  case (Cons n ns)
  from merge_total [OF assms, of n b] Cons.prems obtain y where "merge Y (Some b) (Some n) = Some (Some y)" by auto
  with Cons show ?case by (simp add: merge_step_def)
qed simp

lemma fold_untouched:
  assumes "string_ok Y" "v \<noteq> YNull"
  shows "list_all wf_yaml ns \<Longrightarrow> list_all (\<lambda>n. \<not> layer_touches n p) ns \<Longrightarrow> getNode (Some b) p = Some v
    \<Longrightarrow> foldl (merge_step Y) (Some (Some b)) ns = Some (Some y) \<Longrightarrow> getNode (Some y) p = Some v"
proof (induction ns arbitrary: b)
  case (Cons n ns)
  from merge_total [OF assms(1), of n b] Cons.prems(1) obtain y1
    where y1: "merge Y (Some b) (Some n) = Some (Some y1)" by auto
  have "getNode (Some y1) p = Some v"
    by (rule merge_untouched [OF assms(1) _ y1 Cons.prems(3) assms(2)]) (use Cons.prems(1,2) in auto)
  with Cons y1 show ?case by (simp add: merge_step_def)
qed simp

lemma mergeMultiple_total:
  assumes "string_ok Y" "list_all wf_yaml (n # ns)"
  obtains y where "foldl (merge_step Y) (Some (Some n)) ns = Some (Some y)" "mergeMultiple Y (n # ns) = Some y"
  using fold_total [OF assms(1), of ns n] assms(2) by (auto simp: mergeMultiple_fold)

text \<open>The last layer that speaks about a path decides it.\<close>

lemma last_word:
  assumes "string_ok Y" "list_all wf_yaml (pre @ l # post)" "mergeMultiple Y (pre @ l # post) = Some y"
    and "getNode (Some l) p = Some v" "v \<noteq> YNull" "\<not> IsMap v" "list_all (\<lambda>n. \<not> layer_touches n p) post"
  shows "getNode (Some y) p = Some v"
proof (cases pre)
  case Nil
  with assms(2) obtain y' where y': "foldl (merge_step Y) (Some (Some l)) post = Some (Some y')" "mergeMultiple Y (l # post) = Some y'"
    by (auto intro: mergeMultiple_total [OF assms(1), of l post])
  have "getNode (Some y') p = Some v"
    by (rule fold_untouched [OF assms(1,5) _ assms(7,4) y'(1)]) (use assms(2) in auto)
  with y'(2) assms(3) Nil show ?thesis by simp
next
  case (Cons n ns)
  with assms(2) fold_total [OF assms(1), of ns n] obtain b where b: "foldl (merge_step Y) (Some (Some n)) ns = Some (Some b)" by auto
  from merge_total [OF assms(1), of l b] assms(2) obtain y1 where y1: "merge Y (Some b) (Some l) = Some (Some y1)" by auto
  have at1: "getNode (Some y1) p = Some v"
    by (rule merge_leaf_wins [OF assms(1) _ y1 assms(4-6)]) (use assms(2) in auto)
  from assms(2) fold_total [OF assms(1), of post y1] obtain y2 where y2: "foldl (merge_step Y) (Some (Some y1)) post = Some (Some y2)" by auto
  have "getNode (Some y2) p = Some v"
    by (rule fold_untouched [OF assms(1,5) _ assms(7) at1 y2]) (use assms(2) in auto)
  moreover have "mergeMultiple Y (pre @ l # post) = Some y2"
    unfolding Cons by (simp add: mergeMultiple_fold b y1 y2 merge_step_def [of Y "Some _"])
  ultimately show ?thesis using assms(3) by simp
qed

section \<open>Consequences\<close>

text \<open>A key set to null in a layer erases everything the earlier layers put below it.\<close>

lemma merge_null_erases:
  assumes "string_ok Y" "wf_yaml (YMap om)" "merge Y (Some (YMap bm)) (Some (YMap om)) = Some (Some y)" "node_get k om = Some YNull"
  shows "getNode (Some y) (k # ks) = Some YNull"
proof -
  from assms(3) obtain m where m: "mergeMap Y bm om = Some m" "y = YMap m" by (auto simp: merge_def IsNull_def)
  from mergeMap_get [OF assms(1,2) m(1), of k] assms(4) have "node_get k m = Some YNull" by (simp add: merged_entry_def)
  with m show ?thesis by (cases ks) auto
qed

lemma mergeMap_absorbs:
  assumes "string_ok Y"
  shows "wf_yaml (YMap over) \<Longrightarrow> wf_yaml (YMap base) \<Longrightarrow> (\<forall>(k, v) \<in> set over. (k, v) \<in> set base) \<Longrightarrow> mergeMap Y base over = Some base"
proof (induction over arbitrary: base rule: measure_induct_rule [where f = "size_list (size_prod size size)"])
  case (less over)
  show ?case
  proof (cases over)
    case (Cons p rest)
    obtain kn v where p: "p = (kn, v)" by (rule prod.exhaust)
    from less.prems(1) Cons p obtain key where key: "kn = YScalar key" by (auto simp: IsScalar_iff)
    with assms have conv: "as_string Y kn = Some key" by (simp add: string_ok_def)
    have get: "node_get key base = Some v"
      by (rule mem_node_get) (use less.prems(2,3) Cons p key in auto)
    have tail: "mergeMap Y base rest = Some base"
      by (rule less.IH) (use less.prems Cons in auto)
    have head: "mergeMap Y om om = Some om" if "v = YMap om" for om
      by (rule less.IH) (use less.prems(1) Cons p that in auto)
    show ?thesis using conv get head tail node_set_same [OF get] unfolding Cons p
      by (cases v) auto
  qed simp
qed

text \<open>The parts of a dotted key are what was joined to make it.\<close>

fun join_path :: "string list \<Rightarrow> string" where
  "join_path [] = []"
| "join_path [p] = p"
| "join_path (p # q # ps) = p @ ''.'' @ join_path (q # ps)"

lemma split_on_no_sep: "c \<notin> set p \<Longrightarrow> split_on c p = [p]"
  by (induction p) auto

lemma split_on_append: "c \<notin> set p \<Longrightarrow> split_on c (p @ c # q) = p # split_on c q"
  by (induction p) auto

lemma splitPath_join:
  "list_all (\<lambda>p. p \<noteq> [] \<and> CHR ''.'' \<notin> set p) parts \<Longrightarrow> splitPath (join_path parts) = parts"
  by (induction parts rule: join_path.induct)
    (auto simp: splitPath_def split_on_no_sep split_on_append)

section \<open>Properties\<close>

definition satisfied :: "yaml \<Rightarrow> ValidationRule \<Rightarrow> bool" where
  "satisfied config rule =
     (case getNode (Some config) (splitPath (r_path rule)) of
        None \<Rightarrow> \<not> required rule
      | Some y \<Rightarrow> if y = YNull then \<not> required rule else checkType (Some y) (expectedType rule))"

text \<open>One rule is judged on the tree as given, whatever the walk does to it.\<close>

lemma validate_single:
  "code (validate Y [rule] config) = (if satisfied config rule then kOk else kValidationFailed)"
  by (auto simp: satisfied_def IsNull_def Let_def checkType_def split: option.splits)

text \<open>
  If a walk left the tree as it was, the validator would report the first rule the document does not
  satisfy, and success exactly when it satisfies all of them.
\<close>

theorem validator_reports_first_failure:
  "(\<forall>p. after_walk Y config p = config) \<Longrightarrow>
     (case filter (\<lambda>rule. \<not> satisfied config rule) rules of
        [] \<Rightarrow> code (validate Y rules config) = kOk
      | rule # _ \<Rightarrow> code (validate Y rules config) = kValidationFailed \<and> path (validate Y rules config) = r_path rule)"
proof (induction rules)
  case (Cons rule rules)
  show ?case
  proof (cases "satisfied config rule")
    case True
    with Cons have "validate Y (rule # rules) config = validate Y rules config"
      by (auto simp: satisfied_def IsNull_def Let_def split: option.splits if_splits)
    with Cons True show ?thesis by (simp del: validate.simps split: list.splits)
  next
    case False
    then show ?thesis by (auto simp: satisfied_def IsNull_def Let_def checkType_def split: option.splits if_splits)
  qed
qed simp

definition still :: "nat yaml_cpp" where
  "still = \<lparr>as_string = (\<lambda>y. case y of YScalar s \<Rightarrow> Some s | _ \<Rightarrow> None), as_int = (\<lambda>y. None), as_double = (\<lambda>y. None),
            as_bool = (\<lambda>y. None), as_uint32 = (\<lambda>y. None), Dump = (\<lambda>y. []), Load = (\<lambda>s. YNull), LoadFile = (\<lambda>p. Inl []),
            parse = (\<lambda>s. Inl []), what_of = (\<lambda>y. []), after_walk = (\<lambda>y p. y)\<rparr>"

definition two_ports :: yaml where
  "two_ports = YMap [(YScalar ''server'', YMap [(YScalar ''host'', YScalar ''h''), (YScalar ''port'', YScalar ''80'')])]"

definition port_rule :: "string \<Rightarrow> ValidationRule" where
  "port_rule p = \<lparr>r_path = p, expectedType = kScalar, required = True, description = p\<rparr>"

theorem validator_reports_first_failure_witness:
  "code (validate still [port_rule ''server.host'', port_rule ''server.tls''] two_ports) = kValidationFailed
   \<and> path (validate still [port_rule ''server.host'', port_rule ''server.tls''] two_ports) = ''server.tls''"
proof -
  have "filter (\<lambda>rule. \<not> satisfied two_ports rule) [port_rule ''server.host'', port_rule ''server.tls''] = [port_rule ''server.tls'']"
    by code_simp
  moreover have "\<forall>p. after_walk still two_ports p = two_ports" by (simp add: still_def)
  moreover have "r_path (port_rule ''server.tls'') = ''server.tls''" by (simp add: port_rule_def)
  ultimately show ?thesis
    using validator_reports_first_failure [of still two_ports "[port_rule ''server.host'', port_rule ''server.tls'']"]
    by (simp del: validate.simps)
qed

text \<open>
  A library whose assignment re-targets the node, so that a walk leaves the root at the node it reached,
  makes the second of two satisfied rules fail: the rules are not independent.
\<close>

theorem validator_loses_the_tree:
  "satisfied two_ports (port_rule ''server.host'') \<and> satisfied two_ports (port_rule ''server.port'')
   \<and> code (validate (still\<lparr>after_walk := \<lambda>y p. case getNode (Some y) p of Some n \<Rightarrow> n | None \<Rightarrow> y\<rparr>)
         [port_rule ''server.host'', port_rule ''server.port''] two_ports) = kValidationFailed"
  by code_simp

text \<open>Merging a document over itself changes nothing.\<close>

theorem merge_idempotent:
  assumes "string_ok Y" "wf_yaml y"
  shows "merge Y (Some y) (Some y) = Some (Some y)"
  using assms mergeMap_absorbs [OF assms(1)] by (cases y) (auto simp: merge_def IsNull_def)

theorem merge_idempotent_witness: "merge still (Some two_ports) (Some two_ports) = Some (Some two_ports)"
  by (rule merge_idempotent) (auto simp: string_ok_def still_def two_ports_def IsScalar_def)

end
