(* ===== verification/Config.thy ===== *)
theory Config
  imports Config_Tree
begin

text \<open>
  Finding the layers (\<open>src/config/path_resolver.cpp\<close>) and the configuration manager
  (\<open>src/config/config_manager.cpp\<close>).  Which files exist is a predicate on paths; what a file holds is
  \<open>LoadFile\<close> of the library record, so a file may also vanish or change between the two.
\<close>

section \<open>PathResolver\<close>

record ConfigEntry =
  ce_path :: string
  layer :: string

record PathResolver =
  m_serviceName :: string
  m_configRoot :: string
  m_configRoots :: "string list"

definition with_slash :: "string \<Rightarrow> string" where
  "with_slash root = (if root \<noteq> [] \<and> last root \<noteq> CHR ''/'' then root @ ''/'' else root)"

definition resolver_single :: "string \<Rightarrow> string \<Rightarrow> PathResolver" where
  "resolver_single serviceName configRoot =
     (let r = \<lparr>m_serviceName = serviceName, m_configRoot = configRoot, m_configRoots = [configRoot]\<rparr> in
      if configRoot \<noteq> [] \<and> last configRoot \<noteq> CHR ''/''
      then r\<lparr>m_configRoot := configRoot @ ''/'', m_configRoots := [configRoot @ ''/'']\<rparr>
      else r)"

definition resolver_multi :: "string \<Rightarrow> string list \<Rightarrow> PathResolver" where
  "resolver_multi serviceName configRoots =
     (let roots = map with_slash configRoots in
      \<lparr>m_serviceName = serviceName, m_configRoot = (if roots = [] then [] else roots ! 0), m_configRoots = roots\<rparr>)"

text \<open>The loop of \<open>findCommon\<close> and \<open>findService\<close>: the first root under which the file exists, with its index.\<close>

fun find_first :: "(string \<Rightarrow> bool) \<Rightarrow> string \<Rightarrow> string list \<Rightarrow> int \<Rightarrow> string \<times> int" where
  "find_first ex suffix [] i = ([], -1)"
| "find_first ex suffix (root # roots) i =
     (if ex (root @ suffix) then (root @ suffix, i) else find_first ex suffix roots (i + 1))"

definition findCommon :: "(string \<Rightarrow> bool) \<Rightarrow> PathResolver \<Rightarrow> string \<times> int" where
  "findCommon ex r = find_first ex ''common.yaml'' (m_configRoots r) 0"

definition findService :: "(string \<Rightarrow> bool) \<Rightarrow> PathResolver \<Rightarrow> string \<times> int" where
  "findService ex r = find_first ex (''conf.d/'' @ m_serviceName r @ ''.yaml'') (m_configRoots r) 0"

text \<open>Step 5 of \<open>resolveAll\<close>, the loop over the roots.\<close>

fun root_entries :: "(string \<Rightarrow> bool) \<Rightarrow> string \<Rightarrow> string list \<Rightarrow> nat \<Rightarrow> ConfigEntry list" where
  "root_entries ex svc [] i = []"
| "root_entries ex svc (root # roots) i =
     (if ex (root @ svc @ ''.yaml'')
      then \<lparr>ce_path = root @ svc @ ''.yaml'', layer = ''root['' @ show_nat i @ '']/'' @ svc\<rparr>
             # root_entries ex svc roots (i + 1)
      else root_entries ex svc roots (i + 1))"

definition resolveAll :: "(string \<Rightarrow> bool) \<Rightarrow> PathResolver \<Rightarrow> ConfigEntry list" where
  "resolveAll ex r =
     (let svc = m_serviceName r;
          commonResult = findCommon ex r;
          e1 = (if fst commonResult \<noteq> [] then [\<lparr>ce_path = fst commonResult, layer = ''common''\<rparr>] else []);
          e2 = (if ex ''./config/common.yaml''
                then [\<lparr>ce_path = ''./config/common.yaml'', layer = ''project/common''\<rparr>] else []);
          serviceResult = findService ex r;
          e3 = (if fst serviceResult \<noteq> [] then [\<lparr>ce_path = fst serviceResult, layer = ''conf.d/'' @ svc\<rparr>] else []);
          projectPath = ''./config/'' @ svc @ ''.yaml'';
          e4 = (if ex projectPath then [\<lparr>ce_path = projectPath, layer = ''project/'' @ svc\<rparr>] else []);
          e5 = root_entries ex svc (m_configRoots r) 0;
          localPath = ''./'' @ svc @ ''.yaml'';
          e6 = (if ex localPath then [\<lparr>ce_path = localPath, layer = ''local/'' @ svc\<rparr>] else [])
      in e1 @ e2 @ e3 @ e4 @ e5 @ e6)"

definition getCommonPath :: "PathResolver \<Rightarrow> string" where
  "getCommonPath r = m_configRoot r @ ''common.yaml''"

definition getServicePath :: "PathResolver \<Rightarrow> string" where
  "getServicePath r = m_configRoot r @ ''conf.d/'' @ m_serviceName r @ ''.yaml''"

definition getProjectPath :: "PathResolver \<Rightarrow> string" where
  "getProjectPath r = ''./config/'' @ m_serviceName r @ ''.yaml''"

definition getLocalPath :: "PathResolver \<Rightarrow> string" where
  "getLocalPath r = ''./'' @ m_serviceName r @ ''.yaml''"

definition commonExists :: "(string \<Rightarrow> bool) \<Rightarrow> PathResolver \<Rightarrow> bool" where
  "commonExists ex r = ex (getCommonPath r)"

definition serviceExists :: "(string \<Rightarrow> bool) \<Rightarrow> PathResolver \<Rightarrow> bool" where
  "serviceExists ex r = ex (getServicePath r)"

definition projectExists :: "(string \<Rightarrow> bool) \<Rightarrow> PathResolver \<Rightarrow> bool" where
  "projectExists ex r = ex (getProjectPath r)"

definition localExists :: "(string \<Rightarrow> bool) \<Rightarrow> PathResolver \<Rightarrow> bool" where
  "localExists ex r = ex (getLocalPath r)"

section \<open>ConfigManager\<close>

record manager =
  m_snapshot :: "view option"
  m_loaded :: bool
  m_lastError :: ConfigErrorInfo

definition no_error :: ConfigErrorInfo where
  "no_error = \<lparr>code = kOk, message = [], path = []\<rparr>"

definition manager_new :: manager where
  "manager_new = \<lparr>m_snapshot = None, m_loaded = False, m_lastError = no_error\<rparr>"

text \<open>Step 4: every layer is read; the first that does not parse gives the error.\<close>

fun read_layers :: "'d yaml_cpp \<Rightarrow> ConfigEntry list \<Rightarrow> ConfigErrorInfo + yaml list" where
  "read_layers Y [] = Inr []"
| "read_layers Y (entry # entries) =
     (case LoadFile Y (ce_path entry) of
        Inl what \<Rightarrow> Inl \<lparr>code = kParseFailed, message = ''Failed to parse '' @ layer entry @ '': '' @ what, path = ce_path entry\<rparr>
      | Inr node \<Rightarrow> (case read_layers Y entries of Inl err \<Rightarrow> Inl err | Inr nodes \<Rightarrow> Inr (node # nodes)))"

definition log_rule :: ValidationRule where
  "log_rule = \<lparr>r_path = ''common.log'', expectedType = kMap, required = True,
               description = ''Log configuration (common.log)''\<rparr>"

definition fail_load :: "ConfigErrorInfo \<Rightarrow> manager \<Rightarrow> ConfigError option \<times> manager" where
  "fail_load err m = (Some (code err), m\<lparr>m_lastError := err\<rparr>)"

text \<open>\<open>loadInternal\<close>; a result of None is the exception of the merge leaving the function.\<close>

definition loadInternal :: "'d yaml_cpp \<Rightarrow> (string \<Rightarrow> bool) \<Rightarrow> string \<Rightarrow> string list \<Rightarrow> manager
    \<Rightarrow> ConfigError option \<times> manager" where
  "loadInternal Y ex serviceName configRoots m =
     (let m1 = m\<lparr>m_loaded := False, m_snapshot := None\<rparr>;
          entries = resolveAll ex (resolver_multi serviceName configRoots);
          hasCommon = list_ex (\<lambda>entry. layer entry = ''common'' \<or> layer entry = ''project/common'') entries in
      if \<not> hasCommon then
        fail_load \<lparr>code = kFileNotFound,
                   message = ''Required config file not found: common.yaml (root) or ./config/common.yaml (project)'',
                   path = ''common.yaml''\<rparr> m1
      else case read_layers Y entries of
        Inl err \<Rightarrow> fail_load err m1
      | Inr layers \<Rightarrow>
          (case mergeMultiple Y layers of
             None \<Rightarrow> (None, m1)
           | Some merged \<Rightarrow>
               (let mergedStr = Dump Y merged;
                    validationError = validate Y (addRule log_rule []) (Load Y mergedStr) in
                if code validationError \<noteq> kOk then fail_load validationError m1
                else
                  (let m2 = m1\<lparr>m_snapshot := Some (view_new Y (Load Y mergedStr)), m_loaded := True\<rparr>
                   in (Some kOk, m2\<lparr>m_lastError := no_error\<rparr>)))))"

definition config_load :: "'d yaml_cpp \<Rightarrow> (string \<Rightarrow> bool) \<Rightarrow> string \<Rightarrow> string \<Rightarrow> manager
    \<Rightarrow> ConfigError option \<times> manager" where
  "config_load Y ex serviceName configRoot m = loadInternal Y ex serviceName [configRoot] m"

definition config_load_roots :: "'d yaml_cpp \<Rightarrow> (string \<Rightarrow> bool) \<Rightarrow> string \<Rightarrow> string list \<Rightarrow> manager
    \<Rightarrow> ConfigError option \<times> manager" where
  "config_load_roots Y ex serviceName configRoots m = loadInternal Y ex serviceName configRoots m"

definition getSnapshot :: "manager \<Rightarrow> view option" where
  "getSnapshot m = m_snapshot m"

definition isLoaded :: "manager \<Rightarrow> bool" where
  "isLoaded m = m_loaded m"

definition getLastError :: "manager \<Rightarrow> ConfigErrorInfo" where
  "getLastError m = m_lastError m"

definition toYaml :: "'d yaml_cpp \<Rightarrow> manager \<Rightarrow> yaml" where
  "toYaml Y m =
     (if \<not> m_loaded m then YNull
      else case m_snapshot m of None \<Rightarrow> YNull | Some v \<Rightarrow> toYamlClone Y v)"

section \<open>The layers found\<close>

lemma with_slash_nonempty [simp]: "with_slash root = [] \<longleftrightarrow> root = []"
  by (simp add: with_slash_def)

lemma find_first_Nil [simp]: "suffix \<noteq> [] \<Longrightarrow> fst (find_first ex suffix roots i) = [] \<longleftrightarrow> (\<forall>root \<in> set roots. \<not> ex (root @ suffix))"
  by (induction ex suffix roots i rule: find_first.induct) auto

lemma root_entries_layer: "e \<in> set (root_entries ex svc roots i) \<Longrightarrow> \<exists>s. layer e = ''root['' @ s"
  by (induction ex svc roots i rule: root_entries.induct) (auto split: if_splits)

lemma resolver_multi_roots [simp]:
  "m_configRoots (resolver_multi svc roots) = map with_slash roots" "m_serviceName (resolver_multi svc roots) = svc"
  by (simp_all add: resolver_multi_def Let_def)

text \<open>Which entries \<open>loadInternal\<close> counts as a common file.\<close>

lemma common_entry:
  "list_ex (\<lambda>entry. layer entry = ''common'' \<or> layer entry = ''project/common'') (resolveAll ex (resolver_multi svc roots))
   \<longleftrightarrow> ex ''./config/common.yaml'' \<or> (\<exists>root \<in> set roots. ex (with_slash root @ ''common.yaml''))"
proof -
  have "\<not> list_ex (\<lambda>entry. layer entry = ''common'' \<or> layer entry = ''project/common'') (root_entries ex svc (map with_slash roots) 0)"
    by (auto simp: list_ex_iff dest!: root_entries_layer)
  moreover have "ex (''./config/'' @ svc @ ''.yaml'') \<Longrightarrow> svc = ''common'' \<Longrightarrow> ex ''./config/common.yaml''" by simp
  ultimately show ?thesis by (auto simp: resolveAll_def Let_def findCommon_def)
qed

lemma log_rule_validates:
  "code (validate Y (addRule log_rule []) y) = (if satisfied y log_rule then kOk else kValidationFailed)"
  by (simp add: addRule_def validate_single del: validate.simps)

lemma satisfied_log:
  "satisfied y log_rule \<longleftrightarrow> (\<exists>m. getNode (Some y) [''common'', ''log''] = Some (YMap m))"
proof -
  have split: "splitPath (r_path log_rule) = [''common'', ''log'']" by code_simp
  show ?thesis unfolding satisfied_def split
    by (auto simp: log_rule_def checkType_def IsMap_iff split: option.splits if_splits)
qed

lemma read_layers_code: "read_layers Y es = Inl err \<Longrightarrow> code err = kParseFailed"
  by (induction Y es arbitrary: err rule: read_layers.induct) (auto split: sum.splits)

lemma read_layers_all:
  "read_layers Y es = Inr ls \<Longrightarrow> list_all2 (\<lambda>e l. LoadFile Y (ce_path e) = Inr l) es ls"
  by (induction es arbitrary: ls) (auto split: sum.splits)

text \<open>The cases of a load, in the order of the code.\<close>

lemma load_cases:
  obtains (missing) "\<not> (ex ''./config/common.yaml'' \<or> (\<exists>root \<in> set roots. ex (with_slash root @ ''common.yaml'')))"
      "loadInternal Y ex svc roots m = fail_load \<lparr>code = kFileNotFound,
         message = ''Required config file not found: common.yaml (root) or ./config/common.yaml (project)'',
         path = ''common.yaml''\<rparr> (m\<lparr>m_loaded := False, m_snapshot := None\<rparr>)"
  | (unparsed) err where "read_layers Y (resolveAll ex (resolver_multi svc roots)) = Inl err"
      "ex ''./config/common.yaml'' \<or> (\<exists>root \<in> set roots. ex (with_slash root @ ''common.yaml''))"
      "loadInternal Y ex svc roots m = fail_load err (m\<lparr>m_loaded := False, m_snapshot := None\<rparr>)"
  | (thrown) ls where "read_layers Y (resolveAll ex (resolver_multi svc roots)) = Inr ls" "mergeMultiple Y ls = None"
      "ex ''./config/common.yaml'' \<or> (\<exists>root \<in> set roots. ex (with_slash root @ ''common.yaml''))"
      "loadInternal Y ex svc roots m = (None, m\<lparr>m_loaded := False, m_snapshot := None\<rparr>)"
  | (invalid) ls y where "read_layers Y (resolveAll ex (resolver_multi svc roots)) = Inr ls" "mergeMultiple Y ls = Some y"
      "ex ''./config/common.yaml'' \<or> (\<exists>root \<in> set roots. ex (with_slash root @ ''common.yaml''))"
      "\<not> satisfied (Load Y (Dump Y y)) log_rule"
      "loadInternal Y ex svc roots m
         = fail_load (validate Y (addRule log_rule []) (Load Y (Dump Y y))) (m\<lparr>m_loaded := False, m_snapshot := None\<rparr>)"
  | (loaded) ls y where "read_layers Y (resolveAll ex (resolver_multi svc roots)) = Inr ls" "mergeMultiple Y ls = Some y"
      "ex ''./config/common.yaml'' \<or> (\<exists>root \<in> set roots. ex (with_slash root @ ''common.yaml''))"
      "satisfied (Load Y (Dump Y y)) log_rule"
      "loadInternal Y ex svc roots m
         = (Some kOk, m\<lparr>m_snapshot := Some (Dump Y (Load Y (Dump Y y))), m_loaded := True, m_lastError := no_error\<rparr>)"
proof -
  let ?es = "resolveAll ex (resolver_multi svc roots)"
  note unf = loadInternal_def common_entry Let_def log_rule_validates view_new_def
  consider (a) "\<not> (ex ''./config/common.yaml'' \<or> (\<exists>root \<in> set roots. ex (with_slash root @ ''common.yaml'')))"
    | (b) err where "ex ''./config/common.yaml'' \<or> (\<exists>root \<in> set roots. ex (with_slash root @ ''common.yaml''))"
        "read_layers Y ?es = Inl err"
    | (c) ls where "ex ''./config/common.yaml'' \<or> (\<exists>root \<in> set roots. ex (with_slash root @ ''common.yaml''))"
        "read_layers Y ?es = Inr ls"
    by (cases "read_layers Y ?es") blast+
  then show thesis
  proof cases
    case a
    then show thesis by (intro missing) (simp_all add: unf)
  next
    case b
    then show thesis by (intro unparsed) (simp_all add: unf)
  next
    case c
    show thesis
    proof (cases "mergeMultiple Y ls")
      case None
      with c show thesis by (intro thrown) (simp_all add: unf)
    next
      case (Some y)
      show thesis
      proof (cases "satisfied (Load Y (Dump Y y)) log_rule")
        case True
        with c Some show thesis by (intro loaded) (simp_all add: unf)
      next
        case False
        with c Some show thesis by (intro invalid) (simp_all add: unf)
      qed
    qed
  qed
qed

section \<open>Properties\<close>

text \<open>C30. 
  What a load reports and what it leaves agree: the manager is loaded and has a snapshot exactly when the
  result is \<open>kOk\<close>, so a failed load drops the previous configuration; the last error carries the code
  returned, and is stale only when an exception escapes; \<open>kFileNotFound\<close> is returned exactly when no root
  and no project directory has a common file.
\<close>

theorem load_outcome:
  "case loadInternal Y ex svc roots m of (r, m') \<Rightarrow>
     (m_loaded m' \<longleftrightarrow> r = Some kOk) \<and> (m_snapshot m' \<noteq> None \<longleftrightarrow> r = Some kOk)
     \<and> (case r of Some c \<Rightarrow> code (m_lastError m') = c \<and> c \<noteq> kMergeConflict | None \<Rightarrow> m_lastError m' = m_lastError m)
     \<and> (r = Some kFileNotFound \<longleftrightarrow>
          \<not> (ex ''./config/common.yaml'' \<or> (\<exists>root \<in> set roots. ex (with_slash root @ ''common.yaml''))))"
proof (rule load_cases [of ex roots Y svc m])
  fix err
  assume "read_layers Y (resolveAll ex (resolver_multi svc roots)) = Inl err"
  then have "code err = kParseFailed" by (rule read_layers_code)
  moreover assume "ex ''./config/common.yaml'' \<or> (\<exists>root \<in> set roots. ex (with_slash root @ ''common.yaml''))"
    "loadInternal Y ex svc roots m = fail_load err (m\<lparr>m_loaded := False, m_snapshot := None\<rparr>)"
  ultimately show ?thesis by (simp add: fail_load_def)
qed (simp_all add: fail_load_def log_rule_validates no_error_def)

text \<open>The nodes a key reads in a loaded snapshot are those of the merged layers.\<close>

lemma snapshot_reads:
  assumes "read_layers Y (resolveAll ex (resolver_multi svc roots)) = Inr ls" "mergeMultiple Y ls = Some y"
    and "Load Y (Dump Y y) = y" "loadInternal Y ex svc roots m = (Some kOk, m')"
  shows "\<exists>v. m_snapshot m' = Some v \<and> view_node Y v key = getNode (Some y) (splitPath key) \<and> toYaml Y m' = y"
  using assms by (cases rule: load_cases [of ex roots Y svc m])
    (auto simp: fail_load_def log_rule_validates view_node_def toYaml_def toYamlClone_def split: if_splits)

text \<open>C16. 
  A layer that sets a key to a scalar decides what a successful load delivers for it unless a later layer
  speaks about that key or about a node above it.
\<close>

theorem layer_precedence:
  assumes lib: "string_ok Y"
    and found: "resolveAll ex (resolver_multi svc roots) = pre @ e # post"
    and files: "list_all2 (\<lambda>e l. LoadFile Y (ce_path e) = Inr l) (pre @ e # post) (pre_l @ l # post_l)"
      "length pre = length pre_l"
    and docs: "list_all wf_yaml (pre_l @ l # post_l)"
    and dump: "\<forall>y. mergeMultiple Y (pre_l @ l # post_l) = Some y \<longrightarrow> Load Y (Dump Y y) = y"
    and here: "getNode (Some l) (splitPath key) = Some (YScalar s)"
    and later: "list_all (\<lambda>n. \<not> layer_touches n (splitPath key)) post_l"
    and loaded: "loadInternal Y ex svc roots m = (Some kOk, m')"
  shows "\<exists>v. m_snapshot m' = Some v \<and> getString Y v key d = s \<and> has Y v key"
proof -
  have "read_layers Y es = Inr ls" if "list_all2 (\<lambda>e l. LoadFile Y (ce_path e) = Inr l) es ls" for es ls
    using that by (induction rule: list_all2_induct) auto
  from this [OF files(1)] found have read: "read_layers Y (resolveAll ex (resolver_multi svc roots)) = Inr (pre_l @ l # post_l)"
    by simp
  have "\<exists>y. mergeMultiple Y (pre_l @ l # post_l) = Some y"
  proof (cases pre_l)
    case Nil
    then show ?thesis using mergeMultiple_total [OF lib, of l post_l] docs by auto
  next
    case (Cons n ns)
    then show ?thesis using mergeMultiple_total [OF lib, of n "ns @ l # post_l"] docs by auto
  qed
  then obtain y where y: "mergeMultiple Y (pre_l @ l # post_l) = Some y" by blast
  have "getNode (Some y) (splitPath key) = Some (YScalar s)"
    by (rule last_word [OF lib docs y here _ _ later]) (simp_all add: IsMap_def)
  with snapshot_reads [OF read y _ loaded, of key] dump y lib show ?thesis
    by (auto simp: getString_def has_def get_scalar_def string_ok_def IsScalar_def IsNull_def)
qed

text \<open>The root common file is taken from the first root that has one, whatever the later roots hold.\<close>

theorem one_common_file:
  assumes "ex (with_slash root @ ''common.yaml'')"
  shows "\<forall>e \<in> set (resolveAll ex (resolver_multi svc (root # roots))). layer e = ''common'' \<longrightarrow> ce_path e = with_slash root @ ''common.yaml''"
  using assms by (auto simp: resolveAll_def Let_def findCommon_def dest!: root_entries_layer)

text \<open>
  A later layer whose \<open>common:\<close> section is empty erases the section of the layers below, and the load
  fails although the common file is complete.
\<close>

theorem empty_section_fails_load:
  assumes lib: "string_ok Y"
    and read: "read_layers Y (resolveAll ex (resolver_multi svc roots)) = Inr (ls @ [YMap om])" "ls \<noteq> []"
    and docs: "list_all wf_yaml (ls @ [YMap om])"
    and dump: "\<forall>y. mergeMultiple Y (ls @ [YMap om]) = Some y \<longrightarrow> Load Y (Dump Y y) = y"
    and empty: "node_get ''common'' om = Some YNull"
    and common: "ex ''./config/common.yaml''"
  shows "fst (loadInternal Y ex svc roots m) = Some kValidationFailed"
proof -
  obtain n ns where ls: "ls = n # ns" using read(2) by (cases ls) auto
  obtain b where b: "foldl (merge_step Y) (Some (Some n)) ns = Some (Some b)"
    using fold_total [OF lib, of ns n] docs ls by auto
  obtain y where y: "merge Y (Some b) (Some (YMap om)) = Some (Some y)"
    using merge_total [OF lib, of "YMap om" b] docs by auto
  have "getNode (Some y) [''common'', ''log''] = Some YNull"
  proof (cases "\<exists>bm. b = YMap bm")
    case True
    with merge_null_erases [OF lib _ _ empty, of _ y "[''log'']"] y docs show ?thesis by auto
  next
    case False
    with y have "y = YMap om" by (cases b) (auto simp: merge_def IsNull_def)
    with empty show ?thesis by simp
  qed
  moreover have m: "mergeMultiple Y (ls @ [YMap om]) = Some y"
    unfolding ls by (simp add: mergeMultiple_fold b y merge_step_def [of Y "Some _"])
  moreover from m dump have "Load Y (Dump Y y) = y" by blast
  ultimately show ?thesis using read(1) common
    by (cases rule: load_cases [of ex roots Y svc m]) (auto simp: fail_load_def log_rule_validates satisfied_log)
qed

section \<open>Concrete loads\<close>

text \<open>A library over a fixed set of files that remembers one document as its text.\<close>

definition files_lib :: "(string \<times> yaml) list \<Rightarrow> yaml \<Rightarrow> nat yaml_cpp" where
  "files_lib files doc = still\<lparr>Load := \<lambda>s. doc,
     LoadFile := \<lambda>p. case map_of files p of None \<Rightarrow> Inl ''bad file'' | Some y \<Rightarrow> Inr y\<rparr>"

definition yaml_of :: "(string \<times> yaml) list \<Rightarrow> yaml" where
  "yaml_of kvs = YMap (map (\<lambda>(k, v). (YScalar k, v)) kvs)"

definition common_yaml :: yaml where
  "common_yaml = yaml_of [(''common'', yaml_of [(''log'', yaml_of [(''level'', YScalar ''info'')])]),
                          (''network'', yaml_of [(''retry_count'', YScalar ''3'')])]"

definition service_yaml :: yaml where
  "service_yaml = yaml_of [(''network'', yaml_of [(''retry_count'', YScalar ''5'')])]"

definition local_yaml :: yaml where
  "local_yaml = yaml_of [(''common'', yaml_of [(''log'', yaml_of [(''level'', YScalar ''debug'')])])]"

definition both_yaml :: yaml where
  "both_yaml = yaml_of [(''common'', yaml_of [(''log'', yaml_of [(''level'', YScalar ''debug'')])]),
                        (''network'', yaml_of [(''retry_count'', YScalar ''5'')])]"

definition sample_files :: "(string \<times> yaml) list" where
  "sample_files = [(''/etc/tbox/common.yaml'', common_yaml), (''/etc/tbox/conf.d/svc.yaml'', service_yaml),
                   (''./svc.yaml'', local_yaml)]"

definition sample_exists :: "string \<Rightarrow> bool" where
  "sample_exists p = list_ex (\<lambda>f. fst f = p) sample_files"

definition sample_load :: "ConfigError option \<times> manager" where
  "sample_load = loadInternal (files_lib sample_files both_yaml) sample_exists ''svc'' [''/etc/tbox''] manager_new"

definition sample_entry :: "string \<Rightarrow> string \<Rightarrow> ConfigEntry" where
  "sample_entry p l = \<lparr>ce_path = p, layer = l\<rparr>"

lemma string_ok_files_lib [simp]: "string_ok (files_lib files doc)"
  by (simp add: string_ok_def files_lib_def still_def)

lemma sample_entries:
  "resolveAll sample_exists (resolver_multi ''svc'' [''/etc/tbox''])
     = [sample_entry ''/etc/tbox/common.yaml'' ''common''] @ sample_entry ''/etc/tbox/conf.d/svc.yaml'' ''conf.d/svc''
         # [sample_entry ''./svc.yaml'' ''local/svc'']"
  by code_simp

lemma sample_merged: "mergeMultiple (files_lib sample_files both_yaml) ([common_yaml] @ service_yaml # [local_yaml]) = Some both_yaml"
  by code_simp

lemma sample_read:
  "LoadFile (files_lib sample_files both_yaml) ''/etc/tbox/common.yaml'' = Inr common_yaml"
  "LoadFile (files_lib sample_files both_yaml) ''/etc/tbox/conf.d/svc.yaml'' = Inr service_yaml"
  "LoadFile (files_lib sample_files both_yaml) ''./svc.yaml'' = Inr local_yaml"
  by (simp_all add: files_lib_def sample_files_def)

theorem layer_precedence_witness:
  "\<exists>v. m_snapshot (snd sample_load) = Some v
     \<and> getString (files_lib sample_files both_yaml) v ''network.retry_count'' [] = ''5''
     \<and> has (files_lib sample_files both_yaml) v ''network.retry_count''"
proof (rule layer_precedence [where ex = sample_exists and svc = "''svc''" and roots = "[''/etc/tbox'']"
      and m = manager_new and l = service_yaml])
  show "resolveAll sample_exists (resolver_multi ''svc'' [''/etc/tbox''])
     = [sample_entry ''/etc/tbox/common.yaml'' ''common''] @ sample_entry ''/etc/tbox/conf.d/svc.yaml'' ''conf.d/svc''
         # [sample_entry ''./svc.yaml'' ''local/svc'']" by (rule sample_entries)
  show "list_all2 (\<lambda>e l. LoadFile (files_lib sample_files both_yaml) (ce_path e) = Inr l)
     ([sample_entry ''/etc/tbox/common.yaml'' ''common''] @ sample_entry ''/etc/tbox/conf.d/svc.yaml'' ''conf.d/svc''
         # [sample_entry ''./svc.yaml'' ''local/svc'']) ([common_yaml] @ service_yaml # [local_yaml])"
    by (simp add: sample_read sample_entry_def)
  show "list_all wf_yaml ([common_yaml] @ service_yaml # [local_yaml])" by code_simp
  show "\<forall>y. mergeMultiple (files_lib sample_files both_yaml) ([common_yaml] @ service_yaml # [local_yaml]) = Some y \<longrightarrow>
      Load (files_lib sample_files both_yaml) (Dump (files_lib sample_files both_yaml) y) = y"
    unfolding sample_merged by (simp add: files_lib_def)
  show "getNode (Some service_yaml) (splitPath ''network.retry_count'') = Some (YScalar ''5'')" by code_simp
  show "list_all (\<lambda>n. \<not> layer_touches n (splitPath ''network.retry_count'')) [local_yaml]" by code_simp
  show "loadInternal (files_lib sample_files both_yaml) sample_exists ''svc'' [''/etc/tbox''] manager_new = (Some kOk, snd sample_load)"
    unfolding sample_load_def by code_simp
qed simp_all

theorem one_common_file_witness:
  "\<forall>e \<in> set (resolveAll (\<lambda>p. True) (resolver_multi ''svc'' [''/etc/tbox'', ''/opt/tbox''])).
     layer e = ''common'' \<longrightarrow> ce_path e = ''/etc/tbox/common.yaml''"
  using one_common_file [of "\<lambda>p. True" "''/etc/tbox''" "''svc''" "[''/opt/tbox'']"] by (simp add: with_slash_def)

definition commented_out_yaml :: yaml where
  "commented_out_yaml = yaml_of [(''common'', YNull), (''server'', YScalar ''on'')]"

definition commented_files :: "(string \<times> yaml) list" where
  "commented_files = [(''./config/common.yaml'', common_yaml), (''./svc.yaml'', commented_out_yaml)]"

definition commented_merged :: yaml where
  "commented_merged = yaml_of [(''common'', YNull), (''network'', yaml_of [(''retry_count'', YScalar ''3'')]), (''server'', YScalar ''on'')]"

theorem empty_section_fails_load_witness:
  "fst (loadInternal (files_lib commented_files commented_merged) (\<lambda>p. list_ex (\<lambda>f. fst f = p) commented_files)
      ''svc'' [''/etc/tbox''] manager_new) = Some kValidationFailed"
proof (rule empty_section_fails_load [where om = "[(YScalar ''common'', YNull), (YScalar ''server'', YScalar ''on'')]" and ls = "[common_yaml]"])
  show "read_layers (files_lib commented_files commented_merged)
      (resolveAll (\<lambda>p. list_ex (\<lambda>f. fst f = p) commented_files) (resolver_multi ''svc'' [''/etc/tbox'']))
      = Inr ([common_yaml] @ [YMap [(YScalar ''common'', YNull), (YScalar ''server'', YScalar ''on'')]])" by code_simp
  show "list_all wf_yaml ([common_yaml] @ [YMap [(YScalar ''common'', YNull), (YScalar ''server'', YScalar ''on'')]])" by code_simp
  show "list_ex (\<lambda>f. fst f = ''./config/common.yaml'') commented_files" by code_simp
  have "mergeMultiple (files_lib commented_files commented_merged) ([common_yaml] @ [YMap [(YScalar ''common'', YNull), (YScalar ''server'', YScalar ''on'')]])
      = Some commented_merged" by code_simp
  then show "\<forall>y. mergeMultiple (files_lib commented_files commented_merged)
      ([common_yaml] @ [YMap [(YScalar ''common'', YNull), (YScalar ''server'', YScalar ''on'')]]) = Some y \<longrightarrow>
      Load (files_lib commented_files commented_merged) (Dump (files_lib commented_files commented_merged) y) = y"
    by (simp add: files_lib_def)
qed simp_all

text \<open>
  The usage guide's example (section 4.5) puts \<open>log\<close> at the top of \<open>common.yaml\<close>; loading exactly those two
  files fails, whatever library prints and parses them faithfully.
\<close>

definition guide_common :: yaml where
  "guide_common = yaml_of [(''log'', yaml_of [(''level'', YScalar ''info''), (''file'', YScalar ''/var/log/tbox/tbox.log'')]),
                           (''network'', yaml_of [(''timeout'', YScalar ''30.0''), (''retry_count'', YScalar ''3'')])]"

definition guide_service :: yaml where
  "guide_service = yaml_of [(''server'', yaml_of [(''host'', YScalar ''192.168.1.100''), (''port'', YScalar ''8080'')]),
                            (''log'', yaml_of [(''level'', YScalar ''debug'')])]"

definition guide_files :: "(string \<times> yaml) list" where
  "guide_files = [(''/etc/tbox/common.yaml'', guide_common), (''/etc/tbox/conf.d/myservice.yaml'', guide_service)]"

definition guide_merged :: yaml where
  "guide_merged = yaml_of [(''log'', yaml_of [(''level'', YScalar ''debug''), (''file'', YScalar ''/var/log/tbox/tbox.log'')]),
                           (''network'', yaml_of [(''timeout'', YScalar ''30.0''), (''retry_count'', YScalar ''3'')]),
                           (''server'', yaml_of [(''host'', YScalar ''192.168.1.100''), (''port'', YScalar ''8080'')])]"

theorem guide_example_rejected:
  "mergeMultiple (files_lib guide_files guide_merged) [guide_common, guide_service] = Some guide_merged
   \<and> fst (config_load (files_lib guide_files guide_merged) (\<lambda>p. list_ex (\<lambda>f. fst f = p) guide_files)
        ''myservice'' ''/etc/tbox/'' manager_new) = Some kValidationFailed"
  by code_simp

end
