(* ===== verification/Signals.thy ===== *)
theory Signals
  imports Prelude
begin

text \<open>
  The signal sets of an application, their installation, what a delivered signal does, and the wait for a
  shutdown (\<open>src/application.cpp\<close>).  The answers of \<open>sigaction\<close> and the values the flag shows at each look are
  arguments.
\<close>

section \<open>Signals\<close>

definition SIGINT :: int where "SIGINT = 2"
definition SIGABRT :: int where "SIGABRT = 6"
definition SIGKILL :: int where "SIGKILL = 9"
definition SIGSEGV :: int where "SIGSEGV = 11"
definition SIGPIPE :: int where "SIGPIPE = 13"
definition SIGTERM :: int where "SIGTERM = 15"
definition SIGSTOP :: int where "SIGSTOP = 19"

definition gracefulSignals :: "int list" where "gracefulSignals = [SIGINT, SIGTERM]"
definition fatalSignals :: "int list" where "fatalSignals = [SIGSEGV, SIGABRT]"
definition ignoredSignals :: "int list" where "ignoredSignals = [SIGPIPE]"

text \<open>The loop of \<open>checkSet\<close>; the result is the error, empty when the set passes.\<close>

fun checkSet :: "string \<Rightarrow> int list \<Rightarrow> int list \<Rightarrow> string" where
  "checkSet name seen [] = []"
| "checkSet name seen (s # sigs) =
     (if s = SIGKILL \<or> s = SIGSTOP then name @ '' contains SIGKILL/SIGSTOP which cannot be caught''
      else if s < 1 then name @ '' contains invalid signal value''
      else if s \<in> set seen then name @ '' contains duplicate signal '' @ show_int s
      else checkSet name (s # seen) sigs)"

fun checkConflict :: "int list \<Rightarrow> int list \<Rightarrow> string \<times> int list" where
  "checkConflict all [] = ([], all)"
| "checkConflict all (s # sigs) =
     (if s \<in> set all then (''signal '' @ show_int s @ '' appears in multiple sets'', all)
      else checkConflict (s # all) sigs)"

definition validateSignalSets :: "int list \<Rightarrow> int list \<Rightarrow> int list \<Rightarrow> string" where
  "validateSignalSets graceful fatal ignored =
     (let e1 = checkSet ''graceful'' [] graceful in if e1 \<noteq> [] then e1
      else let e2 = checkSet ''fatal'' [] fatal in if e2 \<noteq> [] then e2
      else let e3 = checkSet ''ignored'' [] ignored in if e3 \<noteq> [] then e3
      else let (c1, all1) = checkConflict [] graceful in if c1 \<noteq> [] then c1
      else let (c2, all2) = checkConflict all1 fatal in if c2 \<noteq> [] then c2
      else let (c3, all3) = checkConflict all2 ignored in if c3 \<noteq> [] then c3 else [])"

datatype disposition = Default | Graceful | Fatal | Ignored

text \<open>One of the three loops over \<open>sigaction\<close>; \<open>ok\<close> says for which signals it succeeds.\<close>

fun install :: "(int \<Rightarrow> bool) \<Rightarrow> disposition \<Rightarrow> int list \<Rightarrow> (int \<Rightarrow> disposition) \<Rightarrow> bool \<times> (int \<Rightarrow> disposition)" where
  "install ok d [] tab = (True, tab)"
| "install ok d (s # sigs) tab = (if \<not> ok s then (False, tab) else install ok d sigs (tab(s := d)))"

definition setup_signal_handlers :: "(int \<Rightarrow> bool) \<Rightarrow> int list \<Rightarrow> int list \<Rightarrow> int list \<Rightarrow> (int \<Rightarrow> disposition)
    \<Rightarrow> bool \<times> (int \<Rightarrow> disposition)" where
  "setup_signal_handlers ok graceful fatal ignored tab =
     (if validateSignalSets graceful fatal ignored \<noteq> [] then (False, tab)
      else let (ok1, tab1) = install ok Graceful graceful tab in if \<not> ok1 then (False, tab1)
      else let (ok2, tab2) = install ok Fatal fatal tab1 in if \<not> ok2 then (False, tab2)
      else install ok Ignored ignored tab2)"

text \<open>What the delivery of a signal does to the process: the shutdown flag, or the exit status.\<close>

datatype effect = Continue bool | Exit int | DefaultAction

definition deliver_signal :: "(int \<Rightarrow> disposition) \<Rightarrow> int \<Rightarrow> bool \<Rightarrow> effect" where
  "deliver_signal tab s shutdown_requested =
     (case tab s of
        Graceful \<Rightarrow> Continue True
      | Fatal \<Rightarrow> Exit (128 + s)
      | Ignored \<Rightarrow> Continue shutdown_requested
      | Default \<Rightarrow> DefaultAction)"

section \<open>waitForShutdown\<close>

text \<open>\<open>flag n\<close> is what the n-th look at the flag sees; the result is how many times it slept, None when it
  never returns.\<close>

definition effective_poll :: "int \<Rightarrow> int" where
  "effective_poll poll = (if poll \<le> 0 then 100 else poll)"

partial_function (option) wait_loop :: "(nat \<Rightarrow> bool) \<Rightarrow> nat \<Rightarrow> nat option" where
  "wait_loop flag n = (if \<not> flag n then wait_loop flag (n + 1) else Some n)"

definition waitForShutdown :: "int \<Rightarrow> (nat \<Rightarrow> bool) \<Rightarrow> (nat \<times> int) option" where
  "waitForShutdown poll flag = map_option (\<lambda>n. (n, effective_poll poll)) (wait_loop flag 0)"

section \<open>Signal sets\<close>

lemma checkSet_pass:
  "checkSet name seen sigs = [] \<longleftrightarrow> distinct sigs \<and> set sigs \<inter> set seen = {} \<and> (\<forall>s \<in> set sigs. 1 \<le> s \<and> s \<noteq> SIGKILL \<and> s \<noteq> SIGSTOP)"
  by (induction name seen sigs rule: checkSet.induct) auto

lemma checkConflict_pass:
  "fst (checkConflict all sigs) = [] \<longleftrightarrow> distinct sigs \<and> set sigs \<inter> set all = {}"
  by (induction all sigs rule: checkConflict.induct) auto

lemma checkConflict_all:
  "fst (checkConflict all sigs) = [] \<Longrightarrow> set (snd (checkConflict all sigs)) = set sigs \<union> set all"
  by (induction all sigs rule: checkConflict.induct) auto

definition catchable :: "int \<Rightarrow> bool" where
  "catchable s \<longleftrightarrow> 1 \<le> s \<and> s \<noteq> SIGKILL \<and> s \<noteq> SIGSTOP"

lemma setup_rejected:
  "validateSignalSets graceful fatal ignored \<noteq> [] \<Longrightarrow> setup_signal_handlers ok graceful fatal ignored tab = (False, tab)"
  by (simp add: setup_signal_handlers_def)

lemma signal_sets_pass:
  "validateSignalSets graceful fatal ignored = [] \<longleftrightarrow>
     distinct (graceful @ fatal @ ignored) \<and> (\<forall>s \<in> set (graceful @ fatal @ ignored). catchable s)"
proof -
  obtain c1 a1 where 1: "checkConflict [] graceful = (c1, a1)" by (rule prod.exhaust)
  obtain c2 a2 where 2: "checkConflict a1 fatal = (c2, a2)" by (rule prod.exhaust)
  obtain c3 a3 where 3: "checkConflict a2 ignored = (c3, a3)" by (rule prod.exhaust)
  have p1: "c1 = [] \<longleftrightarrow> distinct graceful" using checkConflict_pass [of "[]" graceful] 1 by simp
  have p2: "c2 = [] \<longleftrightarrow> distinct fatal \<and> set fatal \<inter> set a1 = {}" using checkConflict_pass [of a1 fatal] 2 by simp
  have p3: "c3 = [] \<longleftrightarrow> distinct ignored \<and> set ignored \<inter> set a2 = {}" using checkConflict_pass [of a2 ignored] 3 by simp
  have a1: "c1 = [] \<Longrightarrow> set a1 = set graceful" using checkConflict_all [of "[]" graceful] 1 by simp
  have a2: "c2 = [] \<Longrightarrow> set a2 = set fatal \<union> set a1" using checkConflict_all [of a1 fatal] 2 by simp
  have "validateSignalSets graceful fatal ignored = [] \<longleftrightarrow>
     checkSet ''graceful'' [] graceful = [] \<and> checkSet ''fatal'' [] fatal = [] \<and> checkSet ''ignored'' [] ignored = []
     \<and> c1 = [] \<and> c2 = [] \<and> c3 = []"
    by (simp add: validateSignalSets_def Let_def 1 2 3)
  also have "\<dots> \<longleftrightarrow> distinct graceful \<and> distinct fatal \<and> distinct ignored \<and> set fatal \<inter> set graceful = {}
     \<and> set ignored \<inter> (set fatal \<union> set graceful) = {} \<and> (\<forall>s \<in> set (graceful @ fatal @ ignored). catchable s)"
    by (cases "c1 = []"; cases "c2 = []") (use p1 p2 p3 a1 a2 in \<open>simp_all add: checkSet_pass catchable_def ball_Un\<close>, blast+)
  finally show ?thesis by (simp add: Int_commute Int_Un_distrib2 Int_Un_distrib) blast
qed

lemma install_ok: "fst (install ok d sigs tab) \<longleftrightarrow> (\<forall>s \<in> set sigs. ok s)"
  by (induction sigs arbitrary: tab) simp_all

lemma install_tab: "fst (install ok d sigs tab) \<Longrightarrow> snd (install ok d sigs tab) = (\<lambda>s. if s \<in> set sigs then d else tab s)"
proof (induction sigs arbitrary: tab)
  case (Cons a sigs)
  from Cons.prems have "ok a" "fst (install ok d sigs (tab(a := d)))" by (simp_all split: if_splits)
  with Cons.IH [of "tab(a := d)"] have "snd (install ok d (a # sigs) tab) = (\<lambda>s. if s \<in> set sigs then d else (tab(a := d)) s)"
    by (simp del: fun_upd_apply)
  then show ?case by (simp add: fun_eq_iff)
qed simp

text \<open>The three loops in a row.\<close>

lemma setup_cases:
  obtains (refused) tab' where "setup_signal_handlers ok graceful fatal ignored tab = (False, tab')"
      "validateSignalSets graceful fatal ignored \<noteq> [] \<or> (\<exists>s \<in> set (graceful @ fatal @ ignored). \<not> ok s)"
  | (installed) "validateSignalSets graceful fatal ignored = []" "\<forall>s \<in> set (graceful @ fatal @ ignored). ok s"
      "setup_signal_handlers ok graceful fatal ignored tab
       = (True, \<lambda>s. if s \<in> set ignored then Ignored else if s \<in> set fatal then Fatal else if s \<in> set graceful then Graceful else tab s)"
proof -
  obtain k1 t1 where 1: "install ok Graceful graceful tab = (k1, t1)" by (rule prod.exhaust)
  obtain k2 t2 where 2: "install ok Fatal fatal t1 = (k2, t2)" by (rule prod.exhaust)
  obtain k3 t3 where 3: "install ok Ignored ignored t2 = (k3, t3)" by (rule prod.exhaust)
  note oks = install_ok [of ok Graceful graceful tab, unfolded 1, simplified]
    install_ok [of ok Fatal fatal t1, unfolded 2, simplified] install_ok [of ok Ignored ignored t2, unfolded 3, simplified]
  note tabs = install_tab [of ok Graceful graceful tab, unfolded 1, simplified]
    install_tab [of ok Fatal fatal t1, unfolded 2, simplified] install_tab [of ok Ignored ignored t2, unfolded 3, simplified]
  have run: "setup_signal_handlers ok graceful fatal ignored tab
      = (if validateSignalSets graceful fatal ignored \<noteq> [] then (False, tab)
         else if \<not> k1 then (False, t1) else if \<not> k2 then (False, t2) else (k3, t3))"
    by (simp add: setup_signal_handlers_def 1 2 3)
  show thesis
  proof (cases "validateSignalSets graceful fatal ignored = [] \<and> k1 \<and> k2 \<and> k3")
    case True
    then show thesis using run oks tabs by (intro installed) (auto simp: fun_eq_iff)
  next
    case False
    then show thesis using run oks by (intro refused [of "snd (setup_signal_handlers ok graceful fatal ignored tab)"]) (auto split: if_splits)
  qed
qed

text \<open>C33. 
  Signals are installed exactly when the three sets are disjoint, without repetitions, hold only signals
  that can be caught, and \<open>sigaction\<close> accepts each one.  Then a graceful signal requests the shutdown, a
  fatal one ends the process with 128 plus its number, an ignored one changes nothing, and every other signal
  keeps what it had; a bad set leaves every disposition alone.
\<close>

theorem signals_installed_exactly:
  "case setup_signal_handlers ok graceful fatal ignored tab of (installed, tab') \<Rightarrow>
     (installed \<longleftrightarrow> distinct (graceful @ fatal @ ignored) \<and> (\<forall>s \<in> set (graceful @ fatal @ ignored). catchable s \<and> ok s))
     \<and> (installed \<longrightarrow> (\<forall>s flag. deliver_signal tab' s flag =
          (if s \<in> set graceful then Continue True else if s \<in> set fatal then Exit (128 + s)
           else if s \<in> set ignored then Continue flag else deliver_signal tab s flag)))
     \<and> (validateSignalSets graceful fatal ignored \<noteq> [] \<longrightarrow> tab' = tab)"
proof (rule setup_cases [of ok graceful fatal ignored tab])
  fix tab' assume r: "setup_signal_handlers ok graceful fatal ignored tab = (False, tab')"
    and why: "validateSignalSets graceful fatal ignored \<noteq> [] \<or> (\<exists>s \<in> set (graceful @ fatal @ ignored). \<not> ok s)"
  from why have "\<not> (distinct (graceful @ fatal @ ignored) \<and> (\<forall>s \<in> set (graceful @ fatal @ ignored). catchable s \<and> ok s))"
    unfolding signal_sets_pass by blast
  moreover have "validateSignalSets graceful fatal ignored \<noteq> [] \<Longrightarrow> tab' = tab"
    using r setup_rejected [of graceful fatal ignored ok tab] by simp
  ultimately show ?thesis unfolding r by simp
next
  let ?tab = "\<lambda>s. if s \<in> set ignored then Ignored else if s \<in> set fatal then Fatal else if s \<in> set graceful then Graceful else tab s"
  assume valid: "validateSignalSets graceful fatal ignored = []" and oks: "\<forall>s \<in> set (graceful @ fatal @ ignored). ok s"
    and r: "setup_signal_handlers ok graceful fatal ignored tab = (True, ?tab)"
  have sets: "distinct (graceful @ fatal @ ignored) \<and> (\<forall>s \<in> set (graceful @ fatal @ ignored). catchable s \<and> ok s)"
    using valid oks unfolding signal_sets_pass by blast
  then have disjoint: "set graceful \<inter> set fatal = {}" "set graceful \<inter> set ignored = {}" "set fatal \<inter> set ignored = {}" by auto
  have "deliver_signal ?tab s flag = (if s \<in> set graceful then Continue True else if s \<in> set fatal then Exit (128 + s)
           else if s \<in> set ignored then Continue flag else deliver_signal tab s flag)" for s flag
    using disjoint by (cases "s \<in> set graceful"; cases "s \<in> set fatal"; cases "s \<in> set ignored") (auto simp: deliver_signal_def)
  then show ?thesis using sets valid unfolding r by simp
qed

section \<open>The wait\<close>

lemma wait_loop_now: "flag n \<Longrightarrow> wait_loop flag n = Some n"
  by (subst wait_loop.simps) (rule if_not_P, simp)

lemma wait_loop_later: "\<not> flag n \<Longrightarrow> wait_loop flag n = wait_loop flag (n + 1)"
  by (subst wait_loop.simps) (rule if_P)

lemma wait_loop_stops: "flag k \<Longrightarrow> n \<le> k \<Longrightarrow> \<exists>j. wait_loop flag n = Some j"
proof (induction "k - n" arbitrary: n)
  case 0
  then have "flag n" by (simp add: le_antisym)
  then show ?case by (simp add: wait_loop_now)
next
  case (Suc d)
  then have "\<exists>j. wait_loop flag (n + 1) = Some j" by (intro Suc.hyps(1)) simp_all
  then show ?case by (cases "flag n") (simp_all only: wait_loop_now wait_loop_later option.inject ex_simps simp_thms)
qed

lemma wait_loop_first: "wait_loop flag n = Some j \<Longrightarrow> n \<le> j \<and> flag j \<and> (\<forall>i. n \<le> i \<and> i < j \<longrightarrow> \<not> flag i)"
proof (rule wait_loop.raw_induct [where P = "\<lambda>flag n j. n \<le> j \<and> flag j \<and> (\<forall>i. n \<le> i \<and> i < j \<longrightarrow> \<not> flag i)"])
  fix loop and flag :: "nat \<Rightarrow> bool" and n j :: nat
  assume ih: "\<And>flag n j. loop flag n = Some j \<Longrightarrow> n \<le> j \<and> flag j \<and> (\<forall>i. n \<le> i \<and> i < j \<longrightarrow> \<not> flag i)"
    and run: "(if \<not> flag n then loop flag (n + 1) else Some n) = Some j"
  show "n \<le> j \<and> flag j \<and> (\<forall>i. n \<le> i \<and> i < j \<longrightarrow> \<not> flag i)"
  proof (cases "flag n")
    case False
    then have "n + 1 \<le> j \<and> flag j \<and> (\<forall>i. n + 1 \<le> i \<and> i < j \<longrightarrow> \<not> flag i)"
      by (intro ih) (use run in simp)
    then show ?thesis using False by (metis Suc_eq_plus1 Suc_leD Suc_leI le_neq_implies_less)
  qed (use run in auto)
qed

text \<open>The wait returns exactly when some look at the flag finds it set; it then returns at the first such look,
  having slept once for each look before, with a positive period however the caller chose it.
\<close>

theorem wait_returns_iff_requested:
  "(waitForShutdown poll flag \<noteq> None \<longleftrightarrow> (\<exists>n. flag n))
   \<and> (\<forall>sleeps period. waitForShutdown poll flag = Some (sleeps, period) \<longrightarrow>
        flag sleeps \<and> (\<forall>i < sleeps. \<not> flag i) \<and> 0 < period \<and> (0 < poll \<longrightarrow> period = poll))"
proof -
  have "waitForShutdown poll flag \<noteq> None \<longleftrightarrow> (\<exists>n. flag n)"
    using wait_loop_stops [of flag _ 0] wait_loop_first [of flag 0] by (fastforce simp: waitForShutdown_def)
  then show ?thesis using wait_loop_first [of flag 0] by (auto simp: waitForShutdown_def effective_poll_def)
qed

theorem signals_installed_exactly_witness:
  "case setup_signal_handlers (\<lambda>s. True) gracefulSignals fatalSignals ignoredSignals (\<lambda>s. Default) of (installed, tab') \<Rightarrow>
     installed \<and> deliver_signal tab' SIGTERM False = Continue True \<and> deliver_signal tab' SIGSEGV False = Exit 139
     \<and> deliver_signal tab' SIGPIPE False = Continue False \<and> deliver_signal tab' 10 False = DefaultAction"
proof -
  have defaults: "distinct (gracefulSignals @ fatalSignals @ ignoredSignals)"
      "\<forall>s \<in> set (gracefulSignals @ fatalSignals @ ignoredSignals). catchable s"
    by (simp_all add: gracefulSignals_def fatalSignals_def ignoredSignals_def catchable_def
        SIGINT_def SIGTERM_def SIGSEGV_def SIGABRT_def SIGPIPE_def SIGKILL_def SIGSTOP_def)
  obtain installed tab' where r: "setup_signal_handlers (\<lambda>s. True) gracefulSignals fatalSignals ignoredSignals (\<lambda>s. Default)
      = (installed, tab')" by (rule prod.exhaust)
  have "installed"
    and sent: "\<And>s flag. deliver_signal tab' s flag = (if s \<in> set gracefulSignals then Continue True
       else if s \<in> set fatalSignals then Exit (128 + s) else if s \<in> set ignoredSignals then Continue flag
       else deliver_signal (\<lambda>s. Default) s flag)"
    using signals_installed_exactly [where ok = "\<lambda>s. True" and graceful = gracefulSignals and fatal = fatalSignals
          and ignored = ignoredSignals and tab = "\<lambda>s. Default"] r defaults by simp_all
  then show ?thesis unfolding r
    by (simp add: sent gracefulSignals_def fatalSignals_def ignoredSignals_def deliver_signal_def
        SIGINT_def SIGTERM_def SIGSEGV_def SIGABRT_def SIGPIPE_def)
qed

theorem wait_returns_iff_requested_witness:
  "\<exists>period. waitForShutdown 0 (\<lambda>n. 3 \<le> n) = Some (3, period) \<and> 0 < period"
proof -
  note wait = wait_returns_iff_requested [of 0 "\<lambda>n. 3 \<le> n"]
  have "sleeps = 3 \<and> 0 < period" if r: "waitForShutdown 0 (\<lambda>n. 3 \<le> n) = Some (sleeps, period)" for sleeps period
  proof -
    from wait r have "3 \<le> sleeps" "\<forall>i < sleeps. \<not> 3 \<le> i" "0 < period" by blast+
    moreover from this(2) have "\<not> 3 < sleeps" by blast
    ultimately show ?thesis by simp
  qed
  moreover from wait have "waitForShutdown 0 (\<lambda>n. 3 \<le> n) \<noteq> None" by blast
  ultimately show ?thesis by auto
qed

end
