(* ===== verification/Log_Fields.thy ===== *)
theory Log_Fields
  imports Prelude
begin

text \<open>
  The data of the log framework (\<open>include/log_types.h\<close>, \<open>src/log/log_types.cpp\<close>), the level filter
  (\<open>log_level_filter.cpp\<close>), the redactor (\<open>log_redactor.cpp\<close>) and the enricher (\<open>log_enricher.cpp\<close>).  A
  \<open>double\<close> is a type parameter, since the code only stores and prints it.
\<close>

section \<open>Levels, fields and configuration\<close>

datatype LogError = kOk | kConfigInvalid | kInitFailed | kSinkFailed | kQueueOverflow | kSensitiveViolation

datatype LogLevel = kTrace | kDebug | kInfo | kWarn | kError | kFatal | kOff

fun level_value :: "LogLevel \<Rightarrow> nat" where
  "level_value kTrace = 0"
| "level_value kDebug = 1"
| "level_value kInfo = 2"
| "level_value kWarn = 3"
| "level_value kError = 4"
| "level_value kFatal = 5"
| "level_value kOff = 6"

lemma level_value_inj: "level_value a = level_value b \<Longrightarrow> a = b"
  by (cases a; cases b) auto

text \<open>Levels are compared by their \<open>uint8_t\<close> value.\<close>

instantiation LogLevel :: linorder
begin

definition less_eq_LogLevel :: "LogLevel \<Rightarrow> LogLevel \<Rightarrow> bool" where
  "less_eq_LogLevel a b \<longleftrightarrow> level_value a \<le> level_value b"

definition less_LogLevel :: "LogLevel \<Rightarrow> LogLevel \<Rightarrow> bool" where
  "less_LogLevel a b \<longleftrightarrow> level_value a < level_value b"

instance
  by standard (auto simp: less_eq_LogLevel_def less_LogLevel_def dest: level_value_inj)

end

definition logLevelFromString :: "string \<Rightarrow> LogLevel" where
  "logLevelFromString str =
     (let upper = map toupper str in
      if upper = ''TRACE'' then kTrace
      else if upper = ''DEBUG'' then kDebug
      else if upper = ''INFO'' then kInfo
      else if upper = ''WARN'' then kWarn
      else if upper = ''ERROR'' then kError
      else if upper = ''FATAL'' then kFatal
      else if upper = ''OFF'' then kOff
      else kInfo)"

fun logLevelToString :: "LogLevel \<Rightarrow> string" where
  "logLevelToString kTrace = ''TRACE''"
| "logLevelToString kDebug = ''DEBUG''"
| "logLevelToString kInfo = ''INFO''"
| "logLevelToString kWarn = ''WARN''"
| "logLevelToString kError = ''ERROR''"
| "logLevelToString kFatal = ''FATAL''"
| "logLevelToString kOff = ''OFF''"

datatype Sensitivity = Normal | Identifier | Payload | Secret

text \<open>\<open>FieldValue\<close> is a tagged union; an \<open>int64_t\<close> is a 64-bit word read with \<^const>\<open>sint\<close>.\<close>

datatype 'd FieldValue = makeString string | makeInt "64 word" | makeDouble 'd | makeBool bool

record 'd Field =
  fkey :: string
  fval :: "'d FieldValue"
  fsens :: Sensitivity

definition field :: "string \<Rightarrow> 'd FieldValue \<Rightarrow> 'd Field" where
  "field k v = \<lparr>fkey = k, fval = v, fsens = Normal\<rparr>"

record LogContext =
  trace_id :: string
  request_id :: string
  session_id :: string

record AsyncConfig =
  async_enabled :: bool
  queue_size :: u32
  flush_interval_ms :: u32

record FileConfig =
  file_enabled :: bool
  file_root :: string
  max_file_size_mb :: u32
  max_files :: u32
  total_budget_mb :: u32

record RedactConfig =
  identifiers :: string
  raw_payload_max_bytes :: u32

record LogConfig =
  schema_version :: u32
  cfg_level :: LogLevel
  cfg_strict :: bool
  async_config :: AsyncConfig
  console_enabled :: bool
  file_config :: FileConfig
  redact_config :: RedactConfig
  cfg_format :: string
  module_levels :: "string \<Rightarrow> LogLevel option"

definition default_config :: LogConfig where
  "default_config =
     \<lparr>schema_version = 1, cfg_level = kInfo, cfg_strict = False,
      async_config = \<lparr>async_enabled = True, queue_size = 4096, flush_interval_ms = 1000\<rparr>,
      console_enabled = True,
      file_config = \<lparr>file_enabled = False, file_root = ''/var/log/tbox'', max_file_size_mb = 20, max_files = 5,
                     total_budget_mb = 100\<rparr>,
      redact_config = \<lparr>identifiers = ''mask'', raw_payload_max_bytes = 256\<rparr>,
      cfg_format = ''standard'', module_levels = (\<lambda>m. None)\<rparr>"

section \<open>LevelFilter\<close>

record LevelFilter =
  m_globalLevel :: LogLevel
  m_moduleLevels :: "string \<Rightarrow> LogLevel option"

definition filter_new :: "LogConfig \<Rightarrow> LevelFilter" where
  "filter_new config = \<lparr>m_globalLevel = cfg_level config, m_moduleLevels = module_levels config\<rparr>"

definition shouldLog :: "LevelFilter \<Rightarrow> LogLevel \<Rightarrow> string \<Rightarrow> bool" where
  "shouldLog f lvl mdl =
     (case m_moduleLevels f mdl of Some m \<Rightarrow> lvl \<ge> m | None \<Rightarrow> lvl \<ge> m_globalLevel f)"

definition setGlobalLevel :: "LogLevel \<Rightarrow> LevelFilter \<Rightarrow> LevelFilter" where
  "setGlobalLevel lvl f = f\<lparr>m_globalLevel := lvl\<rparr>"

definition setModuleLevel :: "string \<Rightarrow> LogLevel \<Rightarrow> LevelFilter \<Rightarrow> LevelFilter" where
  "setModuleLevel mdl lvl f = f\<lparr>m_moduleLevels := (m_moduleLevels f)(mdl \<mapsto> lvl)\<rparr>"

section \<open>Redactor\<close>

definition s_secretKeys :: "string list" where
  "s_secretKeys = [''password'', ''passwd'', ''token'', ''secret'', ''private_key'',
                   ''seed'', ''key_material'', ''access_key'', ''secret_key'']"

definition isSecretKey :: "string \<Rightarrow> bool" where
  "isSecretKey k \<longleftrightarrow> map tolower k \<in> set s_secretKeys"

definition maskValue :: "string \<Rightarrow> string" where
  "maskValue v = (if length v \<le> 4 then ''****'' else take 2 v @ ''****'' @ drop (length v - 2) v)"

definition truncatePayload :: "RedactConfig \<Rightarrow> string \<Rightarrow> string" where
  "truncatePayload cfg v =
     (if length v \<le> unat (raw_payload_max_bytes cfg) then v
      else take (unat (raw_payload_max_bytes cfg)) v @ ''...[truncated]'')"

definition hashValue :: "string \<Rightarrow> string" where
  "hashValue v = ''[hash:'' @ show_nat (length v) @ '']''"

definition redact_one :: "RedactConfig \<Rightarrow> 'd Field \<Rightarrow> 'd Field" where
  "redact_one cfg f =
     (let effective = (if isSecretKey (fkey f) then Secret else fsens f) in
      if effective = Secret then field (fkey f @ ''_redacted'') (makeString ''[REDACTED:secret]'')
      else case fval f of
        makeString s \<Rightarrow>
          (case effective of
             Identifier \<Rightarrow>
               if identifiers cfg = ''mask'' then f\<lparr>fval := makeString (maskValue s)\<rparr>
               else if identifiers cfg = ''reject''
                 then field (fkey f @ ''_redacted'') (makeString ''[REDACTED:identifier]'')
               else f\<lparr>fval := makeString (hashValue s)\<rparr>
           | Payload \<Rightarrow> f\<lparr>fval := makeString (truncatePayload cfg s)\<rparr>
           | _ \<Rightarrow> f)
      | _ \<Rightarrow> f)"

definition redact :: "RedactConfig \<Rightarrow> 'd Field list \<Rightarrow> 'd Field list" where
  "redact cfg fs = map (redact_one cfg) fs"

section \<open>Enricher\<close>

text \<open>What the clocks and the kernel answer while one record is enriched; \<open>utc\<close> are the fields of the
  \<open>struct tm\<close> that \<open>gmtime_r\<close> fills (year since 1900, month from 0, day, hour, minute, second).\<close>

record clock =
  utc :: "int \<times> int \<times> int \<times> int \<times> int \<times> int"
  usec :: nat
  epoch_sec :: int
  mono_now_ms :: "64 word"
  current_tid :: "64 word"

record Enricher =
  en_service :: string
  m_startTime :: "64 word"
  m_pid :: "64 word"

text \<open>\<open>printf\<close>'s \<open>%0nd\<close>: padded with zeros to the width, the sign first.\<close>

definition pad_int :: "nat \<Rightarrow> int \<Rightarrow> string" where
  "pad_int n i =
     (if i < 0 then CHR ''-'' # replicate (n - 1 - length (show_nat (nat (- i)))) (CHR ''0'') @ show_nat (nat (- i))
      else replicate (n - length (show_nat (nat i))) (CHR ''0'') @ show_nat (nat i))"

definition getTimestampUTC :: "clock \<Rightarrow> string" where
  "getTimestampUTC c =
     (case utc c of (y, mo, d, h, mi, s) \<Rightarrow>
        take 63 (pad_int 4 (y + 1900) @ ''-'' @ pad_int 2 (mo + 1) @ ''-'' @ pad_int 2 d @ ''T'' @ pad_int 2 h @ '':'' @ pad_int 2 mi
          @ '':'' @ pad_int 2 s @ ''.'' @ pad_int 3 (int (usec c div 1000)) @ ''Z''))"

definition isTimeSynced :: "clock \<Rightarrow> bool" where
  "isTimeSynced c \<longleftrightarrow> epoch_sec c > 1577836800"

definition getMonoMs :: "Enricher \<Rightarrow> clock \<Rightarrow> 64 word" where
  "getMonoMs en c = mono_now_ms c - m_startTime en"

definition context_fields :: "LogContext option \<Rightarrow> 'd Field list" where
  "context_fields ctx =
     (case ctx of
        None \<Rightarrow> []
      | Some x \<Rightarrow>
          (if trace_id x \<noteq> [] then [field ''trace_id'' (makeString (trace_id x))] else [])
        @ (if request_id x \<noteq> [] then [field ''request_id'' (makeString (request_id x))] else [])
        @ (if session_id x \<noteq> [] then [field ''session_id'' (makeString (session_id x))] else []))"

definition enrich :: "Enricher \<Rightarrow> clock \<Rightarrow> 'd Field list \<Rightarrow> LogLevel \<Rightarrow> string \<Rightarrow> string \<Rightarrow> string \<Rightarrow> LogContext option
    \<Rightarrow> 'd Field list" where
  "enrich en c fs lvl mdl ev msg ctx =
     [field ''schema_version'' (makeInt 1),
      field ''timestamp'' (makeString (getTimestampUTC c)),
      field ''time_synced'' (makeBool (isTimeSynced c)),
      field ''mono_ms'' (makeInt (getMonoMs en c)),
      field ''level'' (makeString (logLevelToString lvl)),
      field ''service'' (makeString (en_service en)),
      field ''module'' (makeString mdl),
      field ''event'' (makeString ev),
      field ''message'' (makeString msg),
      field ''pid'' (makeInt (m_pid en)),
      field ''tid'' (makeInt (current_tid c))]
     @ context_fields ctx @ fs"

section \<open>Secrets and identifiers\<close>

definition is_secret :: "'d Field \<Rightarrow> bool" where
  "is_secret f \<longleftrightarrow> isSecretKey (fkey f) \<or> fsens f = Secret"

lemma redact_secret [simp]:
  "is_secret f \<Longrightarrow> redact_one cfg f = field (fkey f @ ''_redacted'') (makeString ''[REDACTED:secret]'')"
  by (auto simp: redact_one_def is_secret_def)

lemma redact_public:
  "\<not> is_secret f \<Longrightarrow> fsens f = Normal \<Longrightarrow> redact_one cfg f = f"
  by (auto simp: redact_one_def is_secret_def split: FieldValue.splits)

text \<open>What masking an identifier keeps of it: whether it is longer than four characters, and then its two
  ends.\<close>

definition mask_view :: "string \<Rightarrow> (string \<times> string) option" where
  "mask_view s = (if length s \<le> 4 then None else Some (take 2 s, drop (length s - 2) s))"

lemma maskValue_view: "mask_view s = mask_view t \<longleftrightarrow> maskValue s = maskValue t"
  by (auto simp: mask_view_def maskValue_def dest: arg_cong [where f = length])

text \<open>The observer's view of a field under a redaction policy: nothing of a secret's value, and of a string
  identifier or payload what the policy lets through.\<close>

definition field_view :: "RedactConfig \<Rightarrow> 'd Field \<Rightarrow> string \<times> Sensitivity \<times> bool \<times> 'd FieldValue option" where
  "field_view cfg f =
     (fkey f, if is_secret f then Secret else fsens f, is_secret f,
      if is_secret f then None
      else case (fval f, fsens f) of
        (makeString s, Identifier) \<Rightarrow>
          if identifiers cfg = ''mask''
            then Some (makeString (case mask_view s of None \<Rightarrow> [] | Some (a, b) \<Rightarrow> a @ b))
          else if identifiers cfg = ''reject'' then Some (makeString [])
          else Some (makeString (show_nat (length s)))
      | (makeString s, Payload) \<Rightarrow>
          Some (if length s \<le> unat (raw_payload_max_bytes cfg) then makeString s
                else makeString (take (unat (raw_payload_max_bytes cfg)) s @ ''...[truncated]''))
      | (v, _) \<Rightarrow> Some v)"

lemma mask_view_join:
  "(case mask_view s of None \<Rightarrow> [] | Some (a, b) \<Rightarrow> a @ b) = (case mask_view t of None \<Rightarrow> [] | Some (a, b) \<Rightarrow> a @ b)
   \<Longrightarrow> maskValue s = maskValue t"
  by (auto simp: mask_view_def maskValue_def split: if_splits dest: arg_cong [where f = length])

lemma redact_one_view:
  assumes "field_view cfg f = field_view cfg g"
  shows "redact_one cfg f = redact_one cfg g"
proof (cases "is_secret f")
  case True
  with assms show ?thesis by (simp add: field_view_def split: if_splits)
next
  case False
  with assms have g: "\<not> is_secret g" "fkey g = fkey f" "fsens g = fsens f" by (auto simp: field_view_def split: if_splits)
  with False have key: "\<not> isSecretKey (fkey f)" "fsens f \<noteq> Secret" by (auto simp: is_secret_def)
  have eq: "f = g" if "fval f = fval g" using that g by (cases f; cases g) auto
  show ?thesis
  proof (cases "fsens f")
    case Identifier
    with assms False g key eq show ?thesis
      by (cases "fval f"; cases "fval g"; cases f; cases g)
        (auto simp: field_view_def redact_one_def Let_def hashValue_def split: if_splits dest: mask_view_join)
  next
    case Payload
    with assms False g key eq show ?thesis
      by (cases "fval f"; cases "fval g"; cases f; cases g)
        (auto simp: field_view_def redact_one_def Let_def truncatePayload_def split: if_splits)
  next
    case Normal
    with assms False g key eq show ?thesis
      by (cases "fval f"; cases "fval g") (auto simp: field_view_def redact_one_def Let_def)
  next
    case Secret
    with key show ?thesis by simp
  qed
qed

lemma redact_views: "map (field_view cfg) fs = map (field_view cfg) gs \<Longrightarrow> redact cfg fs = redact cfg gs"
proof (induction fs arbitrary: gs)
  case (Cons f fs)
  then obtain g gs' where "gs = g # gs'" by (cases gs) auto
  with Cons show ?case by (auto simp: redact_def dest: redact_one_view)
qed (simp add: redact_def)

section \<open>Properties\<close>

text \<open>C7. 
  The redactor's output is a function of the observer's views of the fields: two records that differ only
  in secret values, in the hidden middle of masked identifiers, in rejected identifiers, in equally long
  hashed ones or behind the payload limit give the same lines.
\<close>

theorem redaction_noninterference:
  "map (field_view cfg) fs = map (field_view cfg) gs \<Longrightarrow> redact cfg fs = redact cfg gs"
  by (rule redact_views)

definition token_field :: "string \<Rightarrow> nat Field" where
  "token_field v = \<lparr>fkey = ''Token'', fval = makeString v, fsens = Normal\<rparr>"

definition vin_field :: "string \<Rightarrow> nat Field" where
  "vin_field v = \<lparr>fkey = ''vin'', fval = makeString v, fsens = Identifier\<rparr>"

theorem redaction_noninterference_witness:
  "redact (redact_config default_config) [token_field ''abc'', vin_field ''LSVAA12345'']
   = redact (redact_config default_config) [token_field ''xyz'', vin_field ''LSVBB99945'']"
  by (rule redaction_noninterference) code_simp

text \<open>
  Identifiers and payloads that are not strings pass the redactor unchanged under every policy, the
  rejecting one included: a numeric device number marked as identifier is printed in full.
\<close>

theorem numeric_identifier_unmasked:
  "\<not> isSecretKey k \<Longrightarrow> redact cfg [\<lparr>fkey = k, fval = makeInt n, fsens = Identifier\<rparr>] = [\<lparr>fkey = k, fval = makeInt n, fsens = Identifier\<rparr>]"
  by (simp add: redact_def redact_one_def)

theorem numeric_identifier_unmasked_witness:
  "redact \<lparr>identifiers = ''reject'', raw_payload_max_bytes = 0\<rparr> [\<lparr>fkey = ''device_sn'', fval = makeInt 4711, fsens = Identifier\<rparr>]
   = [\<lparr>fkey = ''device_sn'', fval = makeInt 4711, fsens = Identifier\<rparr>]"
  by (rule numeric_identifier_unmasked) code_simp

definition all_levels :: "LogLevel list" where
  "all_levels = [kTrace, kDebug, kInfo, kWarn, kError, kFatal, kOff]"

lemma level_names: "list_all (\<lambda>l. logLevelFromString (map tolower (logLevelToString l)) = l) all_levels"
  by code_simp

lemma all_levels [simp]: "l \<in> set all_levels"
  by (cases l) (simp_all add: all_levels_def)

text \<open>
  The names of the levels survive the configuration: reading the printed name, in whatever case, gives the
  level back, and every other text reads as \<open>INFO\<close>.
\<close>

theorem level_name_roundtrip:
  "logLevelFromString str = (case List.find (\<lambda>l. map toupper str = logLevelToString l) all_levels
     of Some l \<Rightarrow> l | None \<Rightarrow> kInfo)
   \<and> logLevelFromString (map tolower (logLevelToString l)) = l"
proof
  show "logLevelFromString (map tolower (logLevelToString l)) = l" using level_names by (simp add: list_all_iff)
qed (simp add: logLevelFromString_def Let_def all_levels_def)

text \<open>
  Raising a level never lets more through, and a module's own level decides for that module alone.
\<close>

theorem level_filter_monotone:
  "(shouldLog f lvl mdl \<and> lvl \<le> lvl' \<longrightarrow> shouldLog f lvl' mdl)
   \<and> (shouldLog (setModuleLevel m l f) lvl mdl \<longleftrightarrow> (if mdl = m then lvl \<ge> l else shouldLog f lvl mdl))
   \<and> (shouldLog (setGlobalLevel l f) lvl mdl
        \<longleftrightarrow> (if m_moduleLevels f mdl = None then lvl \<ge> l else shouldLog f lvl mdl))"
  by (auto simp: shouldLog_def setModuleLevel_def setGlobalLevel_def split: option.splits)

end
