(* ===== verification/Log_Config.thy ===== *)
theory Log_Config
  imports Log_Fields Config_Tree
begin

text \<open>
  \<open>LogConfigAdapter\<close> (\<open>src/log/log_config_adapter.cpp\<close>): reading \<open>common.log\<close> and the service's \<open>log\<close> section
  of two YAML texts into a \<open>LogConfig\<close>, with defaults, and its validation.  An exception of the library is
  the left side of a sum.
\<close>

section \<open>Reading\<close>

record LogErrorInfo =
  le_code :: LogError
  le_message :: string
  le_detail :: string

text \<open>\<open>node[k]\<close> on a mutable node: a scalar throws; a missing key gives the undefined node, and so does a node
  that is not a mapping.\<close>

definition subscript :: "'d yaml_cpp \<Rightarrow> yaml \<Rightarrow> string \<Rightarrow> string + yaml option" where
  "subscript Y node k =
     (case node of
        YScalar _ \<Rightarrow> Inl (what_of Y node)
      | YMap m \<Rightarrow> Inr (node_get k m)
      | _ \<Rightarrow> Inr None)"

text \<open>\<open>if (node[k]) ...\<close>\<close>

definition on_key :: "'d yaml_cpp \<Rightarrow> yaml \<Rightarrow> string \<Rightarrow> (yaml \<Rightarrow> 'c \<Rightarrow> string + 'c) \<Rightarrow> 'c \<Rightarrow> string + 'c" where
  "on_key Y node k body cfg =
     (case subscript Y node k of
        Inl e \<Rightarrow> Inl e
      | Inr None \<Rightarrow> Inr cfg
      | Inr (Some v) \<Rightarrow> body v cfg)"

definition set_to :: "(yaml \<Rightarrow> 'c \<Rightarrow> 'c) \<Rightarrow> yaml \<Rightarrow> 'c \<Rightarrow> string + 'c" where
  "set_to f v cfg = Inr (f v cfg)"

fun in_turn :: "('c \<Rightarrow> string + 'c) list \<Rightarrow> 'c \<Rightarrow> string + 'c" where
  "in_turn [] cfg = Inr cfg"
| "in_turn (f # fs) cfg = (case f cfg of Inl e \<Rightarrow> Inl e | Inr cfg' \<Rightarrow> in_turn fs cfg')"

text \<open>\<open>as<T>(fallback)\<close>.\<close>

definition or_else :: "'a option \<Rightarrow> 'a \<Rightarrow> 'a" where
  "or_else x fallback = (case x of None \<Rightarrow> fallback | Some v \<Rightarrow> v)"

definition parseLevel :: "string \<Rightarrow> LogLevel" where
  "parseLevel str = logLevelFromString str"

definition upd_async :: "(AsyncConfig \<Rightarrow> AsyncConfig) \<Rightarrow> LogConfig \<Rightarrow> LogConfig" where
  "upd_async f cfg = cfg\<lparr>async_config := f (async_config cfg)\<rparr>"

definition upd_file :: "(FileConfig \<Rightarrow> FileConfig) \<Rightarrow> LogConfig \<Rightarrow> LogConfig" where
  "upd_file f cfg = cfg\<lparr>file_config := f (file_config cfg)\<rparr>"

definition upd_redact :: "(RedactConfig \<Rightarrow> RedactConfig) \<Rightarrow> LogConfig \<Rightarrow> LogConfig" where
  "upd_redact f cfg = cfg\<lparr>redact_config := f (redact_config cfg)\<rparr>"

definition read_async :: "'d yaml_cpp \<Rightarrow> yaml \<Rightarrow> LogConfig \<Rightarrow> string + LogConfig" where
  "read_async Y node = in_turn
     [on_key Y node ''enabled'' (set_to (\<lambda>v. upd_async (\<lambda>c. c\<lparr>async_enabled := or_else (as_bool Y v) True\<rparr>))),
      on_key Y node ''queue_size'' (set_to (\<lambda>v. upd_async (\<lambda>c. c\<lparr>queue_size := or_else (as_uint32 Y v) 4096\<rparr>))),
      on_key Y node ''flush_interval_ms'' (set_to (\<lambda>v. upd_async (\<lambda>c. c\<lparr>flush_interval_ms := or_else (as_uint32 Y v) 1000\<rparr>)))]"

definition read_file :: "'d yaml_cpp \<Rightarrow> yaml \<Rightarrow> LogConfig \<Rightarrow> string + LogConfig" where
  "read_file Y node = in_turn
     [on_key Y node ''enabled'' (set_to (\<lambda>v. upd_file (\<lambda>c. c\<lparr>file_enabled := or_else (as_bool Y v) False\<rparr>))),
      on_key Y node ''root'' (set_to (\<lambda>v. upd_file (\<lambda>c. c\<lparr>file_root := or_else (as_string Y v) ''/var/log/tbox''\<rparr>))),
      on_key Y node ''max_file_size_mb'' (set_to (\<lambda>v. upd_file (\<lambda>c. c\<lparr>max_file_size_mb := or_else (as_uint32 Y v) 20\<rparr>))),
      on_key Y node ''max_files'' (set_to (\<lambda>v. upd_file (\<lambda>c. c\<lparr>max_files := or_else (as_uint32 Y v) 5\<rparr>))),
      on_key Y node ''total_budget_mb'' (set_to (\<lambda>v. upd_file (\<lambda>c. c\<lparr>total_budget_mb := or_else (as_uint32 Y v) 100\<rparr>)))]"

definition read_redact :: "'d yaml_cpp \<Rightarrow> yaml \<Rightarrow> LogConfig \<Rightarrow> string + LogConfig" where
  "read_redact Y node = in_turn
     [on_key Y node ''identifiers'' (set_to (\<lambda>v. upd_redact (\<lambda>c. c\<lparr>identifiers := or_else (as_string Y v) ''mask''\<rparr>))),
      on_key Y node ''raw_payload_max_bytes''
        (set_to (\<lambda>v. upd_redact (\<lambda>c. c\<lparr>raw_payload_max_bytes := or_else (as_uint32 Y v) 256\<rparr>)))]"

definition read_log :: "'d yaml_cpp \<Rightarrow> yaml \<Rightarrow> LogConfig \<Rightarrow> string + LogConfig" where
  "read_log Y logNode = in_turn
     [on_key Y logNode ''schema_version'' (set_to (\<lambda>v cfg. cfg\<lparr>schema_version := or_else (as_uint32 Y v) 1\<rparr>)),
      on_key Y logNode ''level'' (set_to (\<lambda>v cfg. cfg\<lparr>cfg_level := parseLevel (or_else (as_string Y v) ''INFO'')\<rparr>)),
      on_key Y logNode ''strict'' (set_to (\<lambda>v cfg. cfg\<lparr>cfg_strict := or_else (as_bool Y v) False\<rparr>)),
      on_key Y logNode ''async'' (read_async Y),
      on_key Y logNode ''console''
        (\<lambda>node. on_key Y node ''enabled'' (set_to (\<lambda>v cfg. cfg\<lparr>console_enabled := or_else (as_bool Y v) True\<rparr>))),
      on_key Y logNode ''file'' (read_file Y),
      on_key Y logNode ''redact'' (read_redact Y),
      on_key Y logNode ''format'' (set_to (\<lambda>v cfg. cfg\<lparr>cfg_format := or_else (as_string Y v) ''standard''\<rparr>))]"

fun read_modules :: "'d yaml_cpp \<Rightarrow> (yaml \<times> yaml) list \<Rightarrow> LogConfig \<Rightarrow> string + LogConfig" where
  "read_modules Y [] cfg = Inr cfg"
| "read_modules Y ((k, v) # r) cfg =
     (case as_string Y k of
        None \<Rightarrow> Inl (what_of Y k)
      | Some moduleName \<Rightarrow>
          read_modules Y r (cfg\<lparr>module_levels := (module_levels cfg)(moduleName \<mapsto> parseLevel (or_else (as_string Y v) ''INFO''))\<rparr>))"

definition iterate_modules :: "'d yaml_cpp \<Rightarrow> yaml \<Rightarrow> LogConfig \<Rightarrow> string + LogConfig" where
  "iterate_modules Y modules cfg =
     (case modules of
        YMap m \<Rightarrow> read_modules Y m cfg
      | YSeq (y # ys) \<Rightarrow> Inl (what_of Y y)
      | _ \<Rightarrow> Inr cfg)"

definition read_service :: "'d yaml_cpp \<Rightarrow> yaml \<Rightarrow> LogConfig \<Rightarrow> string + LogConfig" where
  "read_service Y svcLog = in_turn
     [on_key Y svcLog ''level'' (set_to (\<lambda>v cfg. cfg\<lparr>cfg_level := parseLevel (or_else (as_string Y v) ''INFO'')\<rparr>)),
      on_key Y svcLog ''format'' (set_to (\<lambda>v cfg. cfg\<lparr>cfg_format := or_else (as_string Y v) ''standard''\<rparr>)),
      on_key Y svcLog ''modules'' (iterate_modules Y)]"

section \<open>Validation\<close>

definition no_log_error :: LogErrorInfo where
  "no_log_error = \<lparr>le_code = LogError.kOk, le_message = [], le_detail = []\<rparr>"

definition invalid :: "string \<Rightarrow> LogErrorInfo" where
  "invalid msg = \<lparr>le_code = kConfigInvalid, le_message = msg, le_detail = []\<rparr>"

definition totalNeeded :: "FileConfig \<Rightarrow> u64" where
  "totalNeeded f = ucast (max_file_size_mb f) * ucast (max_files f)"

definition log_validate :: "LogConfig \<Rightarrow> LogErrorInfo" where
  "log_validate config =
     (let f = file_config config in
      if schema_version config \<noteq> 1
        then invalid (''schema_version must be 1, got '' @ show_nat (unat (schema_version config)))
      else if cfg_format config \<noteq> ''standard'' \<and> cfg_format config \<noteq> ''json''
        then invalid (''format must be 'standard' or 'json', got '' @ [CHR 0x27] @ cfg_format config @ [CHR 0x27])
      else if queue_size (async_config config) = 0 then invalid ''async.queue_size must be positive''
      else if file_enabled f \<and> file_root f = [] then invalid ''file.root is required when file sink is enabled''
      else if file_enabled f \<and> totalNeeded f > ucast (total_budget_mb f)
        then invalid (''max_file_size_mb '' @ [CHR 0xC3, CHR 0x97] @ '' max_files ('' @ show_nat (unat (totalNeeded f))
               @ '') exceeds total_budget_mb ('' @ show_nat (unat (total_budget_mb f)) @ '')'')
      else no_log_error)"

section \<open>Loading\<close>

definition load_texts :: "'d yaml_cpp \<Rightarrow> string \<Rightarrow> string \<Rightarrow> string + LogConfig" where
  "load_texts Y commonYaml serviceYaml =
     (case parse Y commonYaml of
        Inl e \<Rightarrow> Inl e
      | Inr common \<Rightarrow>
          (case (if serviceYaml = [] then Inr YNull else parse Y serviceYaml) of
             Inl e \<Rightarrow> Inl e
           | Inr service \<Rightarrow>
               in_turn
                 [on_key Y common ''common'' (\<lambda>c. on_key Y c ''log'' (read_log Y)),
                  on_key Y service ''log'' (read_service Y)]
                 default_config))"

definition loadFromYamlString :: "'d yaml_cpp \<Rightarrow> string \<Rightarrow> string \<Rightarrow> LogConfig \<times> LogErrorInfo" where
  "loadFromYamlString Y commonYaml serviceYaml =
     (case load_texts Y commonYaml serviceYaml of
        Inl what \<Rightarrow> (default_config, invalid (''YAML parse error: '' @ what))
      | Inr config \<Rightarrow>
          (let validationError = log_validate config in
           if le_code validationError \<noteq> LogError.kOk then (default_config, validationError)
           else (config, no_log_error)))"

definition loadFromYaml :: "'d yaml_cpp \<Rightarrow> string \<Rightarrow> string \<Rightarrow> LogConfig \<times> LogErrorInfo" where
  "loadFromYaml Y commonConfigPath serviceConfigPath =
     (case LoadFile Y commonConfigPath of
        Inl what \<Rightarrow> (default_config, \<lparr>le_code = kConfigInvalid, le_message = ''Failed to parse YAML: '' @ what,
                                     le_detail = commonConfigPath\<rparr>)
      | Inr common \<Rightarrow>
          (let service = (if serviceConfigPath \<noteq> []
                          then (case LoadFile Y serviceConfigPath of Inl _ \<Rightarrow> YNull | Inr s \<Rightarrow> s) else YNull)
           in loadFromYamlString Y (Dump Y common) (if serviceConfigPath = [] then [] else Dump Y service)))"

section \<open>Properties\<close>

lemma default_valid: "log_validate default_config = no_log_error"
  by (simp add: log_validate_def default_config_def)

lemma no_error_code: "le_code no_log_error = LogError.kOk"
  by (simp add: no_log_error_def)

lemma invalid_code: "le_code (invalid msg) = kConfigInvalid"
  by (simp add: invalid_def)

lemma default_code: "le_code (log_validate default_config) = LogError.kOk"
  by (simp add: default_valid no_error_code)

lemma validate_codes: "le_code (log_validate c) = LogError.kOk \<or> le_code (log_validate c) = kConfigInvalid"
  by (simp add: log_validate_def Let_def invalid_def no_log_error_def)

lemma u32_less: "unat (w :: u32) < 2 ^ 32"
  using unsigned_less [of w] by simp

lemma unat_u64_of_u32: "unat (ucast (w :: u32) :: u64) = unat w"
  using u32_less [of w] by (simp add: unsigned_ucast_eq take_bit_nat_eq_self_iff)

lemma totalNeeded_exact: "unat (totalNeeded f) = unat (max_file_size_mb f) * unat (max_files f)"
proof -
  have "unat (max_file_size_mb f) * unat (max_files f) < 2 ^ 32 * 2 ^ 32"
    by (rule mult_strict_mono) (use u32_less in simp_all)
  then have "unat (max_file_size_mb f) * unat (max_files f) < 2 ^ 64" by simp
  then show ?thesis
    unfolding totalNeeded_def by (simp add: unat_word_ariths unat_u64_of_u32)
qed

text \<open>C37. 
  Whatever the texts hold, the configuration handed back is valid: with an error it is the default one, and
  an accepted one names a known format, has room in its queue, and its files fit the budget, computed
  without wrap-around.
\<close>

theorem loaded_log_config_valid:
  "case loadFromYamlString Y commonYaml serviceYaml of (cfg, err) \<Rightarrow>
     le_code (log_validate cfg) = LogError.kOk \<and> (le_code err \<noteq> LogError.kOk \<longrightarrow> cfg = default_config \<and> le_code err = kConfigInvalid)
     \<and> (cfg_format cfg = ''standard'' \<or> cfg_format cfg = ''json'') \<and> queue_size (async_config cfg) \<noteq> 0
     \<and> (file_enabled (file_config cfg) \<longrightarrow>
          file_root (file_config cfg) \<noteq> [] \<and>
          unat (max_file_size_mb (file_config cfg)) * unat (max_files (file_config cfg)) \<le> unat (total_budget_mb (file_config cfg)))"
proof -
  have valid: "(cfg_format c = ''standard'' \<or> cfg_format c = ''json'') \<and> queue_size (async_config c) \<noteq> 0
     \<and> (file_enabled (file_config c) \<longrightarrow> file_root (file_config c) \<noteq> [] \<and>
          unat (max_file_size_mb (file_config c)) * unat (max_files (file_config c)) \<le> unat (total_budget_mb (file_config c)))"
    if "le_code (log_validate c) = LogError.kOk" for c
  proof -
    have "totalNeeded (file_config c) \<le> ucast (total_budget_mb (file_config c))"
      if "file_enabled (file_config c)" using that \<open>le_code (log_validate c) = LogError.kOk\<close>
      by (auto simp: log_validate_def Let_def invalid_def split: if_splits)
    then have "file_enabled (file_config c) \<Longrightarrow> unat (totalNeeded (file_config c)) \<le> unat (total_budget_mb (file_config c))"
      by (simp add: word_le_nat_alt unat_u64_of_u32)
    with that show ?thesis
      by (auto simp: log_validate_def Let_def invalid_def totalNeeded_exact split: if_splits)
  qed
  obtain cfg err where r: "loadFromYamlString Y commonYaml serviceYaml = (cfg, err)" by (rule prod.exhaust)
  have "le_code (log_validate cfg) = LogError.kOk \<and> (le_code err \<noteq> LogError.kOk \<longrightarrow> cfg = default_config \<and> le_code err = kConfigInvalid)"
    using r validate_codes default_code
    by (auto simp: loadFromYamlString_def Let_def no_error_code invalid_code split: sum.splits if_splits)
  with r valid show ?thesis by auto
qed

text \<open>The level an accepted pair of documents yields: the service's \<open>log.level\<close>, else \<open>common.log.level\<close>.\<close>

lemma in_turn_level:
  assumes "\<forall>f \<in> set fs. \<forall>c c'. f c = Inr c' \<longrightarrow> cfg_level c' = cfg_level c"
  shows "in_turn fs c = Inr c' \<Longrightarrow> cfg_level c' = cfg_level c"
  using assms by (induction fs c rule: in_turn.induct) (auto split: sum.splits)

lemma on_key_level:
  "(\<And>v c c'. body v c = Inr c' \<Longrightarrow> cfg_level c' = cfg_level c) \<Longrightarrow> on_key Y node k body c = Inr c' \<Longrightarrow> cfg_level c' = cfg_level c"
  by (auto simp: on_key_def split: sum.splits option.splits)

lemma read_modules_level: "read_modules Y m c = Inr c' \<Longrightarrow> cfg_level c' = cfg_level c"
  by (induction Y m c rule: read_modules.induct) (auto split: option.splits)

lemma iterate_modules_level: "iterate_modules Y y c = Inr c' \<Longrightarrow> cfg_level c' = cfg_level c"
  by (auto simp: iterate_modules_def dest: read_modules_level split: yaml.splits list.splits)

lemma in_turn_append: "in_turn (fs @ gs) c = (case in_turn fs c of Inl e \<Rightarrow> Inl e | Inr c' \<Rightarrow> in_turn gs c')"
  by (induction fs c rule: in_turn.induct) (auto split: sum.splits)

definition level_at :: "'d yaml_cpp \<Rightarrow> yaml \<Rightarrow> LogLevel option" where
  "level_at Y node =
     (case node of YMap m \<Rightarrow> map_option (\<lambda>v. parseLevel (or_else (as_string Y v) ''INFO'')) (node_get ''level'' m) | _ \<Rightarrow> None)"

lemma set_level:
  "on_key Y node ''level'' (set_to (\<lambda>v cfg. cfg\<lparr>cfg_level := parseLevel (or_else (as_string Y v) ''INFO'')\<rparr>)) c = Inr c'
   \<Longrightarrow> cfg_level c' = or_else (level_at Y node) (cfg_level c)"
  by (auto simp: on_key_def subscript_def set_to_def level_at_def or_else_def split: yaml.splits option.splits)

lemma read_service_level:
  assumes "read_service Y node c = Inr c'"
  shows "cfg_level c' = or_else (level_at Y node) (cfg_level c)"
proof -
  from assms obtain c1 where c1: "on_key Y node ''level'' (set_to (\<lambda>v cfg. cfg\<lparr>cfg_level := parseLevel (or_else (as_string Y v) ''INFO'')\<rparr>)) c = Inr c1"
    and rest: "in_turn [on_key Y node ''format'' (set_to (\<lambda>v cfg. cfg\<lparr>cfg_format := or_else (as_string Y v) ''standard''\<rparr>)),
      on_key Y node ''modules'' (iterate_modules Y)] c1 = Inr c'"
    by (auto simp: read_service_def split: sum.splits)
  have "cfg_level c' = cfg_level c1"
    by (rule in_turn_level [OF _ rest])
      (auto dest!: on_key_level [rotated] simp: set_to_def iterate_modules_level)
  with set_level [OF c1] show ?thesis by simp
qed

lemma read_async_level: "read_async Y node c = Inr c' \<Longrightarrow> cfg_level c' = cfg_level c"
  unfolding read_async_def
  by (erule in_turn_level [rotated]) (auto dest!: on_key_level [rotated] simp: set_to_def upd_async_def)

lemma read_file_level: "read_file Y node c = Inr c' \<Longrightarrow> cfg_level c' = cfg_level c"
  unfolding read_file_def
  by (erule in_turn_level [rotated]) (auto dest!: on_key_level [rotated] simp: set_to_def upd_file_def)

lemma read_redact_level: "read_redact Y node c = Inr c' \<Longrightarrow> cfg_level c' = cfg_level c"
  unfolding read_redact_def
  by (erule in_turn_level [rotated]) (auto dest!: on_key_level [rotated] simp: set_to_def upd_redact_def)

lemma read_console_level:
  "on_key Y node ''enabled'' (set_to (\<lambda>v cfg. cfg\<lparr>console_enabled := or_else (as_bool Y v) True\<rparr>)) c = Inr c' \<Longrightarrow> cfg_level c' = cfg_level c"
  by (erule on_key_level [rotated]) (auto simp: set_to_def)

lemma read_log_level:
  assumes "read_log Y node c = Inr c'"
  shows "cfg_level c' = or_else (level_at Y node) (cfg_level c)"
proof -
  from assms obtain c1 c2 where c1: "on_key Y node ''schema_version'' (set_to (\<lambda>v cfg. cfg\<lparr>schema_version := or_else (as_uint32 Y v) 1\<rparr>)) c = Inr c1"
    and c2: "on_key Y node ''level'' (set_to (\<lambda>v cfg. cfg\<lparr>cfg_level := parseLevel (or_else (as_string Y v) ''INFO'')\<rparr>)) c1 = Inr c2"
    and rest: "in_turn
     [on_key Y node ''strict'' (set_to (\<lambda>v cfg. cfg\<lparr>cfg_strict := or_else (as_bool Y v) False\<rparr>)),
      on_key Y node ''async'' (read_async Y),
      on_key Y node ''console''
        (\<lambda>node. on_key Y node ''enabled'' (set_to (\<lambda>v cfg. cfg\<lparr>console_enabled := or_else (as_bool Y v) True\<rparr>))),
      on_key Y node ''file'' (read_file Y),
      on_key Y node ''redact'' (read_redact Y),
      on_key Y node ''format'' (set_to (\<lambda>v cfg. cfg\<lparr>cfg_format := or_else (as_string Y v) ''standard''\<rparr>))] c2 = Inr c'"
    unfolding read_log_def by (auto simp del: in_turn.simps(1) split: sum.splits simp: in_turn.simps(2) [of "on_key Y node ''schema_version'' _"] in_turn.simps(2) [of "on_key Y node ''level'' _"])
  have "cfg_level c1 = cfg_level c" using c1 by (auto dest!: on_key_level [rotated] simp: set_to_def)
  moreover have "cfg_level c' = cfg_level c2"
    by (rule in_turn_level [OF _ rest])
      (auto dest!: on_key_level [rotated] simp: set_to_def read_async_level read_file_level read_redact_level read_console_level)
  ultimately show ?thesis using set_level [OF c2] by simp
qed

definition log_level_of :: "'d yaml_cpp \<Rightarrow> yaml \<Rightarrow> string list \<Rightarrow> LogLevel option" where
  "log_level_of Y doc p = (case getNode (Some doc) p of Some n \<Rightarrow> level_at Y n | None \<Rightarrow> None)"

lemma on_key_cases:
  "on_key Y node k body c = Inr c' \<Longrightarrow>
     (case node of YMap m \<Rightarrow> (case node_get k m of Some v \<Rightarrow> body v c = Inr c' | None \<Rightarrow> c' = c) | YScalar s \<Rightarrow> False | _ \<Rightarrow> c' = c)"
  by (auto simp: on_key_def subscript_def split: yaml.splits option.splits)

text \<open>
  The effective level of an accepted configuration is the one of the service's \<open>log.level\<close> when it has one,
  else the one of \<open>common.log.level\<close>, else \<open>INFO\<close>, whatever else the documents hold.
\<close>

theorem service_level_decides:
  assumes "parse Y commonYaml = Inr common" "serviceYaml \<noteq> []" "parse Y serviceYaml = Inr service"
    and "le_code (snd (loadFromYamlString Y commonYaml serviceYaml)) = LogError.kOk"
  shows "cfg_level (fst (loadFromYamlString Y commonYaml serviceYaml))
      = or_else (log_level_of Y service [''log'']) (or_else (log_level_of Y common [''common'', ''log'']) kInfo)"
proof -
  from assms(4) obtain cfg where cfg: "load_texts Y commonYaml serviceYaml = Inr cfg" "fst (loadFromYamlString Y commonYaml serviceYaml) = cfg"
    by (auto simp: loadFromYamlString_def Let_def invalid_code split: sum.splits if_splits)
  from cfg(1) assms(1-3) obtain c1 where c1: "on_key Y common ''common'' (\<lambda>c. on_key Y c ''log'' (read_log Y)) default_config = Inr c1"
    and c2: "on_key Y service ''log'' (read_service Y) c1 = Inr cfg"
    by (auto simp: load_texts_def split: sum.splits)
  have "cfg_level c1 = or_else (log_level_of Y common [''common'', ''log'']) (cfg_level default_config)"
    using on_key_cases [OF c1]
    by (auto simp: log_level_of_def or_else_def level_at_def split: yaml.splits option.splits dest!: on_key_cases read_log_level)
  moreover have "cfg_level cfg = or_else (log_level_of Y service [''log'']) (cfg_level c1)"
    using on_key_cases [OF c2]
    by (auto simp: log_level_of_def or_else_def level_at_def split: yaml.splits option.splits dest!: read_service_level)
  ultimately show ?thesis using cfg(2) by (simp add: default_config_def)
qed

definition doc_of :: "(string \<times> yaml) list \<Rightarrow> yaml" where
  "doc_of kvs = YMap (map (\<lambda>(k, v). (YScalar k, v)) kvs)"

definition two_texts :: "nat yaml_cpp" where
  "two_texts = still\<lparr>parse := \<lambda>s. if s = ''common''
       then Inr (doc_of [(''common'', doc_of [(''log'', doc_of [(''level'', YScalar ''warn'')])])])
       else Inr (doc_of [(''log'', doc_of [(''level'', YScalar ''debug''), (''modules'', doc_of [(''net'', YScalar ''off'')])])])\<rparr>"

theorem service_level_decides_witness:
  "cfg_level (fst (loadFromYamlString two_texts ''common'' ''service'')) = kDebug"
proof -
  have "cfg_level (fst (loadFromYamlString two_texts ''common'' ''service''))
      = or_else (log_level_of two_texts (doc_of [(''log'', doc_of [(''level'', YScalar ''debug''), (''modules'', doc_of [(''net'', YScalar ''off'')])])]) [''log''])
          (or_else (log_level_of two_texts (doc_of [(''common'', doc_of [(''log'', doc_of [(''level'', YScalar ''warn'')])])]) [''common'', ''log'']) kInfo)"
    by (rule service_level_decides) (simp_all add: two_texts_def, code_simp)
  then show ?thesis
    by (simp add: log_level_of_def level_at_def doc_of_def or_else_def two_texts_def still_def parseLevel_def logLevelFromString_def
        toupper_def islower_def code_of_def char_of_def bit_0 Let_def)
qed

definition file_texts :: "nat yaml_cpp" where
  "file_texts = still\<lparr>as_bool := \<lambda>v. Some True, parse := \<lambda>s.
       Inr (doc_of [(''common'', doc_of [(''log'', doc_of [(''file'', doc_of [(''enabled'', YScalar ''true'')])])])])\<rparr>"

theorem loaded_log_config_valid_witness:
  "let f = file_config (fst (loadFromYamlString file_texts ''common'' [])) in
     file_enabled f \<and> unat (max_file_size_mb f) * unat (max_files f) \<le> unat (total_budget_mb f)"
proof -
  have "file_enabled (file_config (fst (loadFromYamlString file_texts ''common'' [])))" by code_simp
  with loaded_log_config_valid [of file_texts "''common''" "[]"] show ?thesis by (auto simp: Let_def split: prod.splits)
qed

end
