(* ===== verification/Log_Format.thy ===== *)
theory Log_Format
  imports Log_Fields
begin

text \<open>
  The two line formats: \<open>JsonLineFormatter\<close> (\<open>src/log/log_json_formatter.cpp\<close>) and \<open>StandardFormatter\<close>
  (\<open>src/log/log_standard_formatter.cpp\<close>).  Printing a double (\<open>%g\<close>, which is also what \<open>operator<<\<close>
  prints by default) and the conversion to local time are arguments.
\<close>

section \<open>JsonLineFormatter\<close>

definition quote :: char where "quote = CHR 0x22"
definition bslash :: char where "bslash = CHR 0x5C"

definition lower_hex :: "nat \<Rightarrow> char" where
  "lower_hex d = (if d < 10 then char_of (48 + d) else char_of (87 + d))"

definition escape_char :: "char \<Rightarrow> string" where
  "escape_char c =
     (if c = quote then [bslash, quote]
      else if c = bslash then [bslash, bslash]
      else if c = CHR 0x08 then [bslash, CHR ''b'']
      else if c = CHR 0x0C then [bslash, CHR ''f'']
      else if c = CHR 0x0A then [bslash, CHR ''n'']
      else if c = CHR 0x0D then [bslash, CHR ''r'']
      else if c = CHR 0x09 then [bslash, CHR ''t'']
      else if code_of c < 0x20
        then [bslash, CHR ''u'', CHR ''0'', CHR ''0'', lower_hex (code_of c div 16), lower_hex (code_of c mod 16)]
      else [c])"

definition escapeString :: "string \<Rightarrow> string" where
  "escapeString str = concat (map escape_char str)"

definition formatValue :: "('d \<Rightarrow> string) \<Rightarrow> 'd FieldValue \<Rightarrow> string" where
  "formatValue dshow v =
     (case v of
        makeString s \<Rightarrow> quote # escapeString s @ [quote]
      | makeInt i \<Rightarrow> show_int (sint i)
      | makeDouble d \<Rightarrow> take 63 (dshow d)
      | makeBool b \<Rightarrow> (if b then ''true'' else ''false''))"

fun json_items :: "('d \<Rightarrow> string) \<Rightarrow> nat \<Rightarrow> 'd Field list \<Rightarrow> string" where
  "json_items dshow i [] = []"
| "json_items dshow i (f # fs) =
     (if i > 0 then '','' else []) @ quote # escapeString (fkey f) @ [quote, CHR '':''] @ formatValue dshow (fval f)
       @ json_items dshow (i + 1) fs"

definition json_format :: "('d \<Rightarrow> string) \<Rightarrow> 'd Field list \<Rightarrow> string" where
  "json_format dshow fs = ''{'' @ json_items dshow 0 fs @ ''}''"

section \<open>StandardFormatter\<close>

definition kCommonFields :: "string list" where
  "kCommonFields = [''schema_version'', ''timestamp'', ''time_synced'', ''mono_ms'', ''level'', ''service'',
     ''module'', ''event'', ''message'', ''pid'', ''tid'', ''trace_id'', ''request_id'', ''session_id'']"

definition isCommonField :: "string \<Rightarrow> bool" where
  "isCommonField k \<longleftrightarrow> list_ex (\<lambda>c. k = c) kCommonFields"

fun extractFieldValue :: "'d Field list \<Rightarrow> string \<Rightarrow> string \<Rightarrow> string" where
  "extractFieldValue [] k defaultValue = defaultValue"
| "extractFieldValue (f # fs) k defaultValue =
     (case (fkey f = k, fval f) of
        (True, makeString s) \<Rightarrow> s
      | _ \<Rightarrow> extractFieldValue fs k defaultValue)"

text \<open>\<open>sscanf\<close>'s \<open>%d\<close>: blanks, a sign, digits; then the format's literal character.  (A number that does not
  fit an \<open>int\<close> is undefined in C and not distinguished here.)\<close>

definition scan_int :: "string \<Rightarrow> (int \<times> string) option" where
  "scan_int s =
     (let t = dropWhile isspace s;
          neg = (t \<noteq> [] \<and> hd t = CHR ''-'');
          u = (if t \<noteq> [] \<and> (hd t = CHR ''-'' \<or> hd t = CHR ''+'') then tl t else t);
          ds = takeWhile isdigit u
      in if ds = [] then None
         else Some (if neg then - int (digits_value ds) else int (digits_value ds), dropWhile isdigit u))"

fun scan_fields :: "char list \<Rightarrow> string \<Rightarrow> int list" where
  "scan_fields [] s = (case scan_int s of None \<Rightarrow> [] | Some (v, r) \<Rightarrow> [v])"
| "scan_fields (c # cs) s =
     (case scan_int s of
        None \<Rightarrow> []
      | Some (v, []) \<Rightarrow> [v]
      | Some (v, d # r) \<Rightarrow> if d = c then v # scan_fields cs r else [v])"

text \<open>\<open>find('.', 19)\<close>, \<open>atoi(substr(dotPos + 1, 3))\<close>.\<close>

definition scan_millis :: "string \<Rightarrow> int" where
  "scan_millis s =
     (let rest = dropWhile (\<lambda>c. c \<noteq> CHR ''.'') (drop 19 s) in
      if rest \<noteq> [] \<and> length rest > 3
      then (case scan_int (take 3 (tl rest)) of None \<Rightarrow> 0 | Some (v, _) \<Rightarrow> v)
      else 0)"

type_synonym tm = "int \<times> int \<times> int \<times> int \<times> int \<times> int"

text \<open>\<open>to_local\<close> is \<open>localtime_r\<close> after \<open>timegm\<close>, on the fields of \<open>struct tm\<close>.\<close>

definition utcToLocalFormat :: "(tm \<Rightarrow> tm) \<Rightarrow> string \<Rightarrow> string" where
  "utcToLocalFormat to_local ts =
     (if length ts < 20 \<or> ts ! 10 \<noteq> CHR ''T'' then ts
      else case scan_fields [CHR ''-'', CHR ''-'', CHR ''T'', CHR '':'', CHR '':''] ts of
        [y, mo, d, h, mi, s] \<Rightarrow>
          (case to_local (y - 1900, mo - 1, d, h, mi, s) of (ly, lmo, ld, lh, lmi, ls) \<Rightarrow>
             take 31 (pad_int 4 (ly + 1900) @ ''-'' @ pad_int 2 (lmo + 1) @ ''-'' @ pad_int 2 ld @ '' '' @ pad_int 2 lh
               @ '':'' @ pad_int 2 lmi @ '':'' @ pad_int 2 ls @ ''.'' @ pad_int 3 (scan_millis ts)))
      | _ \<Rightarrow> ts)"

definition plain_value :: "('d \<Rightarrow> string) \<Rightarrow> 'd FieldValue \<Rightarrow> string" where
  "plain_value dshow v =
     (case v of
        makeString s \<Rightarrow> s
      | makeInt i \<Rightarrow> show_int (sint i)
      | makeDouble d \<Rightarrow> dshow d
      | makeBool b \<Rightarrow> (if b then ''true'' else ''false''))"

fun extra_loop :: "('d \<Rightarrow> string) \<Rightarrow> bool \<Rightarrow> 'd Field list \<Rightarrow> string" where
  "extra_loop dshow first [] = []"
| "extra_loop dshow first (f # fs) =
     (if isCommonField (fkey f) then extra_loop dshow first fs
      else (if \<not> first then '', '' else []) @ fkey f @ ''='' @ plain_value dshow (fval f) @ extra_loop dshow False fs)"

definition formatExtraFields :: "('d \<Rightarrow> string) \<Rightarrow> 'd Field list \<Rightarrow> string" where
  "formatExtraFields dshow fs = extra_loop dshow True fs"

definition standard_format :: "('d \<Rightarrow> string) \<Rightarrow> (tm \<Rightarrow> tm) \<Rightarrow> 'd Field list \<Rightarrow> string" where
  "standard_format dshow to_local fs =
     (let timestamp = extractFieldValue fs ''timestamp'' ''----/--/-- --:--:--.---'';
          service = extractFieldValue fs ''service'' ''unknown'';
          lvl = extractFieldValue fs ''level'' ''info'';
          message = extractFieldValue fs ''message'' [];
          localTime = utcToLocalFormat to_local timestamp;
          extra = formatExtraFields dshow fs
      in ''['' @ localTime @ ''] '' @ ''['' @ service @ ''] '' @ ''['' @ map tolower lvl @ ''] '' @ message
           @ (if extra \<noteq> [] then '', '' @ extra else []))"

section \<open>Reading a JSON line back\<close>

text \<open>A reader of the flat objects the formatter writes: a string with its escapes, or a bare token.\<close>

datatype jval = JStr string | JTok string

definition hex_val :: "char \<Rightarrow> nat" where
  "hex_val c = (if isdigit c then code_of c - 48 else code_of c - 87)"

definition unescape_char :: "char \<Rightarrow> char option" where
  "unescape_char e =
     (if e = quote then Some quote else if e = bslash then Some bslash
      else if e = CHR ''b'' then Some (CHR 0x08) else if e = CHR ''f'' then Some (CHR 0x0C)
      else if e = CHR ''n'' then Some (CHR 0x0A) else if e = CHR ''r'' then Some (CHR 0x0D)
      else if e = CHR ''t'' then Some (CHR 0x09) else None)"

definition cons_read :: "char \<Rightarrow> (string \<times> string) option \<Rightarrow> (string \<times> string) option" where
  "cons_read c r = (case r of None \<Rightarrow> None | Some (s, t) \<Rightarrow> Some (c # s, t))"

fun read_string :: "string \<Rightarrow> (string \<times> string) option" where
  "read_string [] = None"
| "read_string (c # r) =
     (if c = quote then Some ([], r)
      else if c = bslash then
        (case r of
           e # r1 \<Rightarrow>
             (if e = CHR ''u'' then
                (case r1 of
                   a # b # h # l # r2 \<Rightarrow> cons_read (char_of (16 * hex_val h + hex_val l)) (read_string r2)
                 | _ \<Rightarrow> None)
              else case unescape_char e of None \<Rightarrow> None | Some d \<Rightarrow> cons_read d (read_string r1))
         | [] \<Rightarrow> None)
      else if code_of c < 0x20 then None
      else cons_read c (read_string r))"

definition read_value :: "string \<Rightarrow> (jval \<times> string) option" where
  "read_value s =
     (case s of
        c # r \<Rightarrow>
          (if c = quote then map_option (\<lambda>(v, t). (JStr v, t)) (read_string r)
           else let tok = takeWhile (\<lambda>c. c \<noteq> CHR '','' \<and> c \<noteq> CHR ''}'') s in
                if tok = [] then None else Some (JTok tok, drop (length tok) s))
      | [] \<Rightarrow> None)"

definition read_pair :: "string \<Rightarrow> ((string \<times> jval) \<times> string) option" where
  "read_pair s =
     (case s of
        c # r \<Rightarrow>
          (if c \<noteq> quote then None
           else case read_string r of
             Some (k, d # t) \<Rightarrow> if d = CHR '':'' then map_option (\<lambda>(v, u). ((k, v), u)) (read_value t) else None
           | _ \<Rightarrow> None)
      | [] \<Rightarrow> None)"

fun read_pairs :: "nat \<Rightarrow> string \<Rightarrow> (string \<times> jval) list option" where
  "read_pairs 0 s = None"
| "read_pairs (Suc n) s =
     (case read_pair s of
        Some (kv, t) \<Rightarrow>
          (if t = ''}'' then Some [kv]
           else case t of
             c # u \<Rightarrow> if c = CHR '','' then map_option (Cons kv) (read_pairs n u) else None
           | [] \<Rightarrow> None)
      | None \<Rightarrow> None)"

definition read_object :: "string \<Rightarrow> (string \<times> jval) list option" where
  "read_object s =
     (if s = ''{}'' then Some []
      else case s of c # r \<Rightarrow> if c = CHR ''{'' then read_pairs (length r) r else None | [] \<Rightarrow> None)"

lemma quote_bslash [simp]: "bslash \<noteq> quote" "quote \<noteq> bslash" "code_of quote = 34" "code_of bslash = 92"
  by (simp_all add: quote_def bslash_def code_of_def)

lemma code_of_literals:
  "code_of (CHR ''u'') = 117" "code_of (CHR ''b'') = 98" "code_of (CHR ''f'') = 102" "code_of (CHR ''n'') = 110"
  "code_of (CHR ''r'') = 114" "code_of (CHR ''t'') = 116" "code_of (CHR ''0'') = 48" "code_of (CHR '','') = 44"
  "code_of (CHR '':'') = 58" "code_of (CHR ''{'') = 123" "code_of (CHR ''}'') = 125"
  by (simp_all add: code_of_def)

lemma lower_hex_val: "d < 16 \<Longrightarrow> hex_val (lower_hex d) = d"
  by (auto simp: hex_val_def lower_hex_def isdigit_def)

lemma CHR_u: "CHR ''u'' \<noteq> quote" "CHR ''u'' \<noteq> bslash"
  by (simp_all add: quote_def bslash_def)

lemma read_escaped: "read_string (escape_char c @ t) = cons_read c (read_string t)"
proof (cases "c \<in> {quote, bslash, CHR 0x08, CHR 0x0C, CHR 0x0A, CHR 0x0D, CHR 0x09}")
  case True
  then show ?thesis
    by (auto simp: escape_char_def unescape_char_def quote_def bslash_def)
next
  case False
  show ?thesis
  proof (cases "code_of c < 0x20")
    case True
    with False have "escape_char c = [bslash, CHR ''u'', CHR ''0'', CHR ''0'', lower_hex (code_of c div 16), lower_hex (code_of c mod 16)]"
      by (simp add: escape_char_def)
    moreover have "code_of c div 16 < 16" using True by simp
    ultimately show ?thesis using CHR_u by (simp add: lower_hex_val)
  next
    case F: False
    with False have "escape_char c = [c]" by (simp add: escape_char_def)
    with False F show ?thesis by simp
  qed
qed

lemma read_escapeString: "read_string (escapeString s @ quote # t) = Some (s, t)"
  by (induction s) (auto simp: escapeString_def read_escaped cons_read_def)

text \<open>What a value becomes for the reader, and what is asked of the printing of doubles.\<close>

definition jval_of :: "('d \<Rightarrow> string) \<Rightarrow> 'd FieldValue \<Rightarrow> jval" where
  "jval_of dshow v = (case v of makeString s \<Rightarrow> JStr s | _ \<Rightarrow> JTok (formatValue dshow v))"

definition token_char :: "char \<Rightarrow> bool" where
  "token_char c \<longleftrightarrow> 32 \<le> code_of c \<and> c \<noteq> quote \<and> c \<noteq> CHR '','' \<and> c \<noteq> CHR ''}''"

definition plain_doubles :: "('d \<Rightarrow> string) \<Rightarrow> bool" where
  "plain_doubles dshow \<longleftrightarrow> (\<forall>d. dshow d \<noteq> [] \<and> list_all token_char (dshow d))"

lemma show_nat_token: "list_all token_char (show_nat n)"
  using show_nat_digits [of n] by (auto simp: list_all_iff token_char_def isdigit_def quote_def code_of_def)

lemma show_int_token: "list_all token_char (show_int i)"
  using show_nat_token by (auto simp: show_int_def token_char_def quote_def code_of_def)

lemma list_all_take: "list_all P xs \<Longrightarrow> list_all P (take n xs)"
  by (auto simp: list_all_iff dest: in_set_takeD)

lemma value_token:
  assumes "plain_doubles dshow" "\<forall>s. v \<noteq> makeString s"
  shows "formatValue dshow v \<noteq> [] \<and> list_all token_char (formatValue dshow v)"
proof (cases v)
  case (makeBool b)
  then show ?thesis by (cases b) (simp_all add: formatValue_def token_char_def quote_def code_of_def)
qed (use assms in \<open>auto simp: formatValue_def plain_doubles_def show_int_token list_all_take\<close>)

lemma takeWhile_token:
  assumes "list_all token_char w" "c = CHR '','' \<or> c = CHR ''}''"
  shows "takeWhile (\<lambda>c. c \<noteq> CHR '','' \<and> c \<noteq> CHR ''}'') (w @ c # t) = w"
  using assms by (induction w) (auto simp: token_char_def)

lemma read_value_format:
  assumes "plain_doubles dshow" "c = CHR '','' \<or> c = CHR ''}''"
  shows "read_value (formatValue dshow v @ c # t) = Some (jval_of dshow v, c # t)"
proof (cases "\<exists>s. v = makeString s")
  case True
  then show ?thesis by (auto simp: read_value_def formatValue_def jval_of_def read_escapeString)
next
  case False
  then have tok: "formatValue dshow v \<noteq> []" "list_all token_char (formatValue dshow v)"
    using value_token [OF assms(1), of v] by auto
  then obtain d r where w: "formatValue dshow v = d # r" by (cases "formatValue dshow v") auto
  with tok have "d \<noteq> quote" by (simp add: token_char_def)
  moreover have "jval_of dshow v = JTok (formatValue dshow v)"
    using False by (cases v) (auto simp: jval_of_def)
  moreover have "takeWhile (\<lambda>c. c \<noteq> CHR '','' \<and> c \<noteq> CHR ''}'') (formatValue dshow v @ c # t) = formatValue dshow v"
    by (rule takeWhile_token [OF tok(2) assms(2)])
  ultimately show ?thesis using w by (simp add: read_value_def Let_def del: takeWhile.simps)
qed

lemma read_pair_item:
  assumes "plain_doubles dshow" "c = CHR '','' \<or> c = CHR ''}''"
  shows "read_pair (quote # escapeString (fkey f) @ [quote, CHR '':''] @ formatValue dshow (fval f) @ c # t)
    = Some ((fkey f, jval_of dshow (fval f)), c # t)"
  using read_value_format [OF assms, of "fval f" t] read_escapeString [of "fkey f" "CHR '':'' # formatValue dshow (fval f) @ c # t"]
  by (simp add: read_pair_def)

lemma json_items_sep: "json_items dshow (Suc i) (f # fs) = CHR '','' # json_items dshow 0 (f # fs)"
proof -
  have "json_items dshow (Suc i) fs = json_items dshow (Suc j) fs" for fs :: "'a Field list" and i j
    by (induction fs arbitrary: i j) auto
  then show ?thesis by (simp add: One_nat_def)
qed

lemma read_pairs_items:
  assumes "plain_doubles dshow"
  shows "fs \<noteq> [] \<Longrightarrow> length fs \<le> n \<Longrightarrow>
    read_pairs n (json_items dshow 0 fs @ ''}'') = Some (map (\<lambda>f. (fkey f, jval_of dshow (fval f))) fs)"
proof (induction fs arbitrary: n)
  case (Cons f fs)
  then obtain k where n: "n = Suc k" by (cases n) auto
  show ?case
  proof (cases fs)
    case Nil
    with read_pair_item [OF assms, of "CHR ''}''" f "[]"] show ?thesis by (simp add: n)
  next
    case (Cons g gs)
    let ?tail = "json_items dshow 0 fs @ ''}''"
    have sep: "json_items dshow (Suc 0) fs = CHR '','' # json_items dshow 0 fs"
      unfolding Cons by (rule json_items_sep)
    have "read_pair (json_items dshow 0 (f # fs) @ ''}'') = Some ((fkey f, jval_of dshow (fval f)), CHR '','' # ?tail)"
      using read_pair_item [OF assms, of "CHR '',''" f ?tail] by (simp add: sep)
    moreover have "read_pairs k ?tail = Some (map (\<lambda>f. (fkey f, jval_of dshow (fval f))) fs)"
      using Cons.IH [of k] Cons.prems Cons n by simp
    ultimately show ?thesis by (simp add: n del: json_items.simps)
  qed
qed simp

lemma json_items_length: "length fs \<le> length (json_items dshow i fs)"
  by (induction fs arbitrary: i) (auto simp: le_SucI trans_le_add2)

lemma escape_printable: "list_all (\<lambda>c. 32 \<le> code_of c) (escapeString s)"
proof -
  have "list_all (\<lambda>c. 32 \<le> code_of c) (escape_char c)" for c
    by (auto simp: escape_char_def lower_hex_def code_of_literals list_all_iff)
  then show ?thesis by (induction s) (auto simp: escapeString_def)
qed

lemma value_printable: "plain_doubles dshow \<Longrightarrow> list_all (\<lambda>c. 32 \<le> code_of c) (formatValue dshow v)"
proof (cases "\<exists>s. v = makeString s")
  case True
  then show ?thesis using escape_printable by (auto simp: formatValue_def)
next
  case False
  assume "plain_doubles dshow"
  with False value_token [of dshow v] show ?thesis by (auto simp: list_all_iff token_char_def)
qed

lemma items_printable: "plain_doubles dshow \<Longrightarrow> list_all (\<lambda>c. 32 \<le> code_of c) (json_items dshow i fs)"
  by (induction fs arbitrary: i) (auto simp: escape_printable value_printable code_of_literals)

section \<open>Properties\<close>


definition nasty_fields :: "bool Field list" where
  "nasty_fields = [field ''message'' (makeString [quote, CHR ''}'', CHR 0x0A, CHR '','', bslash]),
                   field [quote] (makeDouble True), field ''n'' (makeInt (- 5))]"


section \<open>The standard line\<close>

lemma public_key:
  "k \<in> {''schema_version'', ''timestamp'', ''time_synced'', ''mono_ms'', ''level'', ''service'', ''module'', ''event'',
        ''message'', ''pid'', ''tid'', ''trace_id'', ''request_id'', ''session_id''} \<Longrightarrow> \<not> isSecretKey k"
proof -
  have "list_all (\<lambda>k. \<not> isSecretKey k) kCommonFields" by code_simp
  moreover assume "k \<in> {''schema_version'', ''timestamp'', ''time_synced'', ''mono_ms'', ''level'', ''service'', ''module'', ''event'',
        ''message'', ''pid'', ''tid'', ''trace_id'', ''request_id'', ''session_id''}"
  then have "k \<in> set kCommonFields" by (auto simp: kCommonFields_def)
  ultimately show ?thesis by (simp add: list_all_iff)
qed

lemma redact_field: "\<not> isSecretKey k \<Longrightarrow> redact_one cfg (field k v) = field k v"
  by (rule redact_public) (simp_all add: field_def is_secret_def)

lemma redact_enrich:
  "redact cfg (enrich en c fs lvl mdl ev msg ctx) = enrich en c (redact cfg fs) lvl mdl ev msg ctx"
  by (simp add: redact_def enrich_def context_fields_def redact_field public_key split: option.split)

lemma extract_enriched:
  "extractFieldValue (enrich en c fs lvl mdl ev msg ctx) ''timestamp'' d = getTimestampUTC c"
  "extractFieldValue (enrich en c fs lvl mdl ev msg ctx) ''service'' d = en_service en"
  "extractFieldValue (enrich en c fs lvl mdl ev msg ctx) ''level'' d = logLevelToString lvl"
  "extractFieldValue (enrich en c fs lvl mdl ev msg ctx) ''message'' d = msg"
  by (simp_all add: enrich_def field_def)

lemma isCommon_keys:
  "isCommonField ''schema_version''" "isCommonField ''timestamp''" "isCommonField ''time_synced''" "isCommonField ''mono_ms''"
  "isCommonField ''level''" "isCommonField ''service''" "isCommonField ''module''" "isCommonField ''event''"
  "isCommonField ''message''" "isCommonField ''pid''" "isCommonField ''tid''" "isCommonField ''trace_id''"
  "isCommonField ''request_id''" "isCommonField ''session_id''"
  by (simp_all add: isCommonField_def kCommonFields_def)

lemma extra_enriched: "extra_loop dshow b (enrich en c fs lvl mdl ev msg ctx) = extra_loop dshow b fs"
  by (simp add: enrich_def context_fields_def field_def isCommon_keys split: option.split)

definition extra_text :: "('d \<Rightarrow> string) \<Rightarrow> 'd Field \<Rightarrow> string" where
  "extra_text dshow f = fkey f @ ''='' @ plain_value dshow (fval f)"

lemma extra_loop_rest:
  "extra_loop dshow False fs = concat (map (\<lambda>f. '', '' @ extra_text dshow f) (filter (\<lambda>f. \<not> isCommonField (fkey f)) fs))"
  by (induction fs) (auto simp: extra_text_def)

lemma extra_with_comma:
  "(if formatExtraFields dshow fs \<noteq> [] then '', '' @ formatExtraFields dshow fs else [])
    = concat (map (\<lambda>f. '', '' @ extra_text dshow f) (filter (\<lambda>f. \<not> isCommonField (fkey f)) fs))"
  unfolding formatExtraFields_def
  by (induction fs) (auto simp: extra_text_def extra_loop_rest)

lemma format_extra_enriched: "formatExtraFields dshow (enrich en c fs lvl mdl ev msg ctx) = formatExtraFields dshow fs"
  by (simp add: formatExtraFields_def extra_enriched)

lemma standard_enriched:
  "standard_format dshow to_local (redact cfg (enrich en c fs lvl mdl ev msg ctx))
   = ''['' @ utcToLocalFormat to_local (getTimestampUTC c) @ ''] ['' @ en_service en @ ''] ['' @ map tolower (logLevelToString lvl)
     @ ''] '' @ msg @ concat (map (\<lambda>f. '', '' @ extra_text dshow f) (filter (\<lambda>f. \<not> isCommonField (fkey f)) (redact cfg fs)))"
  unfolding redact_enrich standard_format_def Let_def extract_enriched format_extra_enriched extra_with_comma by simp

definition nl :: char where "nl = CHR 0x0A"

text \<open>
  The line of a record in the standard format: the header is decided by the logger's service, the level of
  the call and the clock, whatever fields the caller passes; the caller's redacted fields follow in order,
  except those that use the name of a common field, and the context's identifiers are not printed.
\<close>

theorem standard_line_layout:
  "standard_format dshow to_local (redact cfg (enrich en c fs lvl mdl ev msg ctx))
   = ''['' @ utcToLocalFormat to_local (getTimestampUTC c) @ ''] ['' @ en_service en @ ''] ['' @ map tolower (logLevelToString lvl)
     @ ''] '' @ msg @ concat (map (\<lambda>f. '', '' @ extra_text dshow f) (filter (\<lambda>f. \<not> isCommonField (fkey f)) (redact cfg fs)))"
  by (rule standard_enriched)

text \<open>
  The standard format does not escape: one record whose message holds a line break prints the same bytes
  as two records, the second with any service and level its message claims.
\<close>

theorem standard_line_forged:
  "standard_format dshow to_local (redact cfg (enrich en c [] lvl mdl ev
       (msg @ nl # standard_format dshow to_local (redact cfg (enrich en' c' [] lvl' mdl' ev' msg' ctx'))) ctx))
   = standard_format dshow to_local (redact cfg (enrich en c [] lvl mdl ev msg ctx)) @ nl
       # standard_format dshow to_local (redact cfg (enrich en' c' [] lvl' mdl' ev' msg' ctx'))"
  unfolding standard_enriched by (simp add: redact_def)

section \<open>The time stamp\<close>

lemma length_show_nat: "v < 10 ^ n \<Longrightarrow> 0 < n \<Longrightarrow> length (show_nat v) \<le> n"
proof (induction n arbitrary: v)
  case (Suc n)
  show ?case
  proof (cases "v < 10")
    case True
    then show ?thesis by (subst show_nat.simps) simp
  next
    case False
    with Suc.prems have "0 < n" by (cases n) auto
    moreover have "v div 10 < 10 ^ n" using Suc.prems by (simp add: less_mult_imp_div_less)
    ultimately have "length (show_nat (v div 10)) \<le> n" using Suc.IH by blast
    with False show ?thesis by (subst show_nat.simps) simp
  qed
qed simp

lemma length_pad_int: "0 \<le> v \<Longrightarrow> v < 10 ^ n \<Longrightarrow> 0 < n \<Longrightarrow> length (pad_int n v) = n"
proof -
  assume v: "0 \<le> v" "v < 10 ^ n" "0 < n"
  then have "nat v < 10 ^ n" by (simp add: nat_less_iff)
  with v length_show_nat [of "nat v" n] show ?thesis by (simp add: pad_int_def)
qed

lemma digits_value_zeros: "digits_value (replicate k (CHR ''0'') @ ds) = digits_value ds"
  by (induction k) (simp_all add: digits_value_def digit_val_def code_of_def)

lemma pad_int_digits:
  "0 \<le> v \<Longrightarrow> (\<forall>c \<in> set (pad_int n v). isdigit c) \<and> pad_int n v \<noteq> [] \<and> digits_value (pad_int n v) = nat v"
  using show_nat_digits by (auto simp: pad_int_def digits_value_zeros isdigit_def [of "CHR ''0''"] code_of_literals)

lemma isdigit_first: "isdigit c \<Longrightarrow> \<not> isspace c \<and> c \<noteq> CHR ''-'' \<and> c \<noteq> CHR ''+''"
  by (auto simp: isdigit_def isspace_def code_of_def)

lemma scan_digits:
  assumes "\<forall>c \<in> set ds. isdigit c" "ds \<noteq> []" "r = [] \<or> \<not> isdigit (hd r)"
  shows "scan_int (ds @ r) = Some (int (digits_value ds), r)"
proof -
  obtain c cs where ds: "ds = c # cs" using assms(2) by (cases ds) auto
  with assms(1) isdigit_first [of c] have "dropWhile isspace (ds @ r) = ds @ r" "hd (ds @ r) \<noteq> CHR ''-''" "hd (ds @ r) \<noteq> CHR ''+''"
    by auto
  moreover have "takeWhile isdigit (ds @ r) = ds" "dropWhile isdigit (ds @ r) = r"
    using assms(1,3) by (auto simp: takeWhile_append dropWhile_append takeWhile_eq_Nil_iff dropWhile_eq_self_iff)
  ultimately show ?thesis using ds by (simp add: scan_int_def)
qed

lemma scan_pad: "0 \<le> v \<Longrightarrow> r = [] \<or> \<not> isdigit (hd r) \<Longrightarrow> scan_int (pad_int n v @ r) = Some (v, r)"
  using scan_digits [of "pad_int n v" r] pad_int_digits [of v n] by simp

lemma nondigits: "\<not> isdigit (CHR ''-'')" "\<not> isdigit (CHR ''T'')" "\<not> isdigit (CHR '':'')" "\<not> isdigit (CHR ''.'')"
  by (simp_all add: isdigit_def code_of_def)

text \<open>A clock whose fields are in the ranges \<open>gmtime_r\<close> documents, up to the year 9999.\<close>

definition clock_ok :: "clock \<Rightarrow> bool" where
  "clock_ok c = (case utc c of (y, mo, d, h, mi, s) \<Rightarrow>
     -1900 \<le> y \<and> y < 8100 \<and> 0 \<le> mo \<and> mo < 12 \<and> 0 \<le> d \<and> d < 32 \<and> 0 \<le> h \<and> h < 24 \<and> 0 \<le> mi \<and> mi < 60 \<and> 0 \<le> s \<and> s < 61
     \<and> usec c < 1000000)"

definition local_text :: "tm \<Rightarrow> nat \<Rightarrow> string" where
  "local_text t ms = (case t of (y, mo, d, h, mi, s) \<Rightarrow>
     pad_int 4 (y + 1900) @ ''-'' @ pad_int 2 (mo + 1) @ ''-'' @ pad_int 2 d @ '' '' @ pad_int 2 h @ '':'' @ pad_int 2 mi
       @ '':'' @ pad_int 2 s @ ''.'' @ pad_int 3 (int ms))"

lemma clock_millis: "clock_ok c \<Longrightarrow> usec c div 1000 < 1000"
  by (auto simp: clock_ok_def intro!: less_mult_imp_div_less split: prod.splits)

lemma timestamp_text:
  assumes "clock_ok c" "utc c = (y, mo, d, h, mi, s)"
  shows "getTimestampUTC c = pad_int 4 (y + 1900) @ ''-'' @ pad_int 2 (mo + 1) @ ''-'' @ pad_int 2 d @ ''T'' @ pad_int 2 h
      @ '':'' @ pad_int 2 mi @ '':'' @ pad_int 2 s @ ''.'' @ pad_int 3 (int (usec c div 1000)) @ ''Z''"
  using assms clock_millis [OF assms(1)] by (simp add: getTimestampUTC_def clock_ok_def length_pad_int)

lemma timestamp_scanned:
  assumes ok: "clock_ok c" and u: "utc c = (y, mo, d, h, mi, s)"
  shows "scan_fields [CHR ''-'', CHR ''-'', CHR ''T'', CHR '':'', CHR '':''] (getTimestampUTC c)
      = [y + 1900, mo + 1, d, h, mi, s]"
  using ok u unfolding timestamp_text [OF assms] clock_ok_def
  by (simp add: scan_pad nondigits)

lemma timestamp_shape:
  assumes ok: "clock_ok c" and u: "utc c = (y, mo, d, h, mi, s)"
  shows "\<not> (length (getTimestampUTC c) < 20 \<or> getTimestampUTC c ! 10 \<noteq> CHR ''T'')"
    "scan_millis (getTimestampUTC c) = int (usec c div 1000)"
proof -
  have n: "length (pad_int 4 (y + 1900)) = 4" "length (pad_int 2 (mo + 1)) = 2" "length (pad_int 2 d) = 2"
    "length (pad_int 2 h) = 2" "length (pad_int 2 mi) = 2" "length (pad_int 2 s) = 2"
    "length (pad_int 3 (int (usec c div 1000))) = 3"
    using ok u clock_millis [OF ok] by (auto simp: clock_ok_def intro!: length_pad_int)
  show "\<not> (length (getTimestampUTC c) < 20 \<or> getTimestampUTC c ! 10 \<noteq> CHR ''T'')"
    unfolding timestamp_text [OF assms] using n by (simp add: nth_append)
  have "drop 19 (getTimestampUTC c) = CHR ''.'' # pad_int 3 (int (usec c div 1000)) @ ''Z''"
    unfolding timestamp_text [OF assms] using n by (simp add: drop_append)
  then show "scan_millis (getTimestampUTC c) = int (usec c div 1000)"
    using n(7) scan_pad [of "int (usec c div 1000)" "[]" 3] by (simp add: scan_millis_def)
qed

text \<open>
  The enricher's time stamp is read back field by field: the standard line shows the local time of exactly
  the moment the record was made, with its milliseconds.
\<close>

theorem timestamp_localised:
  assumes "clock_ok c"
    "case to_local (utc c) of (y, mo, d, h, mi, s) \<Rightarrow>
       -1900 \<le> y \<and> y < 8100 \<and> 0 \<le> mo \<and> mo < 12 \<and> 0 \<le> d \<and> d < 32 \<and> 0 \<le> h \<and> h < 24 \<and> 0 \<le> mi \<and> mi < 60 \<and> 0 \<le> s \<and> s < 61"
  shows "utcToLocalFormat to_local (getTimestampUTC c) = local_text (to_local (utc c)) (usec c div 1000)"
proof -
  obtain y mo d h mi s where u: "utc c = (y, mo, d, h, mi, s)" by (rule prod_cases6)
  obtain ly lmo ld lh lmi ls where l: "to_local (y, mo, d, h, mi, s) = (ly, lmo, ld, lh, lmi, ls)" by (rule prod_cases6)
  have ms: "usec c div 1000 < 1000" by (rule clock_millis [OF assms(1)])
  have n: "length (pad_int 4 (ly + 1900)) = 4" "length (pad_int 2 (lmo + 1)) = 2" "length (pad_int 2 ld) = 2"
    "length (pad_int 2 lh) = 2" "length (pad_int 2 lmi) = 2" "length (pad_int 2 ls) = 2"
    "length (pad_int 3 (int (usec c div 1000))) = 3"
    using assms(2) u l ms by (auto intro!: length_pad_int)
  show ?thesis
    using timestamp_shape [OF assms(1) u] timestamp_scanned [OF assms(1) u] u l n
    by (simp add: utcToLocalFormat_def local_text_def)
qed

definition noon :: clock where
  "noon = \<lparr>utc = (126, 6, 26, 3, 55, 56), usec = 848000, epoch_sec = 1785038156, mono_now_ms = 10, current_tid = 7\<rparr>"

definition utc_plus_8 :: "tm \<Rightarrow> tm" where
  "utc_plus_8 t = (case t of (y, mo, d, h, mi, s) \<Rightarrow> (y, mo, d, h + 8, mi, s))"

theorem timestamp_localised_witness:
  "utcToLocalFormat utc_plus_8 (getTimestampUTC noon) = ''2026-07-26 11:55:56.848''"
proof -
  have "utcToLocalFormat utc_plus_8 (getTimestampUTC noon) = local_text (utc_plus_8 (utc noon)) (usec noon div 1000)"
    by (rule timestamp_localised) (simp_all add: clock_ok_def noon_def utc_plus_8_def)
  also have "\<dots> = ''2026-07-26 11:55:56.848''"
    by (simp add: local_text_def noon_def utc_plus_8_def pad_int_def show_nat.simps digit_char_def char_of_def bit_0)
  finally show ?thesis .
qed

end
