(* ===== verification/Log_Dispatch.thy ===== *)
theory Log_Dispatch
  imports Log_Fields "HOL-Library.Multiset"
begin

text \<open>
  The asynchronous dispatcher (\<open>src/log/log_async_dispatcher.cpp\<close>): a bounded queue, callers that submit
  from any thread, one worker that takes batches, and \<open>stop\<close>, which joins the worker and drains the rest.
  Every critical section is a function on the state; the step relation interleaves them.  The calls of the
  writer are recorded in order, each with a mark whether its line came through the queue.
\<close>

section \<open>State\<close>

type_synonym item = "string \<times> LogLevel"

text \<open>Where the worker thread is: not started, at the test of \<open>m_running\<close>, waiting on the condition, writing
  the rest of its batch, past its loop.\<close>

datatype worker = NoThread | AtTest | Waiting | Writing "item list" | Returned

datatype stopper = NotStopping | Joining | Draining

text \<open>\<open>retrying\<close> and \<open>direct\<close> are the callers inside \<open>submit\<close> that released the lock: warnings asleep for 10 ms
  and errors about to call the writer.  \<open>accepted\<close>, \<open>enqueued\<close> and \<open>refused\<close> record what \<open>submit\<close> did.\<close>

record disp =
  m_queueSize :: u32
  m_queue :: "item list"
  m_running :: bool
  m_droppedCount :: u64
  d_worker :: worker
  d_stop :: stopper
  retrying :: "item list"
  direct :: "item list"
  written :: "(bool \<times> item) list"
  accepted :: "item list"
  enqueued :: "item list"
  refused :: "item list"

definition disp_new :: "u32 \<Rightarrow> disp" where
  "disp_new n = \<lparr>m_queueSize = n, m_queue = [], m_running = False, m_droppedCount = 0, d_worker = NoThread,
     d_stop = NotStopping, retrying = [], direct = [], written = [], accepted = [], enqueued = [], refused = []\<rparr>"

section \<open>Operations\<close>

definition isHighPriority :: "LogLevel \<Rightarrow> bool" where
  "isHighPriority l \<longleftrightarrow> l = kError \<or> l = kFatal"

definition has_room :: "disp \<Rightarrow> bool" where
  "has_room s \<longleftrightarrow> length (m_queue s) < unat (m_queueSize s)"

definition emplace :: "item \<Rightarrow> disp \<Rightarrow> disp" where
  "emplace x s = s\<lparr>m_queue := m_queue s @ [x], accepted := accepted s @ [x], enqueued := enqueued s @ [x]\<rparr>"

definition drop_line :: "item \<Rightarrow> disp \<Rightarrow> disp" where
  "drop_line x s = s\<lparr>m_droppedCount := m_droppedCount s + 1, refused := refused s @ [x]\<rparr>"

text \<open>The first critical section of \<open>submit\<close>: the value it returns, or None when it goes on unlocked.\<close>

definition submit :: "item \<Rightarrow> disp \<Rightarrow> bool option \<times> disp" where
  "submit x s =
     (if has_room s then (Some True, emplace x s)
      else if isHighPriority (snd x) then (None, s\<lparr>direct := direct s @ [x]\<rparr>)
      else if snd x = kWarn then (None, s\<lparr>retrying := retrying s @ [x]\<rparr>)
      else (Some False, drop_line x s))"

definition submit_direct :: "item \<Rightarrow> disp \<Rightarrow> bool \<times> disp" where
  "submit_direct x s =
     (True, s\<lparr>direct := remove1 x (direct s), written := written s @ [(False, x)], accepted := accepted s @ [x]\<rparr>)"

definition submit_retry :: "item \<Rightarrow> disp \<Rightarrow> bool \<times> disp" where
  "submit_retry x s =
     (let s1 = s\<lparr>retrying := remove1 x (retrying s)\<rparr> in
      if has_room s1 then (True, emplace x s1) else (False, drop_line x s1))"

definition disp_start :: "disp \<Rightarrow> disp" where
  "disp_start s = (if m_running s then s else s\<lparr>m_running := True, d_worker := AtTest\<rparr>)"

definition worker_test :: "disp \<Rightarrow> disp" where
  "worker_test s = s\<lparr>d_worker := (if m_running s then Waiting else Returned)\<rparr>"

definition worker_take :: "disp \<Rightarrow> disp" where
  "worker_take s = s\<lparr>d_worker := Writing (take 64 (m_queue s)), m_queue := drop 64 (m_queue s)\<rparr>"

definition worker_write :: "item list \<Rightarrow> disp \<Rightarrow> disp" where
  "worker_write batch s =
     (case batch of
        [] \<Rightarrow> s\<lparr>d_worker := AtTest\<rparr>
      | x # rest \<Rightarrow> s\<lparr>d_worker := Writing rest, written := written s @ [(True, x)]\<rparr>)"

definition stop_begin :: "disp \<Rightarrow> disp" where
  "stop_begin s = (if m_running s then s\<lparr>m_running := False, d_stop := Joining\<rparr> else s)"

definition stop_join :: "disp \<Rightarrow> disp" where
  "stop_join s = s\<lparr>d_worker := NoThread, d_stop := Draining\<rparr>"

definition stop_drain :: "disp \<Rightarrow> disp" where
  "stop_drain s =
     (case m_queue s of
        [] \<Rightarrow> s\<lparr>d_stop := NotStopping\<rparr>
      | x # q \<Rightarrow> s\<lparr>m_queue := q, written := written s @ [(True, x)]\<rparr>)"

text \<open>The condition on which \<open>flush\<close> returns before its timeout.\<close>

definition flush_satisfied :: "disp \<Rightarrow> bool" where
  "flush_satisfied s \<longleftrightarrow> m_queue s = []"

section \<open>Interleaving\<close>

text \<open>While \<open>stop\<close> drains it holds the mutex, so no critical section of a caller runs.  \<open>start\<close> and \<open>stop\<close> are
  called one after the other (the registry's lock).\<close>

inductive disp_step :: "disp \<Rightarrow> disp \<Rightarrow> bool" where
  Submit: "d_stop s \<noteq> Draining \<Longrightarrow> submit x s = (r, s') \<Longrightarrow> disp_step s s'"
| Direct: "x \<in> set (direct s) \<Longrightarrow> submit_direct x s = (r, s') \<Longrightarrow> disp_step s s'"
| Retry: "d_stop s \<noteq> Draining \<Longrightarrow> x \<in> set (retrying s) \<Longrightarrow> submit_retry x s = (r, s') \<Longrightarrow> disp_step s s'"
| Start: "d_stop s = NotStopping \<Longrightarrow> disp_step s (disp_start s)"
| Test: "d_worker s = AtTest \<Longrightarrow> disp_step s (worker_test s)"
| Take: "d_worker s = Waiting \<Longrightarrow> disp_step s (worker_take s)"
| Write: "d_worker s = Writing batch \<Longrightarrow> disp_step s (worker_write batch s)"
| StopBegin: "d_stop s = NotStopping \<Longrightarrow> disp_step s (stop_begin s)"
| StopJoin: "d_stop s = Joining \<Longrightarrow> d_worker s = Returned \<Longrightarrow> disp_step s (stop_join s)"
| StopDrain: "d_stop s = Draining \<Longrightarrow> disp_step s (stop_drain s)"

inductive_cases disp_stepE: "disp_step s s'"

inductive disp_reach :: "u32 \<Rightarrow> disp \<Rightarrow> bool" for n where
  Init: "disp_reach n (disp_new n)"
| Step: "disp_reach n s \<Longrightarrow> disp_step s s' \<Longrightarrow> disp_reach n s'"

section \<open>Invariants\<close>

fun in_hand :: "worker \<Rightarrow> item list" where
  "in_hand (Writing batch) = batch"
| "in_hand _ = []"

definition queued_out :: "disp \<Rightarrow> item list" where
  "queued_out s = map snd (filter fst (written s))"

definition fifo_ok :: "disp \<Rightarrow> bool" where
  "fifo_ok s \<longleftrightarrow> enqueued s = queued_out s @ in_hand (d_worker s) @ m_queue s"

definition accepted_ok :: "disp \<Rightarrow> bool" where
  "accepted_ok s \<longleftrightarrow> mset (accepted s) = mset (map snd (written s)) + mset (in_hand (d_worker s)) + mset (m_queue s)"

definition bounded_ok :: "disp \<Rightarrow> bool" where
  "bounded_ok s \<longleftrightarrow> length (m_queue s) \<le> unat (m_queueSize s)
     \<and> m_droppedCount s = of_nat (length (refused s))
     \<and> (\<forall>x \<in> set (refused s). \<not> isHighPriority (snd x)) \<and> (\<forall>x \<in> set (retrying s). snd x = kWarn)"

text \<open>The worker runs or stop is waiting for it; drained queues are drained after the worker is gone.\<close>

definition threads_ok :: "disp \<Rightarrow> bool" where
  "threads_ok s \<longleftrightarrow>
     (d_stop s = NotStopping \<longrightarrow> (m_running s \<longleftrightarrow> d_worker s \<noteq> NoThread) \<and> d_worker s \<noteq> Returned)
   \<and> (d_stop s = Joining \<longrightarrow> \<not> m_running s \<and> d_worker s \<noteq> NoThread)
   \<and> (d_stop s = Draining \<longrightarrow> \<not> m_running s \<and> d_worker s = NoThread)"

definition disp_inv :: "disp \<Rightarrow> bool" where
  "disp_inv s \<longleftrightarrow> fifo_ok s \<and> accepted_ok s \<and> bounded_ok s \<and> threads_ok s"

lemmas disp_ops = submit_def submit_direct_def submit_retry_def emplace_def drop_line_def disp_start_def
  worker_test_def worker_take_def worker_write_def stop_begin_def stop_join_def stop_drain_def

lemma disp_inv_new: "disp_inv (disp_new n)"
  by (simp add: disp_inv_def fifo_ok_def accepted_ok_def bounded_ok_def threads_ok_def disp_new_def queued_out_def)

lemma threads_step [inv_intros]: "disp_step s s' \<Longrightarrow> threads_ok s \<Longrightarrow> threads_ok s'"
  by (erule disp_stepE) (auto simp: threads_ok_def disp_ops Let_def split: if_splits list.splits)

lemma fifo_step [inv_intros]: "disp_step s s' \<Longrightarrow> threads_ok s \<Longrightarrow> fifo_ok s \<Longrightarrow> fifo_ok s'"
  by (erule disp_stepE) (auto simp: fifo_ok_def threads_ok_def queued_out_def disp_ops Let_def split: if_splits list.splits)

lemma mset_take_drop: "mset (take n q) + mset (drop n q) = mset q"
  by (simp flip: mset_append)

lemma accepted_step [inv_intros]: "disp_step s s' \<Longrightarrow> threads_ok s \<Longrightarrow> accepted_ok s \<Longrightarrow> accepted_ok s'"
  by (erule disp_stepE) (auto simp: accepted_ok_def threads_ok_def disp_ops Let_def mset_take_drop split: if_splits list.splits)

lemma queue_bound_step:
  "disp_step s s' \<Longrightarrow> length (m_queue s) \<le> unat (m_queueSize s) \<Longrightarrow> length (m_queue s') \<le> unat (m_queueSize s')"
  by (erule disp_stepE) (auto simp: has_room_def disp_ops Let_def split: if_splits list.splits)

lemma dropped_step:
  "disp_step s s' \<Longrightarrow> m_droppedCount s = of_nat (length (refused s)) \<Longrightarrow> m_droppedCount s' = of_nat (length (refused s'))"
  by (erule disp_stepE) (auto simp: disp_ops Let_def split: if_splits list.splits)

lemma retrying_step:
  "disp_step s s' \<Longrightarrow> (\<forall>x \<in> set (retrying s). snd x = kWarn) \<Longrightarrow> (\<forall>x \<in> set (retrying s'). snd x = kWarn)"
  by (erule disp_stepE) (auto simp: disp_ops Let_def dest: set_remove1_subset [THEN subsetD] split: if_splits list.splits)

lemma refused_step:
  assumes "disp_step s s'" "\<forall>x \<in> set (refused s). \<not> isHighPriority (snd x)" "\<forall>x \<in> set (retrying s). snd x = kWarn"
  shows "\<forall>x \<in> set (refused s'). \<not> isHighPriority (snd x)"
  using assms(1)
proof (cases rule: disp_step.cases)
  case (Retry x r)
  then have "snd x = kWarn" using assms(3) by blast
  then have "\<not> isHighPriority (snd x)" by (simp add: isHighPriority_def)
  then show ?thesis using Retry assms(2) by (auto simp: disp_ops Let_def split: if_splits)
qed (use assms(2) in \<open>auto simp: disp_ops Let_def split: if_splits list.splits\<close>)

lemma bounded_step [inv_intros]: "disp_step s s' \<Longrightarrow> bounded_ok s \<Longrightarrow> bounded_ok s'"
  unfolding bounded_ok_def using queue_bound_step dropped_step retrying_step refused_step by blast

lemma disp_inv_step: "disp_step s s' \<Longrightarrow> disp_inv s \<Longrightarrow> disp_inv s'"
  by (simp add: disp_inv_def threads_step fifo_step accepted_step bounded_step)

lemma disp_reach_inv: "disp_reach n s \<Longrightarrow> disp_inv s \<and> m_queueSize s = n"
proof (induction rule: disp_reach.induct)
  case Init
  then show ?case by (simp add: disp_inv_new) (simp add: disp_new_def)
next
  case (Step s s')
  have "m_queueSize s' = m_queueSize s" using Step.hyps(2)
    by (rule disp_stepE) (auto simp: disp_ops Let_def split: if_splits list.splits)
  with Step disp_inv_step show ?case by auto
qed

section \<open>Properties\<close>

text \<open>C12. 
  In every reachable state of the dispatcher the queue is within its bound; the lines that went through the
  queue reach the writer in the order they were accepted, each exactly once (what is written, then what the
  worker holds, then the queue, is what was enqueued); every line for which \<open>submit\<close> returned true is
  written or still held; what was refused is counted, and no error or fatal line is ever refused.
\<close>

theorem dispatcher_keeps_lines:
  "disp_reach n s \<Longrightarrow>
     length (m_queue s) \<le> unat n
     \<and> enqueued s = queued_out s @ in_hand (d_worker s) @ m_queue s
     \<and> mset (accepted s) = mset (map snd (written s)) + mset (in_hand (d_worker s)) + mset (m_queue s)
     \<and> m_droppedCount s = of_nat (length (refused s)) \<and> (\<forall>x \<in> set (refused s). \<not> isHighPriority (snd x))"
  using disp_reach_inv [of n s]
  by (auto simp: disp_inv_def fifo_ok_def accepted_ok_def bounded_ok_def)

definition one_line :: item where "one_line = (''up'', kInfo)"

definition after_submit :: "item \<Rightarrow> disp" where
  "after_submit x = snd (submit x (disp_start (disp_new 1)))"

lemma reach_started: "disp_reach n (disp_start (disp_new n))"
  by (rule disp_reach.Step [OF disp_reach.Init Start]) (simp add: disp_new_def)

lemma reach_after_submit: "disp_reach 1 (after_submit x)"
proof -
  have "disp_step (disp_start (disp_new 1)) (after_submit x)"
    by (rule Submit [of _ x "Some True"])
      (auto simp: after_submit_def submit_def has_room_def disp_start_def disp_new_def)
  then show ?thesis by (rule disp_reach.Step [OF reach_started])
qed

theorem dispatcher_keeps_lines_witness:
  "length (m_queue (after_submit one_line)) \<le> 1 \<and> enqueued (after_submit one_line) = queued_out (after_submit one_line) @ in_hand (d_worker (after_submit one_line)) @ m_queue (after_submit one_line)"
  using dispatcher_keeps_lines [OF reach_after_submit] by simp

text \<open>
  When \<open>stop\<close> has drained the queue, everything accepted has been written, whatever the other threads did
  up to that moment.
\<close>

theorem stop_loses_nothing:
  "disp_reach n s \<Longrightarrow> d_stop s = Draining \<Longrightarrow> m_queue s = [] \<Longrightarrow>
     mset (map snd (written s)) = mset (accepted s) \<and> queued_out s = enqueued s \<and> \<not> m_running (stop_drain s)"
  using disp_reach_inv [of n s]
  by (auto simp: disp_inv_def fifo_ok_def accepted_ok_def threads_ok_def stop_drain_def)

lemma after_submit_val:
  "after_submit x = (disp_new 1)\<lparr>m_running := True, d_worker := AtTest, m_queue := [x], accepted := [x], enqueued := [x]\<rparr>"
  by (simp add: after_submit_def submit_def has_room_def disp_start_def disp_new_def emplace_def)

definition waiting_line :: "item \<Rightarrow> disp" where "waiting_line x = worker_test (after_submit x)"
definition taken_line :: "item \<Rightarrow> disp" where "taken_line x = worker_take (waiting_line x)"
definition draining_none :: disp where
  "draining_none = stop_join (worker_test (worker_write [] (worker_write [one_line] (stop_begin (taken_line one_line)))))"

lemma waiting_line_val: "waiting_line x = (after_submit x)\<lparr>d_worker := Waiting\<rparr>"
  by (simp add: waiting_line_def worker_test_def after_submit_val)

lemma taken_line_val: "taken_line x = (after_submit x)\<lparr>d_worker := Writing [x], m_queue := []\<rparr>"
  by (simp add: taken_line_def worker_take_def waiting_line_val after_submit_val)

lemma reach_taken: "disp_reach 1 (taken_line x)"
proof -
  have "disp_reach 1 (waiting_line x)"
    unfolding waiting_line_def by (rule disp_reach.Step [OF reach_after_submit Test]) (simp add: after_submit_val)
  then show ?thesis unfolding taken_line_def by (rule disp_reach.Step [OF _ Take]) (simp add: waiting_line_val)
qed

lemma reach_draining_none: "disp_reach 1 draining_none"
proof -
  let ?a = "stop_begin (taken_line one_line)"
  let ?b = "worker_write [one_line] ?a"
  let ?c = "worker_write [] ?b"
  let ?d = "worker_test ?c"
  note v = taken_line_val after_submit_val stop_begin_def worker_write_def worker_test_def disp_new_def
  have "disp_reach 1 ?a" by (rule disp_reach.Step [OF reach_taken StopBegin]) (simp add: v)
  then have "disp_reach 1 ?b" by (rule disp_reach.Step [OF _ Write]) (simp add: v)
  then have "disp_reach 1 ?c" by (rule disp_reach.Step [OF _ Write]) (simp add: v)
  then have "disp_reach 1 ?d" by (rule disp_reach.Step [OF _ Test]) (simp add: v)
  then show ?thesis unfolding draining_none_def by (rule disp_reach.Step [OF _ StopJoin]) (simp_all add: v)
qed

theorem stop_loses_nothing_witness:
  "mset (map snd (written draining_none)) = mset (accepted draining_none) \<and> queued_out draining_none = enqueued draining_none
   \<and> \<not> m_running (stop_drain draining_none)"
  by (rule stop_loses_nothing [OF reach_draining_none])
    (simp_all add: draining_none_def stop_join_def worker_test_def worker_write_def stop_begin_def taken_line_val after_submit_val disp_new_def)

text \<open>
  \<open>flush\<close> waits for an empty queue, not for the writer: a state is reachable in which it returns although
  an accepted line is only in the worker's hands.  A fatal line is no exception, so an abort right after
  the flush loses it.
\<close>

theorem flush_returns_before_write:
  "\<exists>s. disp_reach 1 s \<and> flush_satisfied s \<and> (''fatal'', kFatal) \<in> set (accepted s) \<and> (''fatal'', kFatal) \<notin> set (map snd (written s))"
  by (intro exI conjI, rule reach_taken [of "(''fatal'', kFatal)"])
    (simp_all add: taken_line_val after_submit_val flush_satisfied_def disp_new_def)

text \<open>
  After \<open>stop\<close>, \<open>submit\<close> still answers true while there is room, and no step short of a restart brings such
  a line to the writer.
\<close>

theorem submit_after_stop_is_lost:
  assumes "\<not> m_running s" "d_worker s = NoThread" "d_stop s = NotStopping" "has_room s"
  shows "fst (submit x s) = Some True \<and>
    (\<forall>s'. disp_step (snd (submit x s)) s' \<and> \<not> m_running s' \<longrightarrow>
       queued_out s' = queued_out s \<and> d_worker s' = NoThread \<and> d_stop s' = NotStopping \<and> x \<in> set (m_queue s'))"
proof (intro conjI allI impI)
  show "fst (submit x s) = Some True" using assms by (simp add: submit_def)
  fix s'
  assume step: "disp_step (snd (submit x s)) s' \<and> \<not> m_running s'"
  have v: "snd (submit x s) = emplace x s" using assms by (simp add: submit_def)
  from step show "queued_out s' = queued_out s" "d_worker s' = NoThread" "d_stop s' = NotStopping" "x \<in> set (m_queue s')"
    using assms unfolding v
    by (auto elim!: disp_stepE simp: disp_ops Let_def queued_out_def split: if_splits)
qed

theorem submit_after_stop_is_lost_witness:
  "fst (submit one_line (stop_drain draining_none)) = Some True
   \<and> (\<forall>s'. disp_step (snd (submit one_line (stop_drain draining_none))) s' \<and> \<not> m_running s' \<longrightarrow>
        queued_out s' = queued_out (stop_drain draining_none) \<and> d_worker s' = NoThread \<and> d_stop s' = NotStopping
        \<and> one_line \<in> set (m_queue s'))"
  by (rule submit_after_stop_is_lost)
    (simp_all add: draining_none_def stop_drain_def stop_join_def worker_test_def worker_write_def stop_begin_def taken_line_val
       after_submit_val disp_new_def has_room_def)

end
