(* ===== verification/Log_Sinks.thy ===== *)
theory Log_Sinks
  imports Log_Fields
begin

text \<open>
  The sinks: \<open>ConsoleSink\<close> (\<open>src/log/log_console_sink.cpp\<close>), \<open>RollingFileSink\<close>
  (\<open>log_rolling_file_sink.cpp\<close>) over the directory of the service's log files, and \<open>SinkManager\<close>
  (\<open>log_sink_manager.cpp\<close>), which falls back to \<open>stderr\<close>.  The answers of the C library (a terminal, a
  short write, a file that cannot be opened) are arguments of the operation that asks.
\<close>

section \<open>ConsoleSink\<close>

text \<open>What was printed on the two streams.\<close>

record streams =
  t_out :: string
  t_err :: string

record ConsoleSink =
  c_available :: bool

definition esc :: "string \<Rightarrow> string" where
  "esc s = CHR 0x1B # s"

fun ansiColorForLevel :: "LogLevel \<Rightarrow> string option" where
  "ansiColorForLevel kTrace = Some (esc ''[2m'')"
| "ansiColorForLevel kDebug = Some (esc ''[2m'')"
| "ansiColorForLevel kInfo = Some (esc ''[32m'')"
| "ansiColorForLevel kWarn = Some (esc ''[33m'')"
| "ansiColorForLevel kError = Some (esc ''[31m'')"
| "ansiColorForLevel kFatal = Some (esc ''[31m'')"
| "ansiColorForLevel kOff = None"

text \<open>\<open>std::string::find\<close>.\<close>

fun find_sub :: "string \<Rightarrow> string \<Rightarrow> nat option" where
  "find_sub pat [] = (if pat = [] then Some 0 else None)"
| "find_sub pat (c # s) =
     (if take (length pat) (c # s) = pat then Some 0 else map_option Suc (find_sub pat s))"

record console_io =
  io_isatty :: bool
  io_fwrite :: "nat option"

text \<open>\<open>io_fwrite\<close> is None when all bytes are written, else how many.\<close>

definition console_text :: "bool \<Rightarrow> string \<Rightarrow> LogLevel \<Rightarrow> string" where
  "console_text useColor line lvl =
     (case (if useColor then ansiColorForLevel lvl else None) of
        Some color \<Rightarrow>
          (let marker = ''['' @ map tolower (logLevelToString lvl) @ '']'' in
           (case find_sub marker line of
              Some pos \<Rightarrow> take pos line @ color @ take (length marker) (drop pos line) @ esc ''[0m''
                            @ drop (pos + length marker) line
            | None \<Rightarrow> line) @ [CHR 0x0A])
      | None \<Rightarrow> line @ [CHR 0x0A])"

definition fwritten :: "nat option \<Rightarrow> string \<Rightarrow> string" where
  "fwritten w output = (case w of None \<Rightarrow> output | Some n \<Rightarrow> take n output)"

definition full_write :: "nat option \<Rightarrow> string \<Rightarrow> bool" where
  "full_write w output \<longleftrightarrow> length (fwritten w output) = length output"

definition console_write :: "console_io \<Rightarrow> string \<Rightarrow> LogLevel \<Rightarrow> ConsoleSink \<Rightarrow> streams \<Rightarrow> bool \<times> ConsoleSink \<times> streams" where
  "console_write io line lvl c t =
     (if \<not> c_available c then (False, c, t)
      else
        (let isError = (lvl \<ge> kError);
             output = console_text (io_isatty io) line lvl;
             t' = (if isError then t\<lparr>t_err := t_err t @ fwritten (io_fwrite io) output\<rparr>
                   else t\<lparr>t_out := t_out t @ fwritten (io_fwrite io) output\<rparr>) in
         if \<not> full_write (io_fwrite io) output then (False, c\<lparr>c_available := False\<rparr>, t') else (True, c, t')))"

section \<open>RollingFileSink\<close>

text \<open>The directory \<open>root/service\<close> is the list of its entries in the order \<open>readdir\<close> delivers them.\<close>

type_synonym dir = "(string \<times> string) list"

text \<open>\<open>m_file\<close> is the name of the open file.\<close>

record RollingFileSink =
  m_config :: FileConfig
  rf_service :: string
  m_currentPath :: string
  m_file :: "string option"
  m_currentSize :: nat
  m_currentIndex :: u32
  m_available :: bool

record file_io =
  fo_fwrite :: "nat option"
  fo_count :: bool
  fo_scan :: bool
  fo_remove :: bool
  fo_fopen :: bool
  fo_stat :: bool

definition getFilePath :: "string \<Rightarrow> u32 \<Rightarrow> string" where
  "getFilePath svc index = svc @ ''_'' @ show_nat (unat index) @ ''.log''"

definition is_log_name :: "string \<Rightarrow> string \<Rightarrow> bool" where
  "is_log_name svc name \<longleftrightarrow> take (length svc + 1) name = svc @ ''_'' \<and> find_sub ''.log'' name \<noteq> None"

definition fopen_append :: "string \<Rightarrow> dir \<Rightarrow> dir" where
  "fopen_append name d = (if name \<in> set (map fst d) then d else d @ [(name, [])])"

definition append_to :: "string \<Rightarrow> string \<Rightarrow> dir \<Rightarrow> dir" where
  "append_to name s d = map (\<lambda>(n, c). if n = name then (n, c @ s) else (n, c)) d"

definition content_of :: "string \<Rightarrow> dir \<Rightarrow> string" where
  "content_of name d = (case map_of d name of None \<Rightarrow> [] | Some c \<Rightarrow> c)"

definition remove_file :: "string \<Rightarrow> dir \<Rightarrow> dir" where
  "remove_file name d = filter (\<lambda>f. fst f \<noteq> name) d"

definition openNewFile :: "file_io \<Rightarrow> RollingFileSink \<Rightarrow> dir \<Rightarrow> bool \<times> RollingFileSink \<times> dir" where
  "openNewFile io r d =
     (let name = getFilePath (rf_service r) (m_currentIndex r);
          r1 = r\<lparr>m_file := None, m_currentPath := name\<rparr> in
      if \<not> fo_fopen io then (False, r1, d)
      else
        (let d1 = fopen_append name d in
         (True, r1\<lparr>m_file := Some name, m_currentSize := (if fo_stat io then length (content_of name d1) else 0)\<rparr>, d1)))"

definition rolling_new :: "file_io \<Rightarrow> FileConfig \<Rightarrow> string \<Rightarrow> dir \<Rightarrow> RollingFileSink \<times> dir" where
  "rolling_new io config svc d =
     (let r = \<lparr>m_config = config, rf_service = svc, m_currentPath = [], m_file = None, m_currentSize = 0, m_currentIndex = 0,
               m_available = False\<rparr>;
          (ok, r1, d1) = openNewFile io r d
      in (r1\<lparr>m_available := ok\<rparr>, d1))"

definition countFiles :: "file_io \<Rightarrow> string \<Rightarrow> dir \<Rightarrow> nat" where
  "countFiles io svc d = (if \<not> fo_count io then 0 else length (filter (\<lambda>f. is_log_name svc (fst f)) d))"

text \<open>\<open>std::stoul\<close> in base 10 and the cast to \<open>uint32_t\<close>; None is \<open>invalid_argument\<close> or \<open>out_of_range\<close>.\<close>

definition stoul32 :: "string \<Rightarrow> u32 option" where
  "stoul32 s =
     (let t = dropWhile isspace s;
          neg = (t \<noteq> [] \<and> hd t = CHR ''-'');
          u = (if t \<noteq> [] \<and> (hd t = CHR ''-'' \<or> hd t = CHR ''+'') then tl t else t);
          ds = takeWhile isdigit u
      in if ds = [] \<or> digits_value ds \<ge> 2 ^ 64 then None
         else Some (if neg then - of_nat (digits_value ds) else of_nat (digits_value ds)))"

definition index_text :: "string \<Rightarrow> string \<Rightarrow> string" where
  "index_text svc name =
     (let start = length svc + 1; stop = the (find_sub ''.log'' name)
      in if stop < start then drop start name else take (stop - start) (drop start name))"

text \<open>The scan of \<open>removeOldestFile\<close>: the least index and its file; None when \<open>stoul\<close> throws.\<close>

fun oldest_loop :: "string \<Rightarrow> dir \<Rightarrow> u32 \<times> string \<Rightarrow> (u32 \<times> string) option" where
  "oldest_loop svc [] best = Some best"
| "oldest_loop svc ((name, c) # d) best =
     (if is_log_name svc name then
        (case stoul32 (index_text svc name) of
           None \<Rightarrow> None
         | Some idx \<Rightarrow> oldest_loop svc d (if idx < fst best then (idx, name) else best))
      else oldest_loop svc d best)"

definition removeOldestFile :: "file_io \<Rightarrow> string \<Rightarrow> dir \<Rightarrow> dir option" where
  "removeOldestFile io svc d =
     (if \<not> fo_scan io then Some d
      else case oldest_loop svc d (- 1, []) of
        None \<Rightarrow> None
      | Some (_, oldestFile) \<Rightarrow> Some (if oldestFile \<noteq> [] \<and> fo_remove io then remove_file oldestFile d else d))"

definition rotateIfNeeded :: "file_io \<Rightarrow> RollingFileSink \<Rightarrow> dir \<Rightarrow> (RollingFileSink \<times> dir) option" where
  "rotateIfNeeded io r d =
     (if m_currentSize r < unat (max_file_size_mb (m_config r)) * 1024 * 1024 then Some (r, d)
      else case (if countFiles io (rf_service r) d \<ge> unat (max_files (m_config r))
                 then removeOldestFile io (rf_service r) d else Some d) of
        None \<Rightarrow> None
      | Some d1 \<Rightarrow>
          (let (ok, r1, d2) = openNewFile io (r\<lparr>m_currentIndex := m_currentIndex r + 1\<rparr>) d1 in Some (r1, d2)))"

text \<open>None is an exception out of \<open>write\<close>; the line is in the file by then.\<close>

definition rolling_write :: "file_io \<Rightarrow> string \<Rightarrow> RollingFileSink \<Rightarrow> dir \<Rightarrow> (bool \<times> RollingFileSink \<times> dir) option" where
  "rolling_write io line r d =
     (case (m_available r, m_file r) of
        (True, Some name) \<Rightarrow>
          (let output = line @ [CHR 0x0A];
               d1 = append_to name (fwritten (fo_fwrite io) output) d in
           if \<not> full_write (fo_fwrite io) output then Some (False, r\<lparr>m_available := False\<rparr>, d1)
           else case rotateIfNeeded io (r\<lparr>m_currentSize := m_currentSize r + length output\<rparr>) d1 of
             None \<Rightarrow> None
           | Some (r1, d2) \<Rightarrow> Some (True, r1, d2))
      | _ \<Rightarrow> Some (False, r, d))"

text \<open>\<open>cleanup\<close> removes every log file of the service; \<open>removable\<close> says which removals succeed.\<close>

definition cleanup :: "bool \<Rightarrow> (string \<Rightarrow> bool) \<Rightarrow> RollingFileSink \<Rightarrow> dir \<Rightarrow> nat \<times> dir" where
  "cleanup opens removable r d =
     (if \<not> opens then (0, d)
      else (length (filter (\<lambda>f. is_log_name (rf_service r) (fst f) \<and> removable (fst f)) d),
            filter (\<lambda>f. \<not> (is_log_name (rf_service r) (fst f) \<and> removable (fst f))) d))"

section \<open>SinkManager\<close>

record SinkManager =
  m_consoleSink :: "ConsoleSink option"
  m_fileSink :: "RollingFileSink option"
  m_stderrFallback :: bool
  m_consecutiveFailures :: nat
  sm_streams :: streams
  sm_dir :: dir

definition sinks_new :: "file_io \<Rightarrow> LogConfig \<Rightarrow> string \<Rightarrow> streams \<Rightarrow> dir \<Rightarrow> SinkManager" where
  "sinks_new io config svc t d =
     (let console = (if console_enabled config then Some \<lparr>c_available = True\<rparr> else None) in
      if file_enabled (file_config config)
      then (let (r, d1) = rolling_new io (file_config config) svc d in
            \<lparr>m_consoleSink = console, m_fileSink = Some r, m_stderrFallback = False, m_consecutiveFailures = 0,
             sm_streams = t, sm_dir = d1\<rparr>)
      else \<lparr>m_consoleSink = console, m_fileSink = None, m_stderrFallback = False, m_consecutiveFailures = 0,
            sm_streams = t, sm_dir = d\<rparr>)"

definition write_console :: "console_io \<Rightarrow> string \<Rightarrow> LogLevel \<Rightarrow> SinkManager \<Rightarrow> bool \<times> SinkManager" where
  "write_console io line lvl s =
     (case m_consoleSink s of
        Some c \<Rightarrow>
          (if c_available c
           then (let (ok, c1, t1) = console_write io line lvl c (sm_streams s)
                 in (ok, s\<lparr>m_consoleSink := Some c1, sm_streams := t1\<rparr>))
           else (False, s))
      | None \<Rightarrow> (False, s))"

definition write_file_sink :: "file_io \<Rightarrow> string \<Rightarrow> SinkManager \<Rightarrow> (bool \<times> SinkManager) option" where
  "write_file_sink io line s =
     (case m_fileSink s of
        Some r \<Rightarrow>
          (if m_available r
           then (case rolling_write io line r (sm_dir s) of
                   None \<Rightarrow> None
                 | Some (True, r1, d1) \<Rightarrow> Some (True, s\<lparr>m_fileSink := Some r1, sm_dir := d1, m_consecutiveFailures := 0\<rparr>)
                 | Some (False, r1, d1) \<Rightarrow>
                     (let n = m_consecutiveFailures s + 1 in
                      Some (False, s\<lparr>m_fileSink := Some r1, sm_dir := d1, m_consecutiveFailures := n,
                                     m_stderrFallback := (if n \<ge> 3 then True else m_stderrFallback s)\<rparr>)))
           else Some (False, s))
      | None \<Rightarrow> Some (False, s))"

definition sinks_write :: "console_io \<Rightarrow> file_io \<Rightarrow> string \<Rightarrow> LogLevel \<Rightarrow> SinkManager \<Rightarrow> (bool \<times> SinkManager) option" where
  "sinks_write cio fio line lvl s =
     (let (ok1, s1) = write_console cio line lvl s in
      case write_file_sink fio line s1 of
        None \<Rightarrow> None
      | Some (ok2, s2) \<Rightarrow>
          (if \<not> (ok1 \<or> ok2)
           then (let fallback = ''[LOG_FALLBACK] '' @ line @ [CHR 0x0A] in
                 Some (True, s2\<lparr>sm_streams := (sm_streams s2)\<lparr>t_err := t_err (sm_streams s2) @ fallback\<rparr>\<rparr>))
           else Some (True, s2)))"

definition hasAvailableSink :: "SinkManager \<Rightarrow> bool" where
  "hasAvailableSink s =
     (if (case m_consoleSink s of Some c \<Rightarrow> c_available c | None \<Rightarrow> False) then True
      else if (case m_fileSink s of Some r \<Rightarrow> m_available r | None \<Rightarrow> False) then True
      else m_stderrFallback s)"

section \<open>The directory\<close>

lemma content_append [simp]:
  "content_of n (append_to name s d) = (if n = name \<and> name \<in> set (map fst d) then content_of n d @ s else content_of n d)"
  by (induction d) (auto simp: content_of_def append_to_def rev_image_eqI)

lemma names_append [simp]: "map fst (append_to name s d) = map fst d"
  by (induction d) (auto simp: append_to_def)

lemma names_fopen [simp]: "set (map fst (fopen_append name d)) = insert name (set (map fst d))"
  by (auto simp: fopen_append_def)

lemma distinct_fopen: "distinct (map fst d) \<Longrightarrow> distinct (map fst (fopen_append name d))"
  by (simp add: fopen_append_def)

lemma distinct_remove: "distinct (map fst d) \<Longrightarrow> distinct (map fst (remove_file name d))"
  by (simp add: remove_file_def distinct_map_filter)

lemma names_remove: "set (map fst (remove_file name d)) = set (map fst d) - {name}"
  by (auto simp: remove_file_def)

lemma full_write_all [simp]: "full_write w output \<Longrightarrow> fwritten w output = output"
  by (auto simp: full_write_def fwritten_def split: option.splits)

text \<open>The open file is in the directory and its size is what the sink believes.\<close>

definition rolling_inv :: "RollingFileSink \<Rightarrow> dir \<Rightarrow> bool" where
  "rolling_inv r d \<longleftrightarrow> distinct (map fst d)
     \<and> (case m_file r of None \<Rightarrow> True | Some name \<Rightarrow> name \<in> set (map fst d) \<and> m_currentSize r = length (content_of name d))"

lemma openNewFile_inv:
  assumes "distinct (map fst d)" "fo_stat io" "openNewFile io r d = (ok, r', d')"
  shows "rolling_inv r' d' \<and> m_config r' = m_config r \<and> rf_service r' = rf_service r \<and> (ok \<longleftrightarrow> m_file r' \<noteq> None)"
proof -
  have "fst (x :: string \<times> string) \<in> fst ` set (fopen_append (fst x) d)" for x
    using names_fopen [of "fst x" d] by (metis insertI1 list.set_map)
  then show ?thesis
    using assms distinct_fopen [of d] names_fopen
    by (auto simp: openNewFile_def Let_def rolling_inv_def split: if_splits)
qed

lemma rolling_new_inv:
  assumes "distinct (map fst d)" "fo_stat io" "rolling_new io config svc d = (r, d')"
  shows "rolling_inv r d' \<and> (m_available r \<longleftrightarrow> m_file r \<noteq> None) \<and> rf_service r = svc \<and> m_config r = config"
proof -
  obtain ok r1 d1 where o: "openNewFile io \<lparr>m_config = config, rf_service = svc, m_currentPath = [], m_file = None,
      m_currentSize = 0, m_currentIndex = 0, m_available = False\<rparr> d = (ok, r1, d1)" by (rule prod_cases3)
  from openNewFile_inv [OF assms(1,2) o] assms(3) o show ?thesis
    by (auto simp: rolling_new_def Let_def rolling_inv_def)
qed

lemma removeOldest_distinct:
  "distinct (map fst d) \<Longrightarrow> removeOldestFile io svc d = Some d' \<Longrightarrow> distinct (map fst d')"
  by (auto simp: removeOldestFile_def distinct_remove split: if_splits option.splits)

lemma rotate_inv:
  assumes "rolling_inv r d" "fo_stat io" "rotateIfNeeded io r d = Some (r', d')"
  shows "rolling_inv r' d' \<and> m_config r' = m_config r \<and> rf_service r' = rf_service r"
proof (cases "m_currentSize r < unat (max_file_size_mb (m_config r)) * 1024 * 1024")
  case True
  with assms show ?thesis by (simp add: rotateIfNeeded_def)
next
  case False
  with assms(3) obtain d1 where d1: "(if countFiles io (rf_service r) d \<ge> unat (max_files (m_config r))
      then removeOldestFile io (rf_service r) d else Some d) = Some d1"
    and o: "\<exists>ok. openNewFile io (r\<lparr>m_currentIndex := m_currentIndex r + 1\<rparr>) d1 = (ok, r', d')"
    by (auto simp: rotateIfNeeded_def Let_def split: option.splits prod.splits)
  have "distinct (map fst d1)"
    using d1 assms(1) removeOldest_distinct by (auto simp: rolling_inv_def split: if_splits)
  with o openNewFile_inv [OF _ assms(2)] show ?thesis by fastforce
qed

lemma rolling_write_inv:
  assumes "rolling_inv r d" "fo_stat io" "rolling_write io line r d = Some (ok, r', d')"
  shows "rolling_inv r' d' \<or> \<not> ok \<and> \<not> m_available r'"
proof (cases "m_available r \<and> (\<exists>name. m_file r = Some name)")
  case True
  then obtain name where name: "m_file r = Some name" "m_available r" by blast
  let ?out = "line @ [CHR 0x0A]"
  let ?d1 = "append_to name (fwritten (fo_fwrite io) ?out) d"
  show ?thesis
  proof (cases "full_write (fo_fwrite io) ?out")
    case full: True
    from assms(1) name full have "rolling_inv (r\<lparr>m_currentSize := m_currentSize r + length ?out\<rparr>) ?d1"
      by (simp add: rolling_inv_def)
    moreover from assms(3) name full
    have "rotateIfNeeded io (r\<lparr>m_currentSize := m_currentSize r + length ?out\<rparr>) ?d1 = Some (r', d')"
      by (auto simp: rolling_write_def Let_def split: option.splits)
    ultimately show ?thesis using rotate_inv [OF _ assms(2)] by blast
  next
    case False
    with assms(3) name show ?thesis by (auto simp: rolling_write_def Let_def)
  qed
next
  case False
  with assms(1,3) show ?thesis by (auto simp: rolling_write_def split: bool.splits option.splits)
qed

section \<open>How many files\<close>

definition log_count :: "string \<Rightarrow> dir \<Rightarrow> nat" where
  "log_count svc d = length (filter (\<lambda>f. is_log_name svc (fst f)) d)"

text \<open>Every entry that counts as a log file of the service has a number in its name.\<close>

definition numbered :: "string \<Rightarrow> dir \<Rightarrow> bool" where
  "numbered svc d \<longleftrightarrow> list_all (\<lambda>f. is_log_name svc (fst f) \<longrightarrow>
     (case stoul32 (index_text svc (fst f)) of None \<Rightarrow> False | Some i \<Rightarrow> i \<noteq> - 1)) d"

lemma log_count_append [simp]: "log_count svc (append_to name s d) = log_count svc d"
  unfolding log_count_def append_to_def by (induction d) (auto split: if_splits)

lemma log_count_fopen: "log_count svc (fopen_append name d) \<le> log_count svc d + 1"
  by (simp add: log_count_def fopen_append_def)

lemma log_count_open: "openNewFile io r d = (ok, r', d') \<Longrightarrow> log_count svc d' \<le> log_count svc d + 1"
  using log_count_fopen [of svc "getFilePath (rf_service r) (m_currentIndex r)" d]
  by (auto simp: openNewFile_def Let_def split: if_splits)

lemma not_max_less: "(i :: u32) \<noteq> - 1 \<Longrightarrow> i < - 1"
  by (simp add: less_le)

lemma oldest_loop_finds:
  "numbered svc d \<Longrightarrow> \<exists>m nm. oldest_loop svc d best = Some (m, nm)
     \<and> ((m, nm) = best \<or> (\<exists>c. (nm, c) \<in> set d \<and> is_log_name svc nm))
     \<and> (fst best = - 1 \<and> 0 < log_count svc d \<longrightarrow> (\<exists>c. (nm, c) \<in> set d \<and> is_log_name svc nm))"
proof (induction d arbitrary: best)
  case Nil
  then show ?case by (cases best) (simp add: log_count_def)
next
  case (Cons f d)
  obtain name c where f: "f = (name, c)" by (rule prod.exhaust)
  from Cons.prems have tail: "numbered svc d" by (simp add: numbered_def)
  show ?case
  proof (cases "is_log_name svc name")
    case True
    with Cons.prems f obtain i where i: "stoul32 (index_text svc name) = Some i" "i < - 1"
      by (auto simp: numbered_def dest: not_max_less split: option.splits)
    from Cons.IH [OF tail, of "if i < fst best then (i, name) else best"] True i f
    show ?thesis by (cases "i < fst best") (auto simp: log_count_def)
  next
    case False
    with Cons.IH [OF tail, of best] f show ?thesis by (auto simp: log_count_def)
  qed
qed

lemma log_count_remove:
  "distinct (map fst d) \<Longrightarrow> (nm, c) \<in> set d \<Longrightarrow> is_log_name svc nm \<Longrightarrow> log_count svc (remove_file nm d) = log_count svc d - 1"
proof (induction d)
  case (Cons f d)
  have same: "remove_file nm d = d" if "nm \<notin> fst ` set d"
    using that by (auto simp: remove_file_def filter_id_conv)
  have pos: "0 < log_count svc d" if "(nm, c) \<in> set d"
    using that Cons.prems(3) by (force simp: log_count_def filter_empty_conv)
  show ?case
  proof (cases "fst f = nm")
    case True
    with Cons.prems same show ?thesis by (auto simp: remove_file_def log_count_def)
  next
    case False
    with Cons.prems have mem: "(nm, c) \<in> set d" by auto
    with Cons False pos [OF mem] show ?thesis by (auto simp: remove_file_def log_count_def)
  qed
qed simp

lemma numbered_append [simp]: "numbered svc (append_to name s d) = numbered svc d"
  unfolding numbered_def append_to_def by (induction d) (auto split: if_splits)

lemma remove_oldest_count:
  assumes "numbered svc d" "distinct (map fst d)" "fo_scan io" "fo_remove io" "0 < log_count svc d"
  shows "\<exists>d'. removeOldestFile io svc d = Some d' \<and> log_count svc d' = log_count svc d - 1"
proof -
  from oldest_loop_finds [OF assms(1), of "(- 1, [])"] assms(5) obtain m nm c
    where o: "oldest_loop svc d (- 1, []) = Some (m, nm)" and nm: "(nm, c) \<in> set d" "is_log_name svc nm" by auto
  have "nm \<noteq> []" using nm(2) by (auto simp: is_log_name_def)
  with o log_count_remove [OF assms(2) nm] assms(3,4) show ?thesis by (simp add: removeOldestFile_def)
qed

definition disk_works :: "file_io \<Rightarrow> bool" where
  "disk_works io \<longleftrightarrow> fo_fwrite io = None \<and> fo_count io \<and> fo_scan io \<and> fo_remove io \<and> fo_fopen io \<and> fo_stat io"

lemma rotate_count:
  assumes io: "disk_works io" and d: "distinct (map fst d)" "numbered (rf_service r) d"
    and K: "0 < unat (max_files (m_config r))" "unat (max_files (m_config r)) \<le> K" "log_count (rf_service r) d \<le> K"
  shows "\<exists>r' d'. rotateIfNeeded io r d = Some (r', d') \<and> log_count (rf_service r) d' \<le> K"
proof (cases "m_currentSize r < unat (max_file_size_mb (m_config r)) * 1024 * 1024")
  case True
  with K(3) show ?thesis by (simp add: rotateIfNeeded_def)
next
  case rot: False
  have cnt: "countFiles io (rf_service r) d = log_count (rf_service r) d"
    using io by (simp add: countFiles_def log_count_def disk_works_def)
  have "\<exists>d2. (if countFiles io (rf_service r) d \<ge> unat (max_files (m_config r))
      then removeOldestFile io (rf_service r) d else Some d) = Some d2 \<and> log_count (rf_service r) d2 + 1 \<le> K"
  proof (cases "unat (max_files (m_config r)) \<le> log_count (rf_service r) d")
    case True
    with K(1) have pos: "0 < log_count (rf_service r) d" by linarith
    have scan: "fo_scan io" "fo_remove io" using io by (simp_all add: disk_works_def)
    from remove_oldest_count [OF d(2,1) scan pos] pos K(3) True show ?thesis by (auto simp: cnt)
  next
    case False
    with K(2) show ?thesis by (simp add: cnt)
  qed
  then obtain d2 where d2: "(if countFiles io (rf_service r) d \<ge> unat (max_files (m_config r))
      then removeOldestFile io (rf_service r) d else Some d) = Some d2" "log_count (rf_service r) d2 + 1 \<le> K" by blast
  obtain ok r3 d3 where o: "openNewFile io (r\<lparr>m_currentIndex := m_currentIndex r + 1\<rparr>) d2 = (ok, r3, d3)" by (rule prod_cases3)
  from log_count_open [OF o, of "rf_service r"] d2(2) have "log_count (rf_service r) d3 \<le> K" by linarith
  with rot d2(1) o show ?thesis by (simp add: rotateIfNeeded_def)
qed

section \<open>Properties\<close>

text \<open>C36. 
  A write on a working disk keeps the sink's own bookkeeping exact (the open file exists and its size is
  \<open>m_currentSize\<close>) and never lets the number of log files grow past the larger of \<open>max_files\<close> and what was
  there; in particular the configured bound, once met, is kept.
\<close>

theorem rolling_write_bounded:
  assumes "rolling_inv r d" "disk_works io" "m_available r" "m_file r \<noteq> None" "numbered (rf_service r) d"
    and "0 < unat (max_files (m_config r))" "unat (max_files (m_config r)) \<le> K" "log_count (rf_service r) d \<le> K"
  shows "\<exists>r' d'. rolling_write io line r d = Some (True, r', d') \<and> rolling_inv r' d' \<and> log_count (rf_service r) d' \<le> K"
proof -
  from assms(4) obtain name where name: "m_file r = Some name" by auto
  let ?out = "line @ [CHR 0x0A]"
  let ?d1 = "append_to name ?out d"
  let ?r1 = "r\<lparr>m_currentSize := m_currentSize r + length ?out\<rparr>"
  have full: "full_write (fo_fwrite io) ?out" "fwritten (fo_fwrite io) ?out = ?out"
    using assms(2) by (simp_all add: disk_works_def full_write_def fwritten_def)
  have "distinct (map fst ?d1)" using assms(1) by (simp add: rolling_inv_def)
  then obtain r' d' where rd: "rotateIfNeeded io ?r1 ?d1 = Some (r', d')" "log_count (rf_service r) d' \<le> K"
    using rotate_count [OF assms(2), of ?d1 ?r1 K] assms(5-8) by auto
  then have w: "rolling_write io line r d = Some (True, r', d')"
    using name assms(3) full by (simp add: rolling_write_def Let_def)
  have "fo_stat io" using assms(2) by (simp add: disk_works_def)
  from rd(2) rolling_write_inv [OF assms(1) this w] w show ?thesis by blast
qed

definition good_disk :: file_io where
  "good_disk = \<lparr>fo_fwrite = None, fo_count = True, fo_scan = True, fo_remove = True, fo_fopen = True, fo_stat = True\<rparr>"

lemma good_disk_fields: "fo_fwrite good_disk = None" "fo_fopen good_disk" "fo_stat good_disk"
  by (simp_all add: good_disk_def)

lemma sample_names:
  "is_log_name ''svc'' ''svc_0.log''" "is_log_name ''svc'' ''svc_1.log''" "is_log_name ''svc'' ''svc_2.log''"
  "is_log_name ''svc'' ''svc_old.log''" "\<not> is_log_name ''svc'' ''other''"
  by (simp_all add: is_log_name_def)

lemma sample_indices:
  "stoul32 (index_text ''svc'' ''svc_0.log'') = Some 0" "stoul32 (index_text ''svc'' ''svc_1.log'') = Some 1"
  "stoul32 (index_text ''svc'' ''svc_2.log'') = Some 2" "stoul32 (index_text ''svc'' ''svc_old.log'') = None"
  by (simp_all add: stoul32_def index_text_def isspace_def isdigit_def code_of_def digits_value_def digit_val_def)

text \<open>A limit of 0 MB rotates on every write.\<close>

definition tiny_config :: FileConfig where
  "tiny_config = \<lparr>file_enabled = True, file_root = ''/var/log/tbox'', max_file_size_mb = 0, max_files = 2, total_budget_mb = 0\<rparr>"

definition tiny_sink :: RollingFileSink where
  "tiny_sink = \<lparr>m_config = tiny_config, rf_service = ''svc'', m_currentPath = ''svc_1.log'', m_file = Some ''svc_1.log'',
     m_currentSize = 2, m_currentIndex = 1, m_available = True\<rparr>"

definition tiny_dir :: dir where
  "tiny_dir = [(''svc_0.log'', ''a''), (''svc_1.log'', ''bc''), (''other'', ''x'')]"

theorem rolling_write_bounded_witness:
  "\<exists>r' d'. rolling_write good_disk ''line'' tiny_sink tiny_dir = Some (True, r', d') \<and> rolling_inv r' d' \<and> log_count ''svc'' d' \<le> 2"
proof -
  have "rolling_inv tiny_sink tiny_dir" by (simp add: rolling_inv_def tiny_sink_def tiny_dir_def content_of_def)
  moreover have "numbered (rf_service tiny_sink) tiny_dir" "log_count (rf_service tiny_sink) tiny_dir \<le> 2"
    by (simp_all add: numbered_def log_count_def tiny_sink_def tiny_dir_def sample_names sample_indices)
  ultimately show ?thesis
    using rolling_write_bounded [of tiny_sink tiny_dir good_disk 2 "''line''"]
    by (simp add: tiny_sink_def tiny_config_def disk_works_def good_disk_def)
qed

text \<open>
  After a restart the sink numbers its files from 0 again.  When the files on disk carry higher numbers, the
  file it fills next is the one the rotation takes for the oldest: the line that fills it is acknowledged
  and then deleted, and the directory is exactly what the previous run left, however often this repeats.
\<close>

definition restart_config :: FileConfig where
  "restart_config = \<lparr>file_enabled = True, file_root = ''/var/log/tbox'', max_file_size_mb = 1, max_files = 2, total_budget_mb = 2\<rparr>"

lemma restart_names:
  "getFilePath ''svc'' 0 = ''svc_0.log''" "getFilePath ''svc'' 1 = ''svc_1.log''"
  by code_simp+

theorem restart_deletes_newest:
  assumes "length line = 1048576"
  shows "\<exists>r'. (case rolling_new good_disk restart_config ''svc'' [(''svc_1.log'', a), (''svc_2.log'', b)] of
       (r, d) \<Rightarrow> rolling_write good_disk line r d = Some (True, r', [(''svc_1.log'', a), (''svc_2.log'', b)]))"
proof -
  let ?old = "[(''svc_1.log'', a), (''svc_2.log'', b)]"
  let ?full = "?old @ [(''svc_0.log'', line @ [CHR 0x0A])]"
  have new: "rolling_new good_disk restart_config ''svc'' ?old =
      (\<lparr>m_config = restart_config, rf_service = ''svc'', m_currentPath = ''svc_0.log'', m_file = Some ''svc_0.log'',
        m_currentSize = 0, m_currentIndex = 0, m_available = True\<rparr>, ?old @ [(''svc_0.log'', [])])"
    by (simp add: rolling_new_def openNewFile_def good_disk_def fopen_append_def content_of_def restart_names Let_def)
  have max: "(0 :: u32) < - 1" "(1 :: u32) < - 1" by (simp_all add: word_less_def unsigned_minus_1_eq_mask mask_eq_exp_minus_1)
  have oldest: "oldest_loop ''svc'' ?full (- 1, []) = Some (0, ''svc_0.log'')"
    using max by (simp add: sample_names sample_indices)
  have count: "countFiles good_disk ''svc'' ?full = 3"
    by (simp add: countFiles_def good_disk_def sample_names)
  have removed: "removeOldestFile good_disk ''svc'' ?full = Some ?old"
    using oldest by (simp add: removeOldestFile_def good_disk_def remove_file_def)
  show ?thesis
    unfolding new using assms count removed
    by (auto simp: rolling_write_def rotateIfNeeded_def append_to_def full_write_def fwritten_def restart_config_def
        openNewFile_def fopen_append_def restart_names good_disk_fields Let_def)
qed

theorem restart_deletes_newest_witness:
  "\<exists>r'. (case rolling_new good_disk restart_config ''svc'' [(''svc_1.log'', ''a''), (''svc_2.log'', ''b'')] of
     (r, d) \<Rightarrow> rolling_write good_disk (replicate 1048576 (CHR ''x'')) r d = Some (True, r', [(''svc_1.log'', ''a''), (''svc_2.log'', ''b'')]))"
  by (rule restart_deletes_newest) simp

text \<open>
  A file in the directory that merely looks like a log file of the service (its name has no number) makes
  the rotation throw out of \<open>write\<close>.
\<close>

theorem foreign_name_throws:
  "rolling_write good_disk line tiny_sink ((''svc_old.log'', c) # tiny_dir) = None"
  by (simp add: rolling_write_def rotateIfNeeded_def tiny_sink_def tiny_dir_def tiny_config_def append_to_def full_write_def
      fwritten_def good_disk_def countFiles_def removeOldestFile_def sample_names sample_indices)

section \<open>The manager\<close>

definition console_took :: "console_io \<Rightarrow> string \<Rightarrow> LogLevel \<Rightarrow> SinkManager \<Rightarrow> bool" where
  "console_took io line lvl s = (case m_consoleSink s of
     Some c \<Rightarrow> c_available c \<and> full_write (io_fwrite io) (console_text (io_isatty io) line lvl) | None \<Rightarrow> False)"

definition file_took :: "file_io \<Rightarrow> string \<Rightarrow> SinkManager \<Rightarrow> bool" where
  "file_took io line s = (case m_fileSink s of
     Some r \<Rightarrow> m_available r \<and> m_file r \<noteq> None \<and> full_write (fo_fwrite io) (line @ [CHR 0x0A]) | None \<Rightarrow> False)"

lemma write_console_took:
  "write_console io line lvl s = (ok, s') \<Longrightarrow> (ok \<longleftrightarrow> console_took io line lvl s)
     \<and> m_fileSink s' = m_fileSink s \<and> sm_dir s' = sm_dir s
     \<and> (ok \<longrightarrow> (if lvl \<ge> kError then t_err (sm_streams s') = t_err (sm_streams s) @ console_text (io_isatty io) line lvl
                   else t_out (sm_streams s') = t_out (sm_streams s) @ console_text (io_isatty io) line lvl))"
  by (auto simp: write_console_def console_took_def console_write_def Let_def split: option.splits if_splits)

lemma rolling_took:
  "rolling_write io line r d = Some (ok, r', d') \<Longrightarrow>
     (ok \<longleftrightarrow> m_available r \<and> m_file r \<noteq> None \<and> full_write (fo_fwrite io) (line @ [CHR 0x0A]))"
  by (auto simp: rolling_write_def Let_def split: bool.splits option.splits if_splits)

lemma write_file_took:
  "write_file_sink io line s = Some (ok, s') \<Longrightarrow> (ok \<longleftrightarrow> file_took io line s) \<and> sm_streams s' = sm_streams s"
  by (auto simp: write_file_sink_def file_took_def Let_def dest: rolling_took split: option.splits if_splits bool.splits prod.splits)

text \<open>What a write that returned has achieved: the line is printed in full on the console stream of its level,
  or appended in full to the open log file, or at the end of \<open>stderr\<close> with the fallback mark.\<close>

definition delivered :: "console_io \<Rightarrow> file_io \<Rightarrow> string \<Rightarrow> LogLevel \<Rightarrow> SinkManager \<Rightarrow> SinkManager \<Rightarrow> bool" where
  "delivered cio fio line lvl s s' \<longleftrightarrow>
     (if console_took cio line lvl s
      then (if lvl \<ge> kError then t_err (sm_streams s') = t_err (sm_streams s) @ console_text (io_isatty cio) line lvl
            else t_out (sm_streams s') = t_out (sm_streams s) @ console_text (io_isatty cio) line lvl)
      else file_took fio line s
         \<or> (\<exists>before. t_err (sm_streams s') = before @ ''[LOG_FALLBACK] '' @ line @ [CHR 0x0A]))"

lemma sinks_write_delivers:
  assumes "sinks_write cio fio line lvl s = Some (ok, s')"
  shows "ok \<and> delivered cio fio line lvl s s'"
proof -
  obtain ok1 s1 where c: "write_console cio line lvl s = (ok1, s1)" by (rule prod.exhaust)
  with assms obtain ok2 s2 where f: "write_file_sink fio line s1 = Some (ok2, s2)"
    by (auto simp: sinks_write_def split: option.splits prod.splits)
  have took: "file_took fio line s1 = file_took fio line s" using write_console_took [OF c] by (simp add: file_took_def)
  from assms c f write_console_took [OF c] write_file_took [OF f] took show ?thesis
    by (auto simp: sinks_write_def delivered_def Let_def split: if_splits)
qed

section \<open>The writer's contract\<close>

text \<open>
  What the dispatcher and the logger ask of the \<open>Writer\<close> they are given: a call that returns has delivered
  its line.  A batch is the loop of \<open>workerLoop\<close> and of \<open>stop\<close> over the lines taken; the answers of the
  outputs come with each line.
\<close>

locale line_writer =
  fixes put_line :: "'io \<Rightarrow> string \<Rightarrow> LogLevel \<Rightarrow> 's \<Rightarrow> (bool \<times> 's) option"
    and got :: "'io \<Rightarrow> string \<Rightarrow> LogLevel \<Rightarrow> 's \<Rightarrow> 's \<Rightarrow> bool"
  assumes put_got: "put_line io line lvl s = Some (ok, s') \<Longrightarrow> ok \<and> got io line lvl s s'"
begin

fun batch_run :: "('io \<times> string \<times> LogLevel) list \<Rightarrow> 's \<Rightarrow> 's option" where
  "batch_run [] s = Some s"
| "batch_run ((io, line, lvl) # rest) s =
     (case put_line io line lvl s of None \<Rightarrow> None | Some (ok, s') \<Rightarrow> batch_run rest s')"

lemma batch_append: "batch_run (xs @ ys) s = (case batch_run xs s of None \<Rightarrow> None | Some t \<Rightarrow> batch_run ys t)"
  by (induction xs s rule: batch_run.induct) (auto split: option.splits)

lemma batch_delivers_at:
  assumes "batch_run (xs @ (io, line, lvl) # ys) s = Some s'"
  shows "\<exists>a b. batch_run xs s = Some a \<and> got io line lvl a b \<and> batch_run ys b = Some s'"
  using assms by (auto simp: batch_append split: option.splits dest: put_got)

lemma batch_delivers:
  assumes "batch_run xs s = Some s'" "(io, line, lvl) \<in> set xs"
  shows "\<exists>a b. got io line lvl a b"
proof -
  from assms(2) obtain ys zs where "xs = ys @ (io, line, lvl) # zs" by (auto dest: split_list)
  with batch_delivers_at [of ys io line lvl zs s s'] assms(1) show ?thesis by blast
qed

end

text \<open>The writer of the registry is the sink manager.\<close>

interpretation sinks: line_writer "\<lambda>(cio, fio). sinks_write cio fio" "\<lambda>(cio, fio). delivered cio fio"
  by unfold_locales (auto split: prod.splits dest: sinks_write_delivers)

section \<open>Delivery\<close>

text \<open>The loop of the worker and of \<open>stop\<close> over the lines they took, with the answers of the outputs.\<close>

fun write_batch :: "((console_io \<times> file_io) \<times> string \<times> LogLevel) list \<Rightarrow> SinkManager \<Rightarrow> SinkManager option" where
  "write_batch [] s = Some s"
| "write_batch (((cio, fio), line, lvl) # rest) s =
     (case sinks_write cio fio line lvl s of None \<Rightarrow> None | Some (ok, s') \<Rightarrow> write_batch rest s')"

lemma write_batch_run: "write_batch xs s = sinks.batch_run xs s"
  by (induction xs s rule: write_batch.induct) (auto split: option.splits)

text \<open>No line is lost silently: when a batch comes back, every line of it was delivered by its own write, in
  the state the lines before it left and before the lines after it were written.
\<close>

theorem every_line_reaches_an_output:
  "write_batch (before @ ((cio, fio), line, lvl) # after) s = Some s' \<Longrightarrow>
     \<exists>a b. write_batch before s = Some a \<and> sinks_write cio fio line lvl a = Some (True, b) \<and> delivered cio fio line lvl a b
           \<and> write_batch after b = Some s'"
  using sinks.batch_append [of before "((cio, fio), line, lvl) # after" s]
  by (auto simp: write_batch_run split: option.splits dest: sinks_write_delivers)

definition broken_manager :: SinkManager where
  "broken_manager = \<lparr>m_consoleSink = Some \<lparr>c_available = True\<rparr>, m_fileSink = None, m_stderrFallback = False,
     m_consecutiveFailures = 0, sm_streams = \<lparr>t_out = [], t_err = []\<rparr>, sm_dir = []\<rparr>"

definition closed_pipe :: console_io where
  "closed_pipe = \<lparr>io_isatty = False, io_fwrite = Some 0\<rparr>"

definition two_lines :: "((console_io \<times> file_io) \<times> string \<times> LogLevel) list" where
  "two_lines = [((closed_pipe, good_disk), ''up'', kInfo)] @ ((closed_pipe, good_disk), ''down'', kError) # []"

definition two_result :: SinkManager where
  "two_result = the (write_batch two_lines broken_manager)"

theorem every_line_reaches_an_output_witness:
  "\<exists>a b. sinks_write closed_pipe good_disk ''down'' kError a = Some (True, b) \<and> delivered closed_pipe good_disk ''down'' kError a b
     \<and> write_batch [] b = Some two_result"
proof -
  have "write_batch two_lines broken_manager = Some two_result"
    unfolding two_result_def by code_simp
  from every_line_reaches_an_output [OF this [unfolded two_lines_def]] show ?thesis by blast
qed

end
