(* ===== verification/Log_Logger.thy ===== *)
theory Log_Logger
  imports Log_Format Log_Dispatch Log_Sinks
begin

text \<open>
  The registry, the loggers it hands out and the context scopes (\<open>src/log/log_logger.cpp\<close>).  A logger holds
  raw pointers to the registry's objects; the registry counts the generations of those objects, so that a
  pointer into an earlier generation can be told from a live one.
\<close>

section \<open>ContextScope\<close>

text \<open>The constructor returns the scope and the new thread-local context, the destructor restores it.\<close>

record scope =
  m_context :: LogContext
  m_previous :: "LogContext option"

definition scope_enter :: "LogContext \<Rightarrow> LogContext option \<Rightarrow> scope \<times> LogContext option" where
  "scope_enter ctx t_context = (\<lparr>m_context = ctx, m_previous = t_context\<rparr>, Some ctx)"

definition scope_exit :: "scope \<Rightarrow> LogContext option" where
  "scope_exit sc = m_previous sc"

text \<open>A thread's code as far as contexts go: points that look at the current context, and blocks that hold a
  scope object.\<close>

datatype code = Look | Block LogContext "code list"

fun observe :: "code list \<Rightarrow> LogContext option \<Rightarrow> LogContext option list \<times> LogContext option" where
  "observe [] cur = ([], cur)"
| "observe (Look # rest) cur = (let (seen, cur1) = observe rest cur in (cur # seen, cur1))"
| "observe (Block ctx body # rest) cur =
     (let (sc, cur1) = scope_enter ctx cur;
          (seen1, cur2) = observe body cur1;
          cur3 = scope_exit sc;
          (seen2, cur4) = observe rest cur3
      in (seen1 @ seen2, cur4))"

section \<open>LoggerRegistry\<close>

record registry =
  m_initialized :: bool
  r_generation :: nat
  m_enricher :: Enricher
  m_redactor :: RedactConfig
  m_levelFilter :: LevelFilter
  m_useStandardFormat :: bool
  m_dispatcher :: "disp option"
  m_sinkManager :: SinkManager

text \<open>\<open>raw_stderr\<close> is what \<open>forwardRaw\<close> prints before initialisation.\<close>

definition init :: "file_io \<Rightarrow> 64 word \<Rightarrow> 64 word \<Rightarrow> string \<Rightarrow> LogConfig \<Rightarrow> registry \<Rightarrow> (LogError \<times> string) \<times> registry" where
  "init fio now pid svc config reg =
     (if m_initialized reg then ((LogError.kOk, ''Already initialized''), reg)
      else ((LogError.kOk, []),
        \<lparr>m_initialized = True,
         r_generation = r_generation reg + 1,
         m_enricher = \<lparr>en_service = svc, m_startTime = now, m_pid = pid\<rparr>,
         m_redactor = redact_config config,
         m_levelFilter = filter_new config,
         m_useStandardFormat = (cfg_format config = ''standard''),
         m_dispatcher = (if async_enabled (async_config config)
                         then Some (disp_start (disp_new (queue_size (async_config config)))) else None),
         m_sinkManager = sinks_new fio config svc (sm_streams (m_sinkManager reg)) (sm_dir (m_sinkManager reg))\<rparr>))"

text \<open>A logger: None is the no-op logger of an uninitialised registry.\<close>

record logger =
  lg_module :: string
  lg_generation :: nat
  lg_async :: bool
  lg_standard :: bool

definition getLogger :: "string \<Rightarrow> registry \<Rightarrow> logger option" where
  "getLogger mdl reg =
     (if \<not> m_initialized reg then None
      else Some \<lparr>lg_module = mdl, lg_generation = r_generation reg, lg_async = (m_dispatcher reg \<noteq> None),
                 lg_standard = m_useStandardFormat reg\<rparr>)"

text \<open>What printing needs of the C library.\<close>

record 'd printing =
  p_double :: "'d \<Rightarrow> string"
  p_local :: "tm \<Rightarrow> tm"

datatype 'a outcome = Result 'a | Throws | Dangling

definition line_of :: "'d printing \<Rightarrow> clock \<Rightarrow> registry \<Rightarrow> logger \<Rightarrow> LogLevel \<Rightarrow> string \<Rightarrow> string \<Rightarrow> 'd Field list
    \<Rightarrow> LogContext option \<Rightarrow> string" where
  "line_of pr c reg lg lvl ev msg fs ctx =
     (let enriched = enrich (m_enricher reg) c fs lvl (lg_module lg) ev msg ctx;
          redacted = redact (m_redactor reg) enriched
      in if lg_standard lg then standard_format (p_double pr) (p_local pr) redacted else json_format (p_double pr) redacted)"

definition deliver :: "console_io \<Rightarrow> file_io \<Rightarrow> bool \<Rightarrow> string \<Rightarrow> LogLevel \<Rightarrow> registry \<Rightarrow> registry outcome" where
  "deliver cio fio async line lvl reg =
     (case (async, m_dispatcher reg) of
        (True, Some d) \<Rightarrow> Result (reg\<lparr>m_dispatcher := Some (snd (submit (line, lvl) d))\<rparr>)
      | _ \<Rightarrow>
          (case sinks_write cio fio line lvl (m_sinkManager reg) of
             None \<Rightarrow> Throws
           | Some (ok, s) \<Rightarrow> Result (reg\<lparr>m_sinkManager := s\<rparr>)))"

text \<open>\<open>Logger::Impl::log\<close>; \<open>Dangling\<close> is the use of an object that no longer exists.\<close>

definition logger_log :: "'d printing \<Rightarrow> clock \<Rightarrow> console_io \<Rightarrow> file_io \<Rightarrow> LogLevel \<Rightarrow> string \<Rightarrow> string \<Rightarrow> 'd Field list
    \<Rightarrow> LogContext option \<Rightarrow> logger \<Rightarrow> registry \<Rightarrow> registry outcome" where
  "logger_log pr c cio fio lvl ev msg fs ctx lg reg =
     (if lg_generation lg \<noteq> r_generation reg then Dangling
      else if \<not> shouldLog (m_levelFilter reg) lvl (lg_module lg) then Result reg
      else deliver cio fio (lg_async lg) (line_of pr c reg lg lvl ev msg fs ctx) lvl reg)"

text \<open>\<open>Logger::trace\<close> to \<open>error\<close>: nothing without an implementation.\<close>

definition log_call :: "'d printing \<Rightarrow> clock \<Rightarrow> console_io \<Rightarrow> file_io \<Rightarrow> LogLevel \<Rightarrow> string \<Rightarrow> string \<Rightarrow> 'd Field list
    \<Rightarrow> LogContext option \<Rightarrow> logger option \<Rightarrow> registry \<Rightarrow> registry outcome" where
  "log_call pr c cio fio lvl ev msg fs ctx m_impl reg =
     (case m_impl of None \<Rightarrow> Result reg | Some lg \<Rightarrow> logger_log pr c cio fio lvl ev msg fs ctx lg reg)"

definition forwardRaw :: "console_io \<Rightarrow> file_io \<Rightarrow> string \<Rightarrow> LogLevel \<Rightarrow> registry \<Rightarrow> registry outcome" where
  "forwardRaw cio fio line lvl reg =
     (if \<not> m_initialized reg
      then (let s = m_sinkManager reg; t = sm_streams s in
            Result (reg\<lparr>m_sinkManager := s\<lparr>sm_streams := t\<lparr>t_err := t_err t @ line @ [CHR 0x0A]\<rparr>\<rparr>\<rparr>))
      else deliver cio fio True line lvl reg)"

text \<open>\<open>Logger::flush\<close>: \<open>wait\<close> is what the worker does to the dispatcher until its queue is empty or the time is
  up; the flush of the sinks only moves buffers of the C library.\<close>

definition logger_flush :: "(disp \<Rightarrow> disp) \<Rightarrow> logger option \<Rightarrow> registry \<Rightarrow> registry outcome" where
  "logger_flush wait m_impl reg =
     (case m_impl of
        None \<Rightarrow> Result reg
      | Some lg \<Rightarrow>
          if lg_generation lg \<noteq> r_generation reg then Dangling
          else Result (if lg_async lg then reg\<lparr>m_dispatcher := map_option wait (m_dispatcher reg)\<rparr> else reg))"

text \<open>\<open>Logger::fatal\<close>, up to its \<open>abort\<close>.\<close>

definition logger_fatal :: "'d printing \<Rightarrow> clock \<Rightarrow> console_io \<Rightarrow> file_io \<Rightarrow> (disp \<Rightarrow> disp) \<Rightarrow> string \<Rightarrow> string \<Rightarrow> 'd Field list
    \<Rightarrow> LogContext option \<Rightarrow> logger option \<Rightarrow> registry \<Rightarrow> registry outcome" where
  "logger_fatal pr c cio fio wait ev msg fs ctx m_impl reg =
     (case m_impl of
        None \<Rightarrow> Result reg
      | Some lg \<Rightarrow>
          (case logger_log pr c cio fio kFatal ev msg fs ctx lg reg of
             Result reg1 \<Rightarrow> logger_flush wait m_impl reg1
           | Throws \<Rightarrow> Throws
           | Dangling \<Rightarrow> Dangling))"

text \<open>\<open>stop\<close> without interference: what the worker holds, then the queue, is written.\<close>

definition stop_run :: "disp \<Rightarrow> disp" where
  "stop_run d =
     (if \<not> m_running d then d
      else d\<lparr>m_running := False, d_worker := NoThread, d_stop := NotStopping, m_queue := [],
              written := written d @ map (Pair True) (in_hand (d_worker d) @ m_queue d)\<rparr>)"

text \<open>The lines \<open>stop\<close> still has to write.\<close>

definition held :: "disp \<Rightarrow> item list" where
  "held d = (if m_running d then in_hand (d_worker d) @ m_queue d else [])"

text \<open>\<open>ios\<close> are the answers of the outputs, one for each line still to be written.\<close>

definition shutdown :: "(console_io \<times> file_io) list \<Rightarrow> registry \<Rightarrow> registry outcome" where
  "shutdown ios reg =
     (case m_dispatcher reg of
        None \<Rightarrow> Result (reg\<lparr>m_initialized := False\<rparr>)
      | Some d \<Rightarrow>
          (case write_batch (zip ios (held d)) (m_sinkManager reg) of
             None \<Rightarrow> Throws
           | Some s \<Rightarrow> Result (reg\<lparr>m_dispatcher := Some (stop_run d), m_sinkManager := s, m_initialized := False\<rparr>)))"

text \<open>The destructor of the registry at the end of the process: the same stop, the flag stays.\<close>

definition registry_destroy :: "(console_io \<times> file_io) list \<Rightarrow> registry \<Rightarrow> registry outcome" where
  "registry_destroy ios reg =
     (case m_dispatcher reg of
        None \<Rightarrow> Result reg
      | Some d \<Rightarrow>
          (case write_batch (zip ios (held d)) (m_sinkManager reg) of
             None \<Rightarrow> Throws
           | Some s \<Rightarrow> Result (reg\<lparr>m_dispatcher := Some (stop_run d), m_sinkManager := s\<rparr>)))"

section \<open>stop, step by step\<close>

lemma steps_trans: "disp_step\<^sup>*\<^sup>* a b \<Longrightarrow> disp_step b c \<Longrightarrow> disp_step\<^sup>*\<^sup>* a c"
  by (rule rtranclp.rtrancl_into_rtrancl)

lemma write_run:
  "d_worker d = Writing batch \<Longrightarrow> disp_step\<^sup>*\<^sup>* d (d\<lparr>d_worker := AtTest, written := written d @ map (Pair True) batch\<rparr>)"
proof (induction batch arbitrary: d)
  case Nil
  then have "disp_step d (d\<lparr>d_worker := AtTest\<rparr>)" using Write [OF Nil] by (simp add: worker_write_def)
  then show ?case by simp
next
  case (Cons x batch)
  let ?d = "d\<lparr>d_worker := Writing batch, written := written d @ [(True, x)]\<rparr>"
  have "disp_step d ?d" using Write [OF Cons.prems] by (simp add: worker_write_def)
  moreover have "disp_step\<^sup>*\<^sup>* ?d (?d\<lparr>d_worker := AtTest, written := written ?d @ map (Pair True) batch\<rparr>)"
    by (rule Cons.IH) simp
  ultimately show ?case by (simp add: converse_rtranclp_into_rtranclp)
qed

lemma drain_run:
  "d_stop d = Draining \<Longrightarrow> disp_step\<^sup>*\<^sup>* d (d\<lparr>d_stop := NotStopping, m_queue := [], written := written d @ map (Pair True) (m_queue d)\<rparr>)"
proof (induction "m_queue d" arbitrary: d)
  case Nil
  then have "stop_drain d = d\<lparr>d_stop := NotStopping, m_queue := [], written := written d @ map (Pair True) (m_queue d)\<rparr>"
    by (cases d) (simp add: stop_drain_def)
  with StopDrain [OF Nil(2)] show ?case by simp
next
  case (Cons x q)
  let ?d = "d\<lparr>m_queue := q, written := written d @ [(True, x)]\<rparr>"
  from Cons(2) have q: "m_queue d = x # q" by simp
  with StopDrain [OF Cons(3)] have "disp_step d ?d" by (simp add: stop_drain_def)
  moreover have "disp_step\<^sup>*\<^sup>* ?d (?d\<lparr>d_stop := NotStopping, m_queue := [], written := written ?d @ map (Pair True) (m_queue ?d)\<rparr>)"
    using Cons by (intro Cons(1)) simp_all
  ultimately show ?case using q by (simp add: converse_rtranclp_into_rtranclp)
qed

text \<open>From the worker at its test, with \<open>m_running\<close> cleared, the rest of \<open>stop\<close> runs to its end.\<close>

lemma stop_tail:
  assumes "d_worker d = AtTest" "\<not> m_running d" "d_stop d = Joining"
  shows "disp_step\<^sup>*\<^sup>* d (d\<lparr>d_worker := NoThread, d_stop := NotStopping, m_queue := [], written := written d @ map (Pair True) (m_queue d)\<rparr>)"
proof -
  have "disp_step d (d\<lparr>d_worker := Returned\<rparr>)" using Test [OF assms(1)] assms(2) by (simp add: worker_test_def)
  moreover have "disp_step (d\<lparr>d_worker := Returned\<rparr>) (d\<lparr>d_worker := NoThread, d_stop := Draining\<rparr>)"
    using StopJoin [of "d\<lparr>d_worker := Returned\<rparr>"] assms(3) by (simp add: stop_join_def)
  ultimately have "disp_step\<^sup>*\<^sup>* d (d\<lparr>d_worker := NoThread, d_stop := Draining\<rparr>)" by (simp add: steps_trans)
  with drain_run [of "d\<lparr>d_worker := NoThread, d_stop := Draining\<rparr>"] show ?thesis by (simp add: rtranclp_trans)
qed

lemma stop_run_steps:
  assumes inv: "threads_ok d" "m_running d" "d_stop d = NotStopping"
  shows "disp_step\<^sup>*\<^sup>* d (stop_run d)"
proof -
  let ?b = "d\<lparr>m_running := False, d_stop := Joining\<rparr>"
  have first: "disp_step d ?b" using StopBegin [OF inv(3)] inv(2) by (simp add: stop_begin_def)
  have writing: "disp_step\<^sup>*\<^sup>* c (c\<lparr>d_worker := NoThread, d_stop := NotStopping, m_queue := [],
      written := written c @ map (Pair True) (batch @ m_queue c)\<rparr>)"
    if "d_worker c = Writing batch" "\<not> m_running c" "d_stop c = Joining" for c batch
    using rtranclp_trans [OF write_run [OF that(1)] stop_tail] that by simp
  have "disp_step\<^sup>*\<^sup>* ?b (stop_run d)"
  proof (cases "d_worker d")
    case AtTest
    then show ?thesis using stop_tail [of ?b] inv by (simp add: stop_run_def)
  next
    case Waiting
    let ?c = "?b\<lparr>d_worker := Writing (take 64 (m_queue d)), m_queue := drop 64 (m_queue d)\<rparr>"
    have "disp_step ?b ?c" using Take [of ?b] Waiting by (simp add: worker_take_def)
    moreover have "map (Pair True) (take 64 (m_queue d)) @ map (Pair True) (drop 64 (m_queue d)) = map (Pair True) (m_queue d)"
      by (simp flip: map_append)
    ultimately show ?thesis using writing [of ?c] Waiting inv by (simp add: stop_run_def converse_rtranclp_into_rtranclp)
  next
    case (Writing batch)
    then show ?thesis using writing [of ?b] inv by (simp add: stop_run_def)
  qed (use inv in \<open>auto simp: threads_ok_def\<close>)
  with first show ?thesis by (rule converse_rtranclp_into_rtranclp)
qed

lemma steps_reach: "disp_step\<^sup>*\<^sup>* d d' \<Longrightarrow> disp_reach n d \<Longrightarrow> disp_reach n d'"
  by (induction rule: rtranclp_induct) (auto intro: disp_reach.Step)

section \<open>Properties\<close>

lemma observe_restores: "snd (observe cs cur) = cur"
  by (induction cs cur rule: observe.induct) (auto simp: Let_def scope_enter_def scope_exit_def split: prod.splits)

text \<open>The context each look sees: the one of the innermost enclosing block.\<close>

fun enclosing :: "code list \<Rightarrow> LogContext option \<Rightarrow> LogContext option list" where
  "enclosing [] cur = []"
| "enclosing (Look # rest) cur = cur # enclosing rest cur"
| "enclosing (Block ctx body # rest) cur = enclosing body (Some ctx) @ enclosing rest cur"

text \<open>
  Context scopes nest: code sees the context of the innermost scope around it, and after any code whose
  scopes are blocks the context is what it was before.
\<close>

theorem context_scopes_nest:
  "observe cs cur = (enclosing cs cur, cur)"
proof (induction cs cur rule: observe.induct)
  case (3 ctx body rest cur)
  then show ?case by (simp add: scope_enter_def scope_exit_def)
qed auto

text \<open>
  \<open>init\<close> never reports a failure, strict mode or not, and a second \<open>init\<close> changes nothing, whatever
  configuration it brings.
\<close>

theorem init_always_ok:
  "fst (fst (init fio now pid svc config reg)) = LogError.kOk
   \<and> m_initialized (snd (init fio now pid svc config reg))
   \<and> snd (init fio' now' pid' svc' config' (snd (init fio now pid svc config reg))) = snd (init fio now pid svc config reg)
   \<and> snd (init fio now pid svc (config\<lparr>cfg_strict := b\<rparr>) reg) = snd (init fio now pid svc config reg)"
  by (simp add: init_def filter_new_def sinks_new_def Let_def split: prod.splits)

text \<open>
  A logger obtained before a shutdown uses freed objects once the registry has been initialised again, at
  every level, filtered or not.
\<close>

theorem logger_dangles_after_reinit:
  "m_initialized reg \<Longrightarrow> shutdown ios reg = Result reg' \<Longrightarrow>
     log_call pr c cio fio lvl ev msg fs ctx (getLogger mdl reg) (snd (init fio' now pid svc config reg')) = Dangling"
  by (auto simp: shutdown_def init_def getLogger_def log_call_def logger_log_def split: option.splits)

definition idle_registry :: registry where
  "idle_registry = \<lparr>m_initialized = False, r_generation = 0, m_enricher = \<lparr>en_service = [], m_startTime = 0, m_pid = 0\<rparr>,
     m_redactor = redact_config default_config, m_levelFilter = filter_new default_config, m_useStandardFormat = True,
     m_dispatcher = None, m_sinkManager = broken_manager\<rparr>"

definition sync_registry :: registry where
  "sync_registry = snd (init good_disk 0 1 ''svc'' (default_config\<lparr>async_config := (async_config default_config)\<lparr>async_enabled := False\<rparr>\<rparr>) idle_registry)"

definition plain_printing :: "nat printing" where
  "plain_printing = \<lparr>p_double = show_nat, p_local = id\<rparr>"

theorem logger_dangles_after_reinit_witness:
  "log_call plain_printing noon closed_pipe good_disk kInfo ''e'' ''m'' [] None (getLogger ''net'' sync_registry)
     (snd (init good_disk 5 1 ''svc'' default_config (sync_registry\<lparr>m_initialized := False\<rparr>))) = Dangling"
  by (rule logger_dangles_after_reinit [where ios = "[]"])
    (simp_all add: sync_registry_def init_def idle_registry_def shutdown_def default_config_def)

text \<open>A fatal record before \<open>init\<close> aborts the process without a trace of it.\<close>

lemma fatal_before_init_is_silent:
  "\<not> m_initialized reg \<Longrightarrow> logger_fatal pr c cio fio wait ev msg fs ctx (getLogger mdl reg) reg = Result reg"
  by (simp add: logger_fatal_def getLogger_def)

text \<open>Without a dispatcher a fatal record is at the outputs when the process aborts; with one, it is in the
  dispatcher the wait started from.\<close>

lemma fatal_delivers_first:
  assumes "getLogger mdl reg = Some lg" "shouldLog (m_levelFilter reg) kFatal mdl"
  shows "logger_fatal pr c cio fio wait ev msg fs ctx (getLogger mdl reg) reg =
     (let line = line_of pr c reg lg kFatal ev msg fs ctx in
      case m_dispatcher reg of
        Some d \<Rightarrow> Result (reg\<lparr>m_dispatcher := Some (wait (snd (submit (line, kFatal) d)))\<rparr>)
      | None \<Rightarrow> (case sinks_write cio fio line kFatal (m_sinkManager reg) of
                  None \<Rightarrow> Throws | Some (ok, s) \<Rightarrow> Result (reg\<lparr>m_sinkManager := s\<rparr>)))"
  using assms
  by (auto simp: logger_fatal_def logger_log_def logger_flush_def deliver_def getLogger_def Let_def split: if_splits option.splits)

text \<open>C26. 
  From the call to the output: what a live logger does with a record depends on its fields only through the
  redactor's views of them, in either format, synchronous or queued, so no secret value and no hidden part
  of an identifier reaches any output; and a record below the module's level leaves no trace.
\<close>

theorem log_call_noninterference:
  "map (field_view (m_redactor reg)) fs = map (field_view (m_redactor reg)) gs \<Longrightarrow>
     log_call pr c cio fio lvl ev msg fs ctx lg reg = log_call pr c cio fio lvl ev msg gs ctx lg reg
     \<and> (\<forall>l. lg = Some l \<and> lg_generation l = r_generation reg \<and> \<not> shouldLog (m_levelFilter reg) lvl (lg_module l) \<longrightarrow>
          log_call pr c cio fio lvl ev msg fs ctx lg reg = Result reg)"
proof -
  assume "map (field_view (m_redactor reg)) fs = map (field_view (m_redactor reg)) gs"
  then have same: "redact (m_redactor reg) fs = redact (m_redactor reg) gs" by (rule redact_views)
  then have "line_of pr c reg l lvl ev msg fs ctx = line_of pr c reg l lvl ev msg gs ctx" for l
    by (simp add: line_of_def redact_enrich)
  then show ?thesis by (auto simp: log_call_def logger_log_def split: option.splits)
qed

theorem log_call_noninterference_witness:
  "log_call plain_printing noon closed_pipe good_disk kInfo ''e'' ''m'' [token_field ''abc''] None (getLogger ''net'' sync_registry) sync_registry
   = log_call plain_printing noon closed_pipe good_disk kInfo ''e'' ''m'' [token_field ''xyz''] None (getLogger ''net'' sync_registry) sync_registry"
proof -
  have "map (field_view (m_redactor sync_registry)) [token_field ''abc''] = map (field_view (m_redactor sync_registry)) [token_field ''xyz'']"
    by code_simp
  from log_call_noninterference [OF this] show ?thesis by blast
qed

text \<open>
  A registry that was shut down has nothing left to write when the process destroys it, and one that was not writes
  then what a shutdown would have written: no line twice, none less.
\<close>

lemma held_stop_run [simp]: "held (stop_run d) = []"
  by (simp add: held_def stop_run_def)

lemma stop_run_twice [simp]: "stop_run (stop_run d) = stop_run d"
  by (simp add: stop_run_def)

theorem destroy_writes_once:
  "shutdown ios reg = Result reg' \<Longrightarrow> registry_destroy ios' reg' = Result reg'"
  "registry_destroy ios reg = Result reg' \<longleftrightarrow> shutdown ios reg = Result (reg'\<lparr>m_initialized := False\<rparr>) \<and> m_initialized reg' = m_initialized reg"
  by (cases reg; cases reg'; auto simp: shutdown_def registry_destroy_def split: option.splits)+


definition async_registry :: registry where
  "async_registry = sync_registry\<lparr>m_dispatcher := Some (after_submit one_line)\<rparr>"

definition after_shutdown :: registry where
  "after_shutdown = (case shutdown [(closed_pipe, good_disk)] async_registry of Result r \<Rightarrow> r | _ \<Rightarrow> async_registry)"


end
