(* ===== verification/Log_Adapters.thy ===== *)
theory Log_Adapters
  imports Log_Logger
begin

text \<open>
  The bridges into the log registry: the spdlog adapter that turns legacy calls into raw lines
  (\<open>src/log/log_spdlog_adapter.cpp\<close>), the IPC adapter (\<open>src/ipc/ipc_log_adapter.cpp\<close>) and the emergency writer
  (\<open>src/log/log_emergency_writer.cpp\<close>).  spdlog itself is not modelled: the text it has formatted is an argument.
\<close>

section \<open>EmergencyWriter\<close>

text \<open>Both overloads measure the text with \<open>strlen\<close>; \<open>taken\<close> is how much the one \<open>write\<close> takes.\<close>

definition emergency_write :: "nat \<Rightarrow> string \<Rightarrow> string \<Rightarrow> string" where
  "emergency_write taken msg err = err @ take taken (takeWhile (\<lambda>c. c \<noteq> CHR 0x00) msg)"

section \<open>SpdlogAdapter\<close>

datatype spdlog_level = spd_trace | spd_debug | spd_info | spd_warn | spd_err | spd_critical | spd_off

fun mapSpdlogLevel :: "spdlog_level \<Rightarrow> LogLevel" where
  "mapSpdlogLevel spd_trace = kTrace"
| "mapSpdlogLevel spd_debug = kDebug"
| "mapSpdlogLevel spd_info = kInfo"
| "mapSpdlogLevel spd_warn = kWarn"
| "mapSpdlogLevel spd_err = kError"
| "mapSpdlogLevel spd_critical = kFatal"
| "mapSpdlogLevel spd_off = kFatal"

text \<open>\<open>formatted\<close> is the line spdlog's formatter gives; its final newline is dropped.\<close>

definition without_newline :: "string \<Rightarrow> string" where
  "without_newline formatted = (if formatted \<noteq> [] \<and> last formatted = CHR 0x0A then butlast formatted else formatted)"

definition sink_it :: "console_io \<Rightarrow> file_io \<Rightarrow> string \<Rightarrow> spdlog_level \<Rightarrow> registry \<Rightarrow> registry outcome" where
  "sink_it cio fio formatted lvl reg = forwardRaw cio fio (without_newline formatted) (mapSpdlogLevel lvl) reg"

text \<open>
  The adapter's static pointer and spdlog's default logger; the loggers \<open>installAsDefault\<close> makes are numbered.
\<close>

datatype default_logger = Foreign | FwLegacy nat

record spdlog =
  sp_inst :: "nat option"
  sp_default :: default_logger
  sp_made :: nat

definition installAsDefault :: "spdlog \<Rightarrow> spdlog" where
  "installAsDefault sp =
     (case sp_inst sp of
        Some _ \<Rightarrow> sp
      | None \<Rightarrow> \<lparr>sp_inst = Some (sp_made sp), sp_default = FwLegacy (sp_made sp), sp_made = sp_made sp + 1\<rparr>)"

definition uninstall :: "spdlog \<Rightarrow> spdlog" where
  "uninstall sp = sp\<lparr>sp_inst := None\<rparr>"

definition isInstalled :: "spdlog \<Rightarrow> bool" where
  "isInstalled sp \<longleftrightarrow> sp_inst sp \<noteq> None"

section \<open>IpcLogAdapter\<close>

record IpcLogAdapter =
  m_logger :: "logger option"
  m_peerService :: string

definition IpcLogAdapter_new :: "string \<Rightarrow> registry \<Rightarrow> IpcLogAdapter" where
  "IpcLogAdapter_new peer_service reg = \<lparr>m_logger = getLogger ''ipc'' reg, m_peerService = peer_service\<rparr>"

definition setPeerService :: "string \<Rightarrow> IpcLogAdapter \<Rightarrow> IpcLogAdapter" where
  "setPeerService s a = a\<lparr>m_peerService := s\<rparr>"

text \<open>\<open>info\<close>, \<open>warn\<close>, \<open>error\<close> and \<open>debug\<close>, by level.\<close>

definition adapter_log :: "'d printing \<Rightarrow> clock \<Rightarrow> console_io \<Rightarrow> file_io \<Rightarrow> LogLevel \<Rightarrow> string \<Rightarrow> string \<Rightarrow> 'd Field list
    \<Rightarrow> LogContext option \<Rightarrow> IpcLogAdapter \<Rightarrow> registry \<Rightarrow> registry outcome" where
  "adapter_log pr c cio fio lvl ev msg fs ctx a reg = log_call pr c cio fio lvl ev msg fs ctx (m_logger a) reg"

section \<open>Properties\<close>

text \<open>
  Legacy lines bypass the level filter: where a logger of the same registry drops a record below its module's
  level without a trace, the adapter queues the line, whatever the filter says, at the level it maps to, and
  with its text as spdlog gave it, unredacted.
\<close>

theorem legacy_lines_unfiltered:
  assumes "m_initialized reg" "m_dispatcher reg = Some d" "\<not> shouldLog (m_levelFilter reg) kDebug mdl"
  shows "log_call pr c cio fio kDebug ev msg fs ctx (getLogger mdl reg) reg = Result reg
     \<and> sink_it cio fio (text @ [CHR 0x0A]) spd_debug reg = Result (reg\<lparr>m_dispatcher := Some (snd (submit (text, kDebug) d))\<rparr>)"
  using assms by (simp add: log_call_def logger_log_def getLogger_def sink_it_def forwardRaw_def deliver_def without_newline_def)

theorem legacy_lines_unfiltered_witness:
  "sink_it closed_pipe good_disk (''password=x'' @ [CHR 0x0A]) spd_debug async_registry
     = Result (async_registry\<lparr>m_dispatcher := Some (snd (submit (''password=x'', kDebug) (after_submit one_line)))\<rparr>)"
proof -
  have "m_initialized async_registry" "m_dispatcher async_registry = Some (after_submit one_line)"
    by (simp_all add: async_registry_def sync_registry_def init_def idle_registry_def default_config_def)
  moreover have "\<not> shouldLog (m_levelFilter async_registry) kDebug ''net''"
    unfolding async_registry_def by code_simp
  ultimately show ?thesis using legacy_lines_unfiltered by blast
qed

text \<open>
  Installing is idempotent and makes at most one logger; uninstalling forgets it but leaves it the default,
  so legacy lines still arrive while \<open>isInstalled\<close> denies it, and the next installation makes a second one.
\<close>

theorem uninstalled_adapter_stays_default:
  "installAsDefault (installAsDefault sp) = installAsDefault sp
   \<and> isInstalled (installAsDefault sp)
   \<and> \<not> isInstalled (uninstall sp) \<and> sp_default (uninstall sp) = sp_default sp
   \<and> sp_made (installAsDefault (uninstall (installAsDefault sp))) = sp_made (installAsDefault sp) + 1"
  by (simp add: installAsDefault_def uninstall_def isInstalled_def split: option.splits)

text \<open>
  An IPC adapter made before the registry is initialised stays silent for good, whatever the registry becomes;
  and an adapter passes fields to the registry as they are.
\<close>

theorem early_adapter_is_silent:
  "\<not> m_initialized reg \<Longrightarrow>
     adapter_log pr c cio fio lvl ev msg fs ctx (setPeerService s (IpcLogAdapter_new peer reg)) reg' = Result reg'"
  by (simp add: adapter_log_def IpcLogAdapter_new_def setPeerService_def getLogger_def log_call_def)

theorem early_adapter_is_silent_witness:
  "adapter_log plain_printing noon closed_pipe good_disk kError ''ipc.down'' ''m'' [] None
     (setPeerService ''tsp'' (IpcLogAdapter_new ''prov'' idle_registry)) sync_registry = Result sync_registry"
  by (rule early_adapter_is_silent) (simp add: idle_registry_def)

end
