(* ===== verification/Application.thy ===== *)
theory Application
  imports Signals Config Log_Config Log_Adapters
begin

text \<open>
  The application's life cycle (\<open>src/application.cpp\<close>): loading the configuration, setting up logging and
  signals, and the service's hooks.  The hooks of the derived class (\<open>initialize\<close>,
  \<open>execute\<close>, \<open>cleanup\<close>), and the environment are arguments.  The text the code
  prints on \<open>stderr\<close> when a start fails is not modelled.
\<close>

section \<open>Logging\<close>

text \<open>\<open>buildLogConfig\<close>: the same keys as the adapter reads, from the merged tree, in its own order.\<close>

definition build_log :: "'d yaml_cpp \<Rightarrow> yaml \<Rightarrow> LogConfig \<Rightarrow> string + LogConfig" where
  "build_log Y logNode = in_turn
     [on_key Y logNode ''schema_version'' (set_to (\<lambda>v cfg. cfg\<lparr>schema_version := or_else (as_uint32 Y v) 1\<rparr>)),
      on_key Y logNode ''level'' (set_to (\<lambda>v cfg. cfg\<lparr>cfg_level := logLevelFromString (or_else (as_string Y v) ''INFO'')\<rparr>)),
      on_key Y logNode ''strict'' (set_to (\<lambda>v cfg. cfg\<lparr>cfg_strict := or_else (as_bool Y v) False\<rparr>)),
      on_key Y logNode ''format'' (set_to (\<lambda>v cfg. cfg\<lparr>cfg_format := or_else (as_string Y v) ''standard''\<rparr>)),
      on_key Y logNode ''async'' (read_async Y),
      on_key Y logNode ''console''
        (\<lambda>node. on_key Y node ''enabled'' (set_to (\<lambda>v cfg. cfg\<lparr>console_enabled := or_else (as_bool Y v) True\<rparr>))),
      on_key Y logNode ''file'' (read_file Y),
      on_key Y logNode ''redact'' (read_redact Y)]"

definition buildLogConfig :: "'d yaml_cpp \<Rightarrow> yaml \<Rightarrow> string \<Rightarrow> string + LogConfig" where
  "buildLogConfig Y config svc =
     (case subscript Y config ''common'' of
        Inl e \<Rightarrow> Inl e
      | Inr None \<Rightarrow> Inr default_config
      | Inr (Some c) \<Rightarrow>
          (case subscript Y c ''log'' of
             Inl e \<Rightarrow> Inl e
           | Inr None \<Rightarrow> Inr default_config
           | Inr (Some logNode) \<Rightarrow>
               in_turn [build_log Y logNode, on_key Y config svc (\<lambda>s. on_key Y s ''log'' (read_service Y))] default_config))"

text \<open>The result of a step: its value, or an exception, of the \<open>std::exception\<close> family or another.\<close>

datatype 'a step = Returns 'a | ThrowsStd string | ThrowsOther

definition setup_logging :: "'d yaml_cpp \<Rightarrow> bool \<Rightarrow> file_io \<Rightarrow> 64 word \<Rightarrow> 64 word \<Rightarrow> string \<Rightarrow> yaml \<Rightarrow> registry \<times> spdlog
    \<Rightarrow> bool step \<times> registry \<times> spdlog" where
  "setup_logging Y useFrameworkLog fio now pid svc config logs =
     (if \<not> useFrameworkLog then (Returns True, logs)
      else case buildLogConfig Y config svc of
        Inl what \<Rightarrow> (ThrowsStd what, logs)
      | Inr cfg \<Rightarrow>
          (let (reg, sp) = logs;
               bad = (le_code (log_validate cfg) \<noteq> LogError.kOk) in
           if bad \<and> cfg_strict cfg then (Returns False, logs)
           else
             (let cfg1 = (if bad then default_config else cfg);
                  (result, reg1) = init fio now pid svc cfg1 reg in
              if fst result \<noteq> LogError.kOk
              then (if cfg_strict cfg1 then (Returns False, reg1, sp)
                    else (Returns True, snd (init fio now pid svc default_config reg1), installAsDefault sp))
              else (Returns True, reg1, installAsDefault sp))))"

section \<open>Configuration\<close>

text \<open>\<open>find_last_of('/')\<close>.\<close>

definition dir_of :: "string \<Rightarrow> string" where
  "dir_of p = (if CHR ''/'' \<in> set p then rev (dropWhile (\<lambda>c. c \<noteq> CHR ''/'') (rev p)) else ''./'')"

definition config_roots :: "string list \<Rightarrow> string option \<Rightarrow> string list" where
  "config_roots roots env =
     (case env of
        Some custom \<Rightarrow> if custom \<noteq> [] then roots @ [dir_of custom] else roots
      | None \<Rightarrow> roots)"

text \<open>\<open>what\<close> is the text of the exception a merge throws.\<close>

definition load_config :: "'d yaml_cpp \<Rightarrow> string \<Rightarrow> (string \<Rightarrow> bool) \<Rightarrow> string option \<Rightarrow> string \<Rightarrow> string list \<Rightarrow> manager
    \<Rightarrow> yaml \<Rightarrow> bool step \<times> manager \<times> yaml" where
  "load_config Y what ex env svc roots m config =
     (case loadInternal Y ex svc (config_roots roots env) m of
        (None, m1) \<Rightarrow> (ThrowsStd what, m1, config)
      | (Some err, m1) \<Rightarrow>
          if err \<noteq> ConfigError.kOk then (Returns False, m1, config)
          else (Returns True, m1, toYaml Y m1))"

section \<open>run\<close>

text \<open>The observable course of a run.\<close>

datatype event = Emergency string | Info string | Err string | Flushed | Initialize | Execute | Cleanup

text \<open>\<open>shutdown_requested_\<close> as it is when \<open>run\<close> looks, after \<open>cleanup\<close>.\<close>

record hooks =
  h_initialize :: "bool step"
  h_execute :: "int step"
  h_cleanup :: "unit step"
  h_shutdown :: bool

text \<open>None: an exception outside \<open>std::exception\<close> leaves \<open>run\<close>.\<close>

type_synonym course = "int option \<times> event list"

definition fatal_exit :: "string \<Rightarrow> event list \<Rightarrow> course" where
  "fatal_exit what tr = (Some (- 1), tr @ [Emergency (''application fatal: '' @ what @ [CHR 0x0A])])"

definition run_finish :: "hooks \<Rightarrow> int \<Rightarrow> event list \<Rightarrow> course" where
  "run_finish h result tr =
     (case h_cleanup h of
        ThrowsOther \<Rightarrow> (None, tr @ [Cleanup])
      | ThrowsStd what \<Rightarrow> fatal_exit what (tr @ [Cleanup])
      | Returns _ \<Rightarrow>
          (Some result, tr @ [Cleanup] @ (if h_shutdown h then [Info ''application.shutdown.requested''] else [])
             @ [Info ''application.stopped'', Flushed]))"

definition run_execute :: "hooks \<Rightarrow> event list \<Rightarrow> course" where
  "run_execute h tr =
     (case h_execute h of
        ThrowsOther \<Rightarrow> (None, tr @ [Execute])
      | ThrowsStd what \<Rightarrow> run_finish h (- 1) (tr @ [Execute, Err ''application.execute.exception''])
      | Returns r \<Rightarrow> run_finish h r (tr @ [Execute]))"

definition run_initialize :: "hooks \<Rightarrow> event list \<Rightarrow> course" where
  "run_initialize h tr =
     (case h_initialize h of
        ThrowsOther \<Rightarrow> (None, tr @ [Initialize])
      | ThrowsStd what \<Rightarrow> fatal_exit what (tr @ [Initialize])
      | Returns ok \<Rightarrow>
          if \<not> ok then (Some (- 1), tr @ [Initialize, Err ''application.initialize.failed'', Flushed])
          else run_execute h (tr @ [Initialize, Info ''application.started'']))"

definition run_signals :: "bool \<Rightarrow> hooks \<Rightarrow> event list \<Rightarrow> course" where
  "run_signals signals h tr =
     (if \<not> signals then (Some (- 1), tr @ [Err ''application.signal.install.failed'', Flushed])
      else run_initialize h (tr @ [Info ''application.signals.installed'']))"

definition run_logging :: "bool step \<Rightarrow> bool \<Rightarrow> hooks \<Rightarrow> event list \<Rightarrow> course" where
  "run_logging logging signals h tr =
     (case logging of
        ThrowsOther \<Rightarrow> (None, tr)
      | ThrowsStd what \<Rightarrow> fatal_exit what tr
      | Returns ok \<Rightarrow>
          if \<not> ok then (Some (- 1), tr)
          else run_signals signals h (tr @ [Info ''application.config.loaded'', Info ''application.logging.initialized'']))"

definition run_steps :: "bool step \<Rightarrow> bool step \<Rightarrow> bool \<Rightarrow> hooks \<Rightarrow> course" where
  "run_steps loaded logging signals h =
     (case loaded of
        ThrowsOther \<Rightarrow> (None, [])
      | ThrowsStd what \<Rightarrow> fatal_exit what []
      | Returns ok \<Rightarrow>
          if \<not> ok then (Some (- 1), [Emergency (''application config load failed, aborting'' @ [CHR 0x0A])])
          else run_logging logging signals h [])"

text \<open>\<open>run\<close> over the real steps: the environment of one start.\<close>

record 'd environment =
  e_yaml :: "'d yaml_cpp"
  e_merge_what :: string
  e_exists :: "string \<Rightarrow> bool"
  e_config_file :: "string option"
  e_service :: string
  e_roots :: "string list"
  e_use_log :: bool
  e_file_io :: file_io
  e_now :: "64 word"
  e_pid :: "64 word"
  e_sigaction :: "int \<Rightarrow> bool"
  e_graceful :: "int list"
  e_fatal :: "int list"
  e_ignored :: "int list"

definition run :: "'d environment \<Rightarrow> hooks \<Rightarrow> manager \<Rightarrow> registry \<times> spdlog
    \<Rightarrow> course \<times> manager \<times> registry \<times> spdlog" where
  "run e h m logs =
     (let (loaded, m1, config) = load_config (e_yaml e) (e_merge_what e) (e_exists e) (e_config_file e) (e_service e) (e_roots e) m YNull in
      if loaded \<noteq> Returns True then (run_steps loaded (Returns False) False h, m1, logs)
      else
        (let (logging, logs1) = setup_logging (e_yaml e) (e_use_log e) (e_file_io e) (e_now e) (e_pid e) (e_service e) config logs;
             signals = fst (setup_signal_handlers (e_sigaction e) (e_graceful e) (e_fatal e) (e_ignored e) (\<lambda>s. Default))
         in (run_steps loaded logging signals h, m1, logs1)))"

section \<open>The logging configuration\<close>

text \<open>A step that neither looks at the format nor sets it.\<close>

definition format_blind :: "(LogConfig \<Rightarrow> string + LogConfig) \<Rightarrow> bool" where
  "format_blind f \<longleftrightarrow> (\<forall>c x. f (c\<lparr>cfg_format := x\<rparr>) = map_sum id (\<lambda>c'. c'\<lparr>cfg_format := x\<rparr>) (f c))"

lemma format_blind_in_turn: "\<forall>f \<in> set fs. format_blind f \<Longrightarrow> format_blind (in_turn fs)"
proof (induction fs)
  case (Cons f fs)
  then have f: "format_blind f" and fs: "format_blind (in_turn fs)" by simp_all
  show ?case unfolding format_blind_def
  proof (intro allI)
    fix c x
    show "in_turn (f # fs) (c\<lparr>cfg_format := x\<rparr>) = map_sum id (\<lambda>c'. c'\<lparr>cfg_format := x\<rparr>) (in_turn (f # fs) c)"
      using f fs by (cases "f c") (simp_all add: format_blind_def)
  qed
qed (simp add: format_blind_def)

lemma format_blind_on_key: "(\<And>v. format_blind (body v)) \<Longrightarrow> format_blind (on_key Y node k body)"
  by (auto simp: format_blind_def on_key_def split: sum.splits option.splits)

lemma format_blind_set: "(\<And>c x. g v (c\<lparr>cfg_format := x\<rparr>) = (g v c)\<lparr>cfg_format := x\<rparr>) \<Longrightarrow> format_blind (set_to g v)"
  by (simp add: format_blind_def set_to_def)

lemmas blind_rules = format_blind_in_turn format_blind_on_key format_blind_set

lemma format_blind_async: "format_blind (read_async Y node)"
  unfolding read_async_def upd_async_def by (rule format_blind_in_turn) (auto intro!: blind_rules)

lemma format_blind_file: "format_blind (read_file Y node)"
  unfolding read_file_def upd_file_def by (rule format_blind_in_turn) (auto intro!: blind_rules)

lemma format_blind_redact: "format_blind (read_redact Y node)"
  unfolding read_redact_def upd_redact_def by (rule format_blind_in_turn) (auto intro!: blind_rules)

lemma on_key_scalar: "on_key Y (YScalar s) k body c = Inl (what_of Y (YScalar s))"
  by (simp add: on_key_def subscript_def)

lemma on_key_absent:
  "subscript Y node k = Inr None \<Longrightarrow> on_key Y node k body c = Inr c"
  by (simp add: on_key_def)

lemma format_moves:
  assumes "format_blind (in_turn fs)"
  shows "in_turn (on_key Y node ''format'' (set_to (\<lambda>v cfg. cfg\<lparr>cfg_format := or_else (as_string Y v) ''standard''\<rparr>)) # fs) c
       = (if \<exists>s. node = YScalar s then Inl (what_of Y node)
          else in_turn (fs @ [on_key Y node ''format'' (set_to (\<lambda>v cfg. cfg\<lparr>cfg_format := or_else (as_string Y v) ''standard''\<rparr>))]) c)"
proof (cases "\<exists>s. node = YScalar s")
  case True
  then show ?thesis by (auto simp: on_key_scalar)
next
  case False
  then obtain v where "subscript Y node ''format'' = Inr v" by (cases node) (auto simp: subscript_def)
  with False assms show ?thesis
    by (cases v; cases "in_turn fs c")
      (simp_all add: in_turn_append on_key_def set_to_def format_blind_def)
qed

lemma build_log_read_log: "build_log Y node c = read_log Y node c"
proof (cases "\<exists>s. node = YScalar s")
  case True
  then show ?thesis by (auto simp: build_log_def read_log_def on_key_scalar)
next
  case False
  let ?first = "[on_key Y node ''schema_version'' (set_to (\<lambda>v cfg. cfg\<lparr>schema_version := or_else (as_uint32 Y v) 1\<rparr>)),
      on_key Y node ''level'' (set_to (\<lambda>v cfg. cfg\<lparr>cfg_level := logLevelFromString (or_else (as_string Y v) ''INFO'')\<rparr>)),
      on_key Y node ''strict'' (set_to (\<lambda>v cfg. cfg\<lparr>cfg_strict := or_else (as_bool Y v) False\<rparr>))]"
  let ?format = "on_key Y node ''format'' (set_to (\<lambda>v cfg. cfg\<lparr>cfg_format := or_else (as_string Y v) ''standard''\<rparr>))"
  let ?rest = "[on_key Y node ''async'' (read_async Y),
      on_key Y node ''console''
        (\<lambda>n. on_key Y n ''enabled'' (set_to (\<lambda>v cfg. cfg\<lparr>console_enabled := or_else (as_bool Y v) True\<rparr>))),
      on_key Y node ''file'' (read_file Y),
      on_key Y node ''redact'' (read_redact Y)]"
  have "format_blind (in_turn ?rest)"
    by (rule format_blind_in_turn)
      (auto intro!: format_blind_on_key format_blind_async format_blind_file format_blind_redact format_blind_set)
  from format_moves [OF this, of Y node] False
  have moved: "in_turn (?format # ?rest) c' = in_turn (?rest @ [?format]) c'" for c' by auto
  have "build_log Y node c = (case in_turn ?first c of Inl e \<Rightarrow> Inl e | Inr c' \<Rightarrow> in_turn (?format # ?rest) c')"
    by (simp only: build_log_def in_turn_append [symmetric] append_Cons append_Nil)
  also have "\<dots> = (case in_turn ?first c of Inl e \<Rightarrow> Inl e | Inr c' \<Rightarrow> in_turn (?rest @ [?format]) c')"
    by (simp only: moved)
  also have "\<dots> = read_log Y node c"
    unfolding in_turn_append [of ?first "?rest @ [?format]" c, symmetric] read_log_def parseLevel_def
    by (simp only: append_Cons append_Nil)
  finally show ?thesis .
qed

text \<open>The application reads the same configuration as the adapter: from a merged tree whose \<open>common.log\<close> is
  present, \<open>buildLogConfig\<close> gives, exceptions included, what the adapter's reader gives for two texts that
  parse to the tree and to its section for the service.
\<close>

theorem build_log_config_as_adapter:
  assumes "parse Y commonYaml = Inr config" "serviceYaml \<noteq> []" "parse Y serviceYaml = Inr service"
    and "config = YMap m" "node_get ''common'' m = Some (YMap cm)" "node_get ''log'' cm = Some logNode"
    and "node_get svc m = Some service"
  shows "buildLogConfig Y config svc = load_texts Y commonYaml serviceYaml"
  using assms by (simp add: buildLogConfig_def load_texts_def subscript_def on_key_def build_log_read_log split: sum.split)

definition merged_tree :: yaml where
  "merged_tree = doc_of [(''common'', doc_of [(''log'', doc_of [(''level'', YScalar ''warn'')])]), (''tsp'', doc_of [(''log'', doc_of [])])]"

definition merged_texts :: "nat yaml_cpp" where
  "merged_texts = still\<lparr>parse := \<lambda>s. if s = ''common'' then Inr merged_tree else Inr (doc_of [(''log'', doc_of [])])\<rparr>"

theorem build_log_config_as_adapter_witness:
  "buildLogConfig merged_texts merged_tree ''tsp'' = load_texts merged_texts ''common'' ''service''"
proof (rule build_log_config_as_adapter)
  show "merged_tree = YMap [(YScalar ''common'', doc_of [(''log'', doc_of [(''level'', YScalar ''warn'')])]), (YScalar ''tsp'', doc_of [(''log'', doc_of [])])]"
    by (simp add: merged_tree_def doc_of_def)
  show "node_get ''common'' [(YScalar ''common'', doc_of [(''log'', doc_of [(''level'', YScalar ''warn'')])]), (YScalar ''tsp'', doc_of [(''log'', doc_of [])])]
      = Some (YMap [(YScalar ''log'', doc_of [(''level'', YScalar ''warn'')])])"
    by code_simp
  show "node_get ''log'' [(YScalar ''log'', doc_of [(''level'', YScalar ''warn'')])] = Some (doc_of [(''level'', YScalar ''warn'')])"
    by code_simp
  show "node_get ''tsp'' [(YScalar ''common'', doc_of [(''log'', doc_of [(''level'', YScalar ''warn'')])]), (YScalar ''tsp'', doc_of [(''log'', doc_of [])])]
      = Some (doc_of [(''log'', doc_of [])])"
    by code_simp
qed (simp_all add: merged_texts_def)

text \<open>The level a start filters with: the service's, else the common one.\<close>

lemma build_level:
  assumes "buildLogConfig Y config svc = Inr cfg" "log_level_of Y config [''common'', ''log''] = Some l"
  shows "cfg_level cfg = or_else (log_level_of Y config [svc, ''log'']) l"
proof -
  from assms(2) obtain m cm lm where at: "config = YMap m" "node_get ''common'' m = Some (YMap cm)" "node_get ''log'' cm = Some (YMap lm)"
    by (auto simp: log_level_of_def level_at_def split: option.splits yaml.splits)
  with assms(1) obtain c1 where c1: "read_log Y (YMap lm) default_config = Inr c1"
    and c2: "on_key Y config svc (\<lambda>s. on_key Y s ''log'' (read_service Y)) c1 = Inr cfg"
    by (auto simp: buildLogConfig_def subscript_def build_log_read_log split: sum.splits)
  have "cfg_level c1 = l"
    using read_log_level [OF c1] at assms(2) by (simp add: log_level_of_def or_else_def)
  moreover have "cfg_level cfg = or_else (log_level_of Y config [svc, ''log'']) (cfg_level c1)"
    using on_key_cases [OF c2] at
    by (auto simp: log_level_of_def or_else_def level_at_def split: yaml.splits option.splits dest!: on_key_cases read_service_level)
  ultimately show ?thesis by simp
qed

section \<open>setup_logging\<close>

lemma init_code: "init fio now pid svc cfg reg = (r, reg') \<Longrightarrow> fst r = LogError.kOk \<and> m_initialized reg'"
  by (auto simp: init_def split: if_splits)

text \<open>
  An invalid logging configuration stops a strict start before the registry is touched, and otherwise gives
  way to the default one; a valid one is the one the registry gets; no exception is caught here.
\<close>

theorem setup_logging_outcome:
  "setup_logging Y True fio now pid svc config (reg, sp) =
     (case buildLogConfig Y config svc of
        Inl what \<Rightarrow> (ThrowsStd what, reg, sp)
      | Inr cfg \<Rightarrow>
          if le_code (log_validate cfg) = LogError.kOk then (Returns True, snd (init fio now pid svc cfg reg), installAsDefault sp)
          else if cfg_strict cfg then (Returns False, reg, sp)
          else (Returns True, snd (init fio now pid svc default_config reg), installAsDefault sp))"
  by (auto simp: setup_logging_def Let_def dest: init_code split: prod.splits sum.splits)

text \<open>
  A section of the wrong shape escapes both policies: with \<open>common.log.async\<close> a scalar the reading throws,
  and the start is abandoned as fatal although the configuration is not strict.
\<close>

theorem malformed_section_aborts_start:
  "fst (setup_logging Y True fio now pid svc
      (doc_of [(''common'', doc_of [(''log'', doc_of [(''strict'', YScalar ''false''), (''async'', YScalar b)])])]) logs)
     = ThrowsStd (what_of Y (YScalar b))
   \<and> run_logging (ThrowsStd (what_of Y (YScalar b))) signals h []
     = (Some (- 1), [Emergency (''application fatal: '' @ what_of Y (YScalar b) @ [CHR 0x0A])])"
  by (simp add: setup_logging_def buildLogConfig_def subscript_def doc_of_def build_log_def on_key_def set_to_def
      read_async_def run_logging_def fatal_exit_def)

section \<open>The configuration roots\<close>

lemma dir_of_file: "CHR ''/'' \<notin> set f \<Longrightarrow> dir_of (d @ CHR ''/'' # f) = d @ [CHR ''/'']"
proof -
  assume "CHR ''/'' \<notin> set f"
  then have "dropWhile (\<lambda>c. c \<noteq> CHR ''/'') (rev f @ CHR ''/'' # rev d) = CHR ''/'' # rev d"
    by (subst dropWhile_append2) auto
  then show ?thesis by (simp add: dir_of_def)
qed

text \<open>
  Of the path in \<open>CONFIG_FILE\<close> only the directory counts: the loading looks there for files named after the
  layers, and never at the name the variable gives.
\<close>

theorem config_file_name_ignored:
  assumes "CHR ''/'' \<notin> set f" "CHR ''/'' \<notin> set g"
  shows "load_config Y what ex (Some (d @ CHR ''/'' # f)) svc roots m config = load_config Y what ex (Some (d @ CHR ''/'' # g)) svc roots m config
    \<and> config_roots roots (Some (d @ CHR ''/'' # f)) = roots @ [d @ [CHR ''/'']]"
  using assms by (simp add: load_config_def config_roots_def dir_of_file)

theorem config_file_name_ignored_witness:
  "config_roots [''/etc/tbox/''] (Some (''/opt'' @ CHR ''/'' # ''tsp.yaml'')) = [''/etc/tbox/''] @ [''/opt'' @ [CHR ''/'']]"
  using config_file_name_ignored [of "''tsp.yaml''" "''other.yaml''" still "[]" "\<lambda>p. False" "''/opt''" "''tsp''" "[''/etc/tbox/'']"]
  by simp

section \<open>The life cycle\<close>

definition hook_event :: "event \<Rightarrow> bool" where
  "hook_event e \<longleftrightarrow> e = Initialize \<or> e = Execute \<or> e = Cleanup"

lemma hook_event_simps [simp]:
  "hook_event Initialize" "hook_event Execute" "hook_event Cleanup" "\<not> hook_event Flushed"
  "\<not> hook_event (Emergency s)" "\<not> hook_event (Info s)" "\<not> hook_event (Err s)"
  by (simp_all add: hook_event_def)

text \<open>The hooks a start calls, and what it returns, as a contract on the outcomes of its steps.\<close>

definition expected_hooks :: "bool step \<Rightarrow> bool step \<Rightarrow> bool \<Rightarrow> hooks \<Rightarrow> event list" where
  "expected_hooks loaded logging signals h =
     (if loaded = Returns True \<and> logging = Returns True \<and> signals
      then [Initialize] @ (if h_initialize h = Returns True
             then [Execute] @ (if h_execute h = ThrowsOther then [] else [Cleanup]) else [])
      else [])"

definition expected_result :: "bool step \<Rightarrow> bool step \<Rightarrow> bool \<Rightarrow> hooks \<Rightarrow> int option" where
  "expected_result loaded logging signals h =
     (if ThrowsOther \<in> {loaded} \<or> loaded = Returns True \<and> logging = ThrowsOther then None
      else if \<not> (loaded = Returns True \<and> logging = Returns True \<and> signals) then Some (- 1)
      else if h_initialize h = ThrowsOther then None
      else if h_initialize h \<noteq> Returns True then Some (- 1)
      else if h_execute h = ThrowsOther \<or> h_cleanup h = ThrowsOther then None
      else case (h_execute h, h_cleanup h) of (Returns r, Returns _) \<Rightarrow> Some r | _ \<Rightarrow> Some (- 1))"

lemma run_finish_hooks: "filter hook_event (snd (run_finish h r tr)) = filter hook_event tr @ [Cleanup]"
  by (simp add: run_finish_def fatal_exit_def split: step.splits)

lemma run_finish_result:
  "fst (run_finish h r tr) = (case h_cleanup h of Returns _ \<Rightarrow> Some r | ThrowsStd _ \<Rightarrow> Some (- 1) | ThrowsOther \<Rightarrow> None)"
  by (simp add: run_finish_def fatal_exit_def split: step.splits)

lemma run_execute_hooks:
  "filter hook_event (snd (run_execute h tr)) = filter hook_event tr @ Execute # (if h_execute h = ThrowsOther then [] else [Cleanup])"
  by (cases "h_execute h") (simp_all add: run_execute_def run_finish_hooks)

lemma run_initialize_hooks:
  "filter hook_event (snd (run_initialize h tr)) = filter hook_event tr @ Initialize # (if h_initialize h = Returns True
     then Execute # (if h_execute h = ThrowsOther then [] else [Cleanup]) else [])"
  by (cases "h_initialize h") (simp_all add: run_initialize_def run_execute_hooks fatal_exit_def)

lemma run_result: "fst (run_steps loaded logging signals h) = expected_result loaded logging signals h"
proof -
  have execute: "fst (run_execute h tr) = (if h_execute h = ThrowsOther \<or> h_cleanup h = ThrowsOther then None
      else case (h_execute h, h_cleanup h) of (Returns r, Returns _) \<Rightarrow> Some r | _ \<Rightarrow> Some (- 1))" for tr
    by (cases "h_execute h"; cases "h_cleanup h") (simp_all add: run_execute_def run_finish_result)
  show ?thesis
    by (cases loaded; cases logging; cases "h_initialize h")
      (simp_all add: run_steps_def run_logging_def run_signals_def fatal_exit_def run_initialize_def execute expected_result_def)
qed


lemma load_ok_state:
  "loadInternal Y ex svc roots m = (Some ConfigError.kOk, m') \<Longrightarrow> m_loaded m' \<and> m_snapshot m' \<noteq> None"
  by (rule load_cases [of ex roots Y svc m])
    (auto simp: fail_load_def log_rule_validates dest: read_layers_code)

lemma installed_now: "isInstalled (installAsDefault sp)"
  by (simp add: isInstalled_def installAsDefault_def split: option.splits)

lemma setup_logging_ready:
  "setup_logging Y use fio now pid svc config logs = (Returns True, logs') \<Longrightarrow> use \<Longrightarrow>
     m_initialized (fst logs') \<and> isInstalled (snd logs')"
  by (auto simp: setup_logging_def Let_def installed_now dest!: init_code split: prod.splits sum.splits if_splits)

lemma load_config_ready:
  "load_config Y what ex env svc roots m config = (Returns True, m', config') \<Longrightarrow> m_loaded m' \<and> m_snapshot m' \<noteq> None \<and> config' = toYaml Y m'"
  by (auto simp: load_config_def dest!: load_ok_state split: prod.splits option.splits if_splits)

lemma initialize_called:
  "Initialize \<in> set (snd (run_steps loaded logging signals h)) \<Longrightarrow> loaded = Returns True \<and> logging = Returns True \<and> signals"
  by (auto simp: run_steps_def run_logging_def run_signals_def fatal_exit_def split: step.splits if_splits)


definition sample_env :: "nat environment" where
  "sample_env = \<lparr>e_yaml = files_lib sample_files both_yaml, e_merge_what = [], e_exists = sample_exists, e_config_file = None,
     e_service = ''svc'', e_roots = [''/etc/tbox''], e_use_log = False, e_file_io = good_disk, e_now = 0, e_pid = 1,
     e_sigaction = (\<lambda>s. True), e_graceful = gracefulSignals, e_fatal = fatalSignals, e_ignored = ignoredSignals\<rparr>"

definition plain_spdlog :: spdlog where
  "plain_spdlog = \<lparr>sp_inst = None, sp_default = Foreign, sp_made = 0\<rparr>"

definition sample_hooks :: hooks where
  "sample_hooks = \<lparr>h_initialize = Returns True, h_execute = Returns 3, h_cleanup = Returns (), h_shutdown = True\<rparr>"

lemma sample_initialized:
  "Initialize \<in> set (snd (fst (run sample_env sample_hooks manager_new (idle_registry, plain_spdlog))))"
proof -
  have "fst (load_config (e_yaml sample_env) (e_merge_what sample_env) (e_exists sample_env) (e_config_file sample_env)
      (e_service sample_env) (e_roots sample_env) manager_new YNull) = Returns True" by code_simp
  moreover have "fst (setup_signal_handlers (e_sigaction sample_env) (e_graceful sample_env) (e_fatal sample_env) (e_ignored sample_env) (\<lambda>s. Default))"
    by code_simp
  ultimately show ?thesis
    by (auto simp: run_def setup_logging_def sample_env_def sample_hooks_def run_steps_def run_logging_def run_signals_def
        run_initialize_def run_execute_def run_finish_def split: prod.splits)
qed


end
