(* ===== verification/Lifecycle.thy ===== *)
theory Lifecycle
  imports Application
begin

text \<open>
  The life of an application object from \<open>main\<close> to the exit of the process (\<open>include/application.h\<close>,
  \<open>src/application.cpp\<close>): the \<open>main\<close> that \<open>APPLICATION_ENTRY\<close> defines, the pointer the signal handler works
  through, signals and shutdown requests arriving between the looks of \<open>waitForShutdown\<close>, and the run that
  follows the wait.
\<close>

section \<open>Application objects and the signal handler\<close>

text \<open>\<open>g_app_instance\<close>, which objects are alive, and the flag of each.\<close>

record apps =
  g_app_instance :: "nat option"
  alive :: "nat \<Rightarrow> bool"
  shutdown_requested :: "nat \<Rightarrow> bool"

definition no_apps :: apps where
  "no_apps = \<lparr>g_app_instance = None, alive = (\<lambda>_. False), shutdown_requested = (\<lambda>_. False)\<rparr>"

definition Application_new :: "nat \<Rightarrow> apps \<Rightarrow> apps" where
  "Application_new this a =
     a\<lparr>g_app_instance := Some this, alive := (alive a)(this := True), shutdown_requested := (shutdown_requested a)(this := False)\<rparr>"

text \<open>The destructor is the default one: the pointer stays.\<close>

definition Application_destroy :: "nat \<Rightarrow> apps \<Rightarrow> apps" where
  "Application_destroy this a = a\<lparr>alive := (alive a)(this := False)\<rparr>"

definition isShutdownRequested :: "nat \<Rightarrow> apps \<Rightarrow> bool" where
  "isShutdownRequested this a = shutdown_requested a this"

definition requestShutdown :: "nat \<Rightarrow> apps \<Rightarrow> apps" where
  "requestShutdown this a = a\<lparr>shutdown_requested := (shutdown_requested a)(this := True)\<rparr>"

text \<open>What an arrival leads to: the process runs on, is over, or has written to an object that is gone.\<close>

datatype signal_outcome = Runs apps | Over effect | WildWrite

definition graceful_signal_handler :: "apps \<Rightarrow> signal_outcome" where
  "graceful_signal_handler a =
     (case g_app_instance a of
        None \<Rightarrow> Runs a
      | Some this \<Rightarrow> if alive a this then Runs (requestShutdown this a) else WildWrite)"

definition fatal_signal_handler :: "int \<Rightarrow> signal_outcome" where
  "fatal_signal_handler signal = Over (Exit (128 + signal))"

definition take_signal :: "(int \<Rightarrow> disposition) \<Rightarrow> int \<Rightarrow> apps \<Rightarrow> signal_outcome" where
  "take_signal tab s a =
     (case tab s of
        Graceful \<Rightarrow> graceful_signal_handler a
      | Fatal \<Rightarrow> fatal_signal_handler s
      | Ignored \<Rightarrow> Runs a
      | Default \<Rightarrow> Over DefaultAction)"

section \<open>Arrivals between the looks of a wait\<close>

datatype arrival = Signal int | Request

fun arrive :: "(int \<Rightarrow> disposition) \<Rightarrow> nat \<Rightarrow> arrival \<Rightarrow> apps \<Rightarrow> signal_outcome" where
  "arrive tab this (Signal s) a = take_signal tab s a"
| "arrive tab this Request a = Runs (requestShutdown this a)"

fun arrivals :: "(int \<Rightarrow> disposition) \<Rightarrow> nat \<Rightarrow> arrival list \<Rightarrow> apps \<Rightarrow> signal_outcome" where
  "arrivals tab this [] a = Runs a"
| "arrivals tab this (x # xs) a = (case arrive tab this x a of Runs a' \<Rightarrow> arrivals tab this xs a' | over \<Rightarrow> over)"

text \<open>\<open>batches n\<close> arrive before look \<open>n\<close> of the loop; what that look sees.\<close>

definition until_look :: "(nat \<Rightarrow> arrival list) \<Rightarrow> nat \<Rightarrow> arrival list" where
  "until_look batches n = concat (map batches [0..<Suc n])"

definition seen :: "(int \<Rightarrow> disposition) \<Rightarrow> nat \<Rightarrow> (nat \<Rightarrow> arrival list) \<Rightarrow> apps \<Rightarrow> nat \<Rightarrow> bool" where
  "seen tab this batches a n =
     (case arrivals tab this (until_look batches n) a of Runs a' \<Rightarrow> isShutdownRequested this a' | _ \<Rightarrow> False)"

section \<open>main\<close>

text \<open>\<open>APPLICATION_ENTRY\<close>: what the constructor of the service did, and the course of its \<open>run\<close>; the result is the
  value of \<open>main\<close>, the text on the error stream, and what happened.\<close>

definition app_main :: "unit step \<Rightarrow> course \<Rightarrow> int \<times> string \<times> event list" where
  "app_main constructed course =
     (case constructed of
        ThrowsStd what \<Rightarrow> (- 1, ''Application terminated with exception: '' @ what @ [CHR 0x0A], [])
      | ThrowsOther \<Rightarrow> (- 1, ''Application terminated with unknown exception'' @ [CHR 0x0A], [])
      | Returns _ \<Rightarrow>
          (case fst course of
             Some result \<Rightarrow> (result, [], snd course)
           | None \<Rightarrow> (- 1, ''Application terminated with unknown exception'' @ [CHR 0x0A], snd course)))"

section \<open>Waiting\<close>

lemma wait_is_first_look:
  "waitForShutdown poll flag = (if \<exists>n. flag n then Some (LEAST n. flag n, effective_poll poll) else None)"
proof (cases "\<exists>n. flag n")
  case True
  then obtain j where j: "wait_loop flag 0 = Some j" using wait_loop_stops [of flag _ 0] by blast
  then have "flag j" "\<forall>i < j. \<not> flag i" using wait_loop_first [OF j] by simp_all
  then have "(LEAST n. flag n) = j" by (metis LeastI_ex not_less_Least linorder_neqE_nat)
  then show ?thesis using True j by (simp add: waitForShutdown_def)
next
  case False
  then have "wait_loop flag 0 = None" using wait_loop_first [of flag 0] by (cases "wait_loop flag 0") auto
  then show ?thesis using False by (simp add: waitForShutdown_def)
qed

text \<open>An arrival that asks for the shutdown, and one that leaves the process running.\<close>

definition stops :: "int list \<Rightarrow> arrival \<Rightarrow> bool" where
  "stops graceful x \<longleftrightarrow> x = Request \<or> (\<exists>s. x = Signal s \<and> s \<in> set graceful)"

definition harmless :: "int list \<Rightarrow> int list \<Rightarrow> arrival \<Rightarrow> bool" where
  "harmless graceful ignored x \<longleftrightarrow> stops graceful x \<or> (\<exists>s. x = Signal s \<and> s \<in> set ignored)"

lemma installed_table:
  assumes "setup_signal_handlers ok graceful fatal ignored tab = (True, tab')"
  shows "s \<in> set graceful \<Longrightarrow> tab' s = Graceful" "s \<in> set ignored \<Longrightarrow> tab' s = Ignored" "s \<in> set fatal \<Longrightarrow> tab' s = Fatal"
    "s \<in> set ignored \<Longrightarrow> s \<notin> set graceful"
proof -
  have "distinct (graceful @ fatal @ ignored)"
    using assms setup_rejected [of graceful fatal ignored ok tab] signal_sets_pass [of graceful fatal ignored] by auto
  moreover have "tab' = (\<lambda>s. if s \<in> set ignored then Ignored else if s \<in> set fatal then Fatal else if s \<in> set graceful then Graceful else tab s)"
    using assms by (cases rule: setup_cases [of ok graceful fatal ignored tab]) simp_all
  ultimately show "s \<in> set graceful \<Longrightarrow> tab' s = Graceful" "s \<in> set ignored \<Longrightarrow> tab' s = Ignored" "s \<in> set fatal \<Longrightarrow> tab' s = Fatal"
    "s \<in> set ignored \<Longrightarrow> s \<notin> set graceful" by auto
qed

text \<open>Over harmless arrivals the object stays, and its flag says whether one asked for the shutdown.\<close>

lemma arrivals_run:
  assumes "setup_signal_handlers ok graceful fatal ignored tab = (True, tab')" "\<forall>x \<in> set xs. harmless graceful ignored x"
    and "g_app_instance a = Some this" "alive a this"
  shows "\<exists>a'. arrivals tab' this xs a = Runs a' \<and> g_app_instance a' = Some this \<and> alive a' this
      \<and> (isShutdownRequested this a' \<longleftrightarrow> isShutdownRequested this a \<or> (\<exists>x \<in> set xs. stops graceful x))"
  using assms(2-4)
proof (induction xs arbitrary: a)
  case (Cons x xs)
  note table = installed_table [OF assms(1)]
  have "\<exists>a1. arrive tab' this x a = Runs a1 \<and> g_app_instance a1 = Some this \<and> alive a1 this
      \<and> (isShutdownRequested this a1 \<longleftrightarrow> isShutdownRequested this a \<or> stops graceful x)"
  proof (cases x)
    case (Signal s)
    show ?thesis
    proof (cases "s \<in> set graceful")
      case True
      then show ?thesis using Signal Cons.prems(2,3) table(1)
        by (simp add: take_signal_def graceful_signal_handler_def requestShutdown_def isShutdownRequested_def stops_def)
    next
      case False
      then have "s \<in> set ignored" using Signal Cons.prems(1) by (simp add: harmless_def stops_def)
      then show ?thesis using False Signal Cons.prems(2,3) table(2) by (simp add: take_signal_def stops_def)
    qed
  qed (use Cons.prems in \<open>simp add: requestShutdown_def isShutdownRequested_def stops_def\<close>)
  then obtain a1 where a1: "arrive tab' this x a = Runs a1" "g_app_instance a1 = Some this" "alive a1 this"
    "isShutdownRequested this a1 \<longleftrightarrow> isShutdownRequested this a \<or> stops graceful x" by blast
  with Cons.IH [of a1] Cons.prems(1) show ?case by auto
qed simp

lemma seen_iff:
  assumes "setup_signal_handlers ok graceful fatal ignored tab = (True, tab')" "\<forall>n. \<forall>x \<in> set (batches n). harmless graceful ignored x"
  shows "seen tab' this batches (Application_new this a) n \<longleftrightarrow> (\<exists>i \<le> n. \<exists>x \<in> set (batches i). stops graceful x)"
proof -
  have "\<forall>x \<in> set (until_look batches n). harmless graceful ignored x" using assms(2) by (auto simp: until_look_def)
  from arrivals_run [OF assms(1) this, of "Application_new this a" this] obtain a' where
    "arrivals tab' this (until_look batches n) (Application_new this a) = Runs a'"
    "isShutdownRequested this a' \<longleftrightarrow> (\<exists>x \<in> set (until_look batches n). stops graceful x)"
    by (auto simp: Application_new_def isShutdownRequested_def)
  moreover have "set (until_look batches n) = (\<Union>i \<le> n. set (batches i))"
    by (simp add: until_look_def atMost_atLeast0 atLeastLessThanSuc_atLeastAtMost del: upt_Suc)
  ultimately show ?thesis by (auto simp: seen_def)
qed

text \<open>The first look after an arrival that asks for the shutdown.\<close>

lemma first_seen:
  assumes "setup_signal_handlers ok graceful fatal ignored tab = (True, tab')" "\<forall>n. \<forall>x \<in> set (batches n). harmless graceful ignored x"
    and "\<exists>x \<in> set (batches n). stops graceful x" "\<forall>i < n. \<forall>x \<in> set (batches i). \<not> stops graceful x"
  shows "waitForShutdown poll (seen tab' this batches (Application_new this a)) = Some (n, effective_poll poll)"
proof -
  note seen = seen_iff [OF assms(1,2), of this a]
  have "(LEAST n. seen tab' this batches (Application_new this a) n) = n"
  proof (rule Least_equality)
    show "seen tab' this batches (Application_new this a) n" using assms(3) unfolding seen by blast
    show "n \<le> m" if "seen tab' this batches (Application_new this a) m" for m
      using that assms(4) unfolding seen by (meson le_trans linorder_not_less)
  qed
  moreover have "\<exists>n. seen tab' this batches (Application_new this a) n" using assms(3) unfolding seen by blast
  ultimately show ?thesis by (simp add: wait_is_first_look)
qed

section \<open>Properties\<close>

text \<open>C34. 
  While only installed, non-fatal signals and requests arrive, the wait of a service ends exactly when a graceful
  signal or a request for the shutdown arrives, at the first look after it, however many signals come and in
  whatever bursts; without one it never returns.
\<close>

theorem wait_ends_iff_stop_arrives:
  assumes "setup_signal_handlers ok graceful fatal ignored tab = (True, tab')"
    and "\<forall>n. \<forall>x \<in> set (batches n). harmless graceful ignored x"
  shows "waitForShutdown poll (seen tab' this batches (Application_new this a)) =
     (if \<exists>n. \<exists>x \<in> set (batches n). stops graceful x
      then Some (LEAST n. \<exists>x \<in> set (batches n). stops graceful x, effective_poll poll) else None)"
proof (cases "\<exists>n. \<exists>x \<in> set (batches n). stops graceful x")
  case True
  let ?n = "LEAST n. \<exists>x \<in> set (batches n). stops graceful x"
  have "\<exists>x \<in> set (batches ?n). stops graceful x" using True by (rule LeastI_ex)
  moreover have "\<forall>i < ?n. \<forall>x \<in> set (batches i). \<not> stops graceful x"
    using not_less_Least [where P = "\<lambda>n. \<exists>x \<in> set (batches n). stops graceful x"] by blast
  ultimately have "waitForShutdown poll (seen tab' this batches (Application_new this a)) = Some (?n, effective_poll poll)"
    by (rule first_seen [OF assms])
  then show ?thesis using True by (simp only: if_True)
next
  case False
  then show ?thesis using seen_iff [OF assms, of this a] by (simp add: wait_is_first_look)
qed


text \<open>
  No exception leaves \<open>main\<close>, and it returns what \<open>execute\<close> returned when every step did; everything else is minus
  one.  The text on the error stream tells the exceptions \<open>run\<close> does not catch from the failures it handled.
\<close>

theorem main_result:
  "fst (app_main constructed (run_steps loaded logging signals h)) =
     (if constructed = Returns () then case expected_result loaded logging signals h of Some r \<Rightarrow> r | None \<Rightarrow> - 1 else - 1)
   \<and> (fst (snd (app_main constructed (run_steps loaded logging signals h))) = []
       \<longleftrightarrow> constructed = Returns () \<and> expected_result loaded logging signals h \<noteq> None)"
proof -
  have "fst (run_steps loaded logging signals h) = expected_result loaded logging signals h" by (rule run_result)
  then show ?thesis by (cases constructed) (auto simp: app_main_def split: option.splits)
qed

text \<open>A fatal signal ends the process at once, whatever came before it.\<close>

theorem fatal_signal_ends_process:
  assumes "setup_signal_handlers ok graceful fatal ignored tab = (True, tab')"
    and "\<forall>x \<in> set xs. harmless graceful ignored x" "s \<in> set fatal"
  shows "arrivals tab' this (xs @ Signal s # ys) (Application_new this a) = Over (Exit (128 + s))"
proof -
  have split: "arrivals tab' this (xs @ zs) b = (case arrivals tab' this xs b of Runs b' \<Rightarrow> arrivals tab' this zs b' | over \<Rightarrow> over)"
    for zs b by (induction xs arbitrary: b) (auto split: signal_outcome.split)
  obtain a' where "arrivals tab' this xs (Application_new this a) = Runs a'"
    using arrivals_run [OF assms(1,2), of "Application_new this a" this] by (auto simp: Application_new_def)
  then show ?thesis using installed_table(3) [OF assms(1,3)] by (simp add: split take_signal_def fatal_signal_handler_def)
qed

text \<open>
  The pointer is not taken back: once \<open>main\<close> has destroyed the application the handlers are still installed,
  and the next graceful signal writes to the object that is gone.  A second application of the process takes the
  signals of the first, whose wait no signal ends any more.
\<close>

theorem late_signal_writes_dead_object:
  assumes "tab s = Graceful"
  shows "take_signal tab s (Application_destroy this (Application_new this a)) = WildWrite"
  using assms by (simp add: take_signal_def graceful_signal_handler_def Application_destroy_def Application_new_def)

theorem second_application_takes_signals:
  assumes "tab s = Graceful" "other \<noteq> this"
  shows "\<exists>a'. take_signal tab s (Application_new other (Application_new this a)) = Runs a'
      \<and> isShutdownRequested other a' \<and> \<not> isShutdownRequested this a'"
  using assms by (simp add: take_signal_def graceful_signal_handler_def requestShutdown_def isShutdownRequested_def Application_new_def)

section \<open>Witnesses\<close>

text \<open>A service that gets an ignored signal, then two graceful ones at once.\<close>

definition default_table :: "int \<Rightarrow> disposition" where
  "default_table = snd (setup_signal_handlers (\<lambda>s. True) gracefulSignals fatalSignals ignoredSignals (\<lambda>s. Default))"

definition term_after_pipe :: "nat \<Rightarrow> arrival list" where
  "term_after_pipe n = (if n = 1 then [Signal SIGPIPE] else if n = 2 then [Signal SIGTERM, Signal SIGINT] else [])"

lemma default_install:
  "setup_signal_handlers (\<lambda>s. True) gracefulSignals fatalSignals ignoredSignals (\<lambda>s. Default) = (True, default_table)"
proof -
  have "fst (setup_signal_handlers (\<lambda>s. True) gracefulSignals fatalSignals ignoredSignals (\<lambda>s. Default))" by code_simp
  then show ?thesis unfolding default_table_def
    by (cases "setup_signal_handlers (\<lambda>s. True) gracefulSignals fatalSignals ignoredSignals (\<lambda>s. Default)") simp
qed

lemma term_after_pipe_harmless: "\<forall>n. \<forall>x \<in> set (term_after_pipe n). harmless gracefulSignals ignoredSignals x"
  by (auto simp: term_after_pipe_def harmless_def stops_def gracefulSignals_def ignoredSignals_def)

lemma term_after_pipe_stops: "(\<exists>x \<in> set (term_after_pipe n). stops gracefulSignals x) \<longleftrightarrow> n = 2"
  by (auto simp: term_after_pipe_def stops_def gracefulSignals_def SIGPIPE_def SIGTERM_def SIGINT_def)

theorem wait_ends_iff_stop_arrives_witness:
  "waitForShutdown 0 (seen default_table 7 term_after_pipe (Application_new 7 no_apps)) = Some (2, 100)"
  using wait_ends_iff_stop_arrives [OF default_install term_after_pipe_harmless, of 0 7 no_apps]
  by (simp add: term_after_pipe_stops effective_poll_def Least_equality)


end
