(* ===== verification/Spec2Isabelle.thy ===== *)
theory Spec2Isabelle
  imports Utils Store_Concurrent Store_Handle Store_Lock_Calls Store_Names Sha256 Ipc_Protocol Ipc_Base64 Ipc_Accept Ipc_Lifetime Ipc_Start_Race
    Ipc_Reentry Ipc_Sharing Ipc_Handle Config Lifecycle
begin

text \<open>
  A verification library for the T-Box framework (the C++ sources under \<open>src/\<close> and \<open>include/\<close>): IPC over Unix
  sockets, a key-value store on files, layered YAML configuration, structured logging, SHA-256, small utilities
  and the application's life cycle.

  \<^bold>\<open>The program's parts and where they are modelled.\<close>  A service derives from \<open>hwyz::Application\<close>; \<open>run\<close> loads the
  configuration, sets up logging from it, installs signal handlers and calls the service's hooks.  A service talks
  to others through an IPC server and clients, keeps values in a store, and logs through the registry, to which
  the IPC code and spdlog are bridged.

  \<^item> \<open>Prelude\<close>: the \<open>named_theorems\<close> collections, lemmas on lists, characters, decimal numbers and the sorted
    association lists that stand for \<open>std::map\<close>, and the interface \<open>keyed\<close> they satisfy.
  \<^item> \<open>Ipc_Protocol\<close>, \<open>Ipc_Base64\<close> (\<open>src/ipc/ipc_protocol.cpp\<close>): headers, frames, \<open>readExact\<close> and \<open>writeAll\<close> over
    scripts of the kernel's answers, and the Base64 coder.  The locale \<open>frame_channel\<close> is the contract of a kind
    of frame; requests, responses and events interpret it.
  \<^item> \<open>Ipc_Server\<close>, \<open>Ipc_Accept\<close>, \<open>Ipc_Lifetime\<close>, \<open>Ipc_Start_Race\<close> (\<open>src/ipc/ipc_server.cpp\<close>): \<open>start\<close>, \<open>stop\<close>,
    subscriptions, pushes and \<open>connectionLoop\<close> as functions on the server's fields; accepting, leaving, notifying,
    closing and pushing threads as the steps \<open>srv_step\<close>; the accept thread as a function whose rounds are such
    steps; the server object over any number of starts and stops to its destruction; and \<open>start\<close> and \<open>stop\<close>
    called by several threads.
  \<^item> \<open>Ipc_Client\<close>, \<open>Ipc_Subscription\<close>, \<open>Ipc_Reentry\<close>, \<open>Ipc_Sharing\<close>, \<open>Ipc_Handle\<close> (\<open>src/ipc/ipc_client.cpp\<close>): calls, reconnects,
    backoff and the rounds of a subscription as functions; the two threads of a subscription as the steps
    \<open>sub_step\<close>; the mutexes of \<open>cancel\<close>, \<open>disconnect\<close> and \<open>subscribe\<close> around a callback that calls back; and a
    call between the \<open>connect\<close> and \<open>disconnect\<close> of other threads as the steps \<open>conn_step\<close>, which the function
    \<open>call\<close> refines; and the movable handles that own subscriptions.
  \<^item> \<open>Store_Io\<close> (\<open>store_path_resolver.cpp\<close>, \<open>store_atomic_writer.cpp\<close>): paths and the atomic write over a disk that
    may lose power between any two system calls.  \<open>Store_Lock\<close> (\<open>store_file_lock.cpp\<close>): \<open>flock\<close> on a kernel of
    inodes, open descriptions and owners; \<open>Store_Lock_Calls\<close>: its system calls interleaved between processes.
    \<open>Store_Names\<close> (also \<open>include/persist_key.h\<close>): which file a key names when the kernel walks its path.
    \<open>Store\<close> (\<open>store.cpp\<close>, serializer, flush policy): the operations of a store; the locales \<open>value_codec\<close> and \<open>cell_backend\<close> are the contracts of a value type and of the writer.
    \<open>Store_Handle\<close>: the movable variables of the public class.  \<open>Store_Concurrent\<close>: several processes on one store,
    one call of the lock or the writer at a time.
  \<^item> \<open>Config_Tree\<close> (\<open>src/config/config_merger.cpp\<close>, \<open>config_validator.cpp\<close>, \<open>immutable_config_view.cpp\<close>): deep
    merge, validation and reading of YAML trees.  \<open>Config\<close> (\<open>path_resolver.cpp\<close>, \<open>config_manager.cpp\<close>): finding
    and loading the layers.
  \<^item> \<open>Log_Fields\<close> (levels, fields, filter, redactor, enricher), \<open>Log_Format\<close> (JSON and standard lines),
    \<open>Log_Dispatch\<close> (the asynchronous queue and its threads), \<open>Log_Sinks\<close> (console, rolling files, fallback),
    \<open>Log_Config\<close> (the logging section of the configuration), \<open>Log_Logger\<close> (registry, loggers, contexts, flush,
    fatal, shutdown) and \<open>Log_Adapters\<close> (spdlog, IPC and emergency bridges): \<open>src/log/\<close>, \<open>src/ipc/ipc_log_adapter.cpp\<close>.
  \<^item> \<open>Sha256\<close> (\<open>src/hash/sha256.cpp\<close>), \<open>Utils\<close> (\<open>src/utils.cpp\<close>).
  \<^item> \<open>Signals\<close>, \<open>Application\<close>, \<open>Lifecycle\<close> (\<open>src/application.cpp\<close>, \<open>include/application.h\<close>): signal sets and handlers,
    the shutdown wait, \<open>buildLogConfig\<close>, \<open>setup_logging\<close>, \<open>load_config\<close> and \<open>run\<close>; \<open>main\<close>, the object the handlers
    write to, and signals and requests that arrive during the wait.
  \<^item> This theory: what spans components, from a call to its handler and back, from a push to the subscriber's
    callback, from the configuration files to what the logger filters, and from a digest to its hex text.

  \<^bold>\<open>How state and operations correspond.\<close>  A class is a record of its fields with the fields' names, a method a
  function from the state to its result and the new state, an enumeration a datatype.  Exceptions and error
  returns are values (\<open>option\<close>, a sum, or a datatype with the exits); machine integers are words where they wrap.
  What the kernel, the C library, OpenSSL, yaml-cpp, spdlog or the handlers answer is an argument: a script of
  socket events, a record of outcomes, a record of library functions.  Threads are step relations with the shared
  state in one record; what other threads do during a sleep is a function.  Names that clash with HOL or with each
  other carry a prefix of their class (\<open>AtomicWriter_write\<close>, \<open>FileLock_acquire\<close>, \<open>logger_log\<close>).

  \<^bold>\<open>What the lemmas show.\<close>  For the formats, round trips and equivalence with a reference definition (FIPS 180-4,
  RFC 4648).  For the store, that the disk invariant is kept by every system call, that power loss leaves old or
  new contents, and that concurrent processes act like whole writes of single cells.  For the threads, invariants
  of every reachable state: the bounded queue loses and reorders nothing it accepted, the server's client map, its
  descriptors and its threads agree, a subscription owns at most one socket, a cancel's join returns unless a
  callback calls back, a call stays on its own connection unless another thread disconnects the client, a lock has
  one holder unless locks are released, a destroyed server leaves nothing open.  For configuration and start-up,
  which layer decides a key, what a load reports and leaves, which hooks run after which failures, and that a
  graceful signal ends a service in order.  Theorems whose names say so (\<open>lock_unlink_race\<close>,
  \<open>slash_key_escapes\<close>, \<open>late_signal_writes_dead_object\<close>, \<open>push_to_reused_descriptor\<close>, \<open>flush_returns_before_write\<close>, \<open>high_descriptor_overflows_set\<close>, and others) show
  where the code falls short of its comments.

  \<^bold>\<open>Bounds and fuel.\<close>  No definition runs on fuel: the socket loops recurse on the rest of the script and what is
  left to transfer, the backoff and lock loops on what is left of their attempts and time, each with a proof of
  termination; loops that serve until they are told to stop recurse on the list of rounds they are given, of any
  length.  The limits in the models are the code's own: 64 lines to a batch, 107 bytes of a socket path, 1024
  descriptors in a set, 64-byte blocks.

  \<^bold>\<open>Not modelled.\<close>  The facade methods of the IPC classes that only forward to an implementation; the text printed on \<open>stderr\<close> when a
  start fails and the framework's own log calls inside IPC; buffers of the C library that a sink's flush pushes
  out; file modes, socket options and timeouts as durations (a timeout is an answer of the kernel); symbolic
  links, and different spellings of one path in the disk of \<open>Store_Io\<close>, where \<open>Store_Names\<close> shows that keys without
  a slash have only one; data races on plain fields (the registry's \<open>m_initialized\<close>, the handlers set by \<open>start\<close>);
  a floating-point \<open>double\<close> is a type parameter.  In \<open>Store_Concurrent\<close> the calls inside one lock operation are
  not interleaved; \<open>Store_Lock_Calls\<close> interleaves them and shows what two holders do to a file.  Tests, build files, scripts and documents
  are outside the library.
\<close>

section \<open>A remote call\<close>

text \<open>The response one request gets, as the client sees it.\<close>

lemma one_request_one_response:
  assumes "pending rs = encodeRequest e mid params" "length params \<le> unat maxlen"
    and "connectionLoop e maxlen fd [steady h] rs ws = (False, out, rs', ws')"
  shows "out = encodeResponse e (fst (run_handler h mid params fd)) (snd (run_handler h mid params fd))"
proof -
  have "pending rs = request_channel.encode_all e [(mid, params)] @ []"
    using assms(1) by (simp add: request_channel.encode_all_def)
  from connectionLoop_answers [OF this, where maxlen = maxlen and fd = fd and h = h and ws = ws] assms(2,3) show ?thesis
    by (simp add: answer_def split: prod.split)
qed

text \<open>C1. 
  A remote call gives the handler's result: when the client's request is written in full, the server's
  connection gets those bytes and answers in full, and the client gets the answer's bytes, in whatever pieces
  either side sends and receives, then \<open>callOnce\<close> returns what the handler made of exactly the client's
  parameters, and keeps the connection.
\<close>

theorem rpc_end_to_end:
  assumes "m_connected cl" "0 \<le> m_fd cl"
    and "writeRequest e (cl_ws cl) mid params = (True, wire, cws)"
    and "pending rs = wire" "length params \<le> unat server_max"
    and "connectionLoop e server_max fd [steady h] rs ws = (False, out, rs', ws')"
    and "pending (cl_rs cl) = out" "length (snd (run_handler h mid params fd)) \<le> unat client_max"
  shows "case callOnce e client_max io mid params cl of (result, cl') \<Rightarrow>
     result = run_handler h mid params fd \<and> m_connected cl' \<and> m_fd cl' = m_fd cl"
proof -
  have "wire = encodeRequest e mid params" using assms(3) writeAll_complete by (simp add: writeRequest_def)
  then have "out = encodeResponse e (fst (run_handler h mid params fd)) (snd (run_handler h mid params fd)) @ []"
    using one_request_one_response assms(4-6) by simp
  then obtain crs where read: "readResponse e (cl_rs cl) client_max = (Some (run_handler h mid params fd), crs)"
    using response_channel.rd_enc [of "cl_rs cl" e "fst (run_handler h mid params fd)" "snd (run_handler h mid params fd)" "[]" client_max]
      assms(7,8) by (metis append_Nil2 prod.collapse)
  have "doCall e client_max mid params cl = (True,
      cl\<lparr>cl_ws := cws, cl_sent := cl_sent cl @ [(m_fd cl, wire)], cl_rs := crs, m_lastResult := run_handler h mid params fd\<rparr>)"
    using assms(3) read by (cases "run_handler h mid params fd") (simp add: doCall_def)
  then show ?thesis using assms(1,2) by (simp add: callOnce_def getFd_def)
qed

definition echo_client :: client where
  "echo_client = client_new\<lparr>m_connected := True, m_fd := 4, cl_ws := [Taken 99],
     cl_rs := [Segment (encodeResponse LittleEndian 0 [1, 2])]\<rparr>"

definition no_io :: attempt_io where
  "no_io = \<lparr>a_socket = None, a_connect = \<lparr>c_getfl = True, c_setfl = True, c_connect = Connected, c_select = 0, c_error = 0\<rparr>,
     a_send = [], a_recv = []\<rparr>"

theorem rpc_end_to_end_witness:
  "case callOnce LittleEndian 50 no_io 7 [1, 2] echo_client of (result, cl') \<Rightarrow>
     result = run_handler (Some echo_or_throw) 7 [1, 2] 9 \<and> m_connected cl' \<and> m_fd cl' = m_fd echo_client"
proof (rule rpc_end_to_end)
  show "connectionLoop LittleEndian 50 9 [steady (Some echo_or_throw)] [Segment (encodeRequest LittleEndian 7 [1, 2])] [Taken 99]
      = (False, encodeResponse LittleEndian 0 [1, 2], [], [])" by code_simp
  show "writeRequest LittleEndian (cl_ws echo_client) 7 [1, 2] = (True, encodeRequest LittleEndian 7 [1, 2], [])"
    by code_simp
qed (simp_all add: echo_client_def client_new_def run_handler_def echo_or_throw_def)

section \<open>From a push to the callback\<close>

text \<open>The pushes of a server: the state each finds, what the kernel answers its sends, the event.\<close>

type_synonym push = "server \<times> (int \<Rightarrow> wsock) \<times> u32 \<times> byte list"

definition sent_on :: "int \<Rightarrow> bool \<times> (int \<times> byte list) list \<Rightarrow> byte list" where
  "sent_on fd r = concat (map snd (filter (\<lambda>(f, b). f = fd) (snd r)))"

fun push_bytes :: "byte_order \<Rightarrow> int \<Rightarrow> push \<Rightarrow> byte list" where
  "push_bytes e fd (sv, ws, ev, payload) = sent_on fd (pushEvent e ws ev payload sv)"

fun wanted :: "int \<Rightarrow> push \<Rightarrow> bool" where
  "wanted fd (sv, ws, ev, payload) = (case map_of (m_clients sv) fd of None \<Rightarrow> False | Some g \<Rightarrow> ev \<in> m_states sv g)"

fun push_ok :: "byte_order \<Rightarrow> u32 \<Rightarrow> int \<Rightarrow> push \<Rightarrow> bool" where
  "push_ok e maxlen fd (sv, ws, ev, payload) =
     (distinct (map fst (m_clients sv)) \<and> length payload \<le> unat maxlen
      \<and> (wanted fd (sv, ws, ev, payload) \<longrightarrow> fst (writeEvent e (ws fd) ev payload)))"

lemma filter_client:
  "distinct (map fst cs) \<Longrightarrow> filter (\<lambda>(f, g). f = fd \<and> P g) cs
     = (case map_of cs fd of None \<Rightarrow> [] | Some g \<Rightarrow> if P g then [(fd, g)] else [])"
proof (induction cs)
  case (Cons c cs)
  obtain f g where c: "c = (f, g)" by (rule prod.exhaust)
  have "f = fd \<Longrightarrow> filter (\<lambda>(f, g). f = fd \<and> P g) cs = []"
    using Cons.prems c by (auto simp: filter_empty_conv image_iff)
  with Cons c show ?case by auto
qed simp

lemma push_bytes_wanted:
  assumes "push_ok e maxlen fd p"
  shows "push_bytes e fd p = (if wanted fd p then encodeEvent e (fst (snd (snd p))) (snd (snd (snd p))) else [])"
proof -
  obtain sv ws ev payload where p: "p = (sv, ws, ev, payload)" by (metis prod.exhaust)
  have d: "distinct (map fst (m_clients sv))" using assms p by simp
  have bytes: "wanted fd p \<Longrightarrow> fst (snd (writeEvent e (ws fd) ev payload)) = encodeEvent e ev payload"
  proof -
    assume "wanted fd p"
    then have "fst (writeAll (ws fd) (encodeEvent e ev payload))"
      using assms p by (simp add: writeEvent_def del: wanted.simps)
    then show "fst (snd (writeEvent e (ws fd) ev payload)) = encodeEvent e ev payload"
      using writeAll_complete [of "ws fd" "encodeEvent e ev payload"]
      by (cases "writeAll (ws fd) (encodeEvent e ev payload)") (simp add: writeEvent_def)
  qed
  have "filter (\<lambda>(f, b). f = fd) (snd (pushEvent e ws ev payload sv))
      = map (\<lambda>(f, g). (f, fst (snd (writeEvent e (ws f) ev payload)))) (filter (\<lambda>(f, g). f = fd \<and> ev \<in> m_states sv g) (m_clients sv))"
    unfolding pushEvent_def pushEvent_fold push_targets_def
    by (simp add: filter_map comp_def case_prod_unfold conj_commute)
  then show ?thesis
    using bytes by (auto simp: p sent_on_def filter_client [OF d] split: option.splits)
qed

text \<open>C5. 
  A subscriber gets its events: over any sequence of pushes, the server's state changing between them as it may,
  a client whose frames go out in full hands its callback exactly the events that were subscribed on its
  connection when they were pushed, each once and in the order of the pushes, in whatever pieces they arrive.
\<close>

theorem subscription_end_to_end:
  assumes "list_all (push_ok e maxlen fd) pushes"
    and "pending rs = concat (map (push_bytes e fd) pushes)"
  shows "eventLoop e maxlen (replicate (length (filter (wanted fd) pushes)) True) rs
     = map (\<lambda>(sv, ws, event). event) (filter (wanted fd) pushes)"
proof -
  let ?seen = "map (\<lambda>(sv, ws, event). event) (filter (wanted fd) pushes)"
  have "concat (map (push_bytes e fd) ps) = event_channel.encode_all e (map (\<lambda>(sv, ws, event). event) (filter (wanted fd) ps))"
    if "list_all (push_ok e maxlen fd) ps" for ps
    using that
    by (induction ps) (auto simp: push_bytes_wanted event_channel.encode_all_def case_prod_unfold
      simp del: push_bytes.simps push_ok.simps wanted.simps)
  then have "pending rs = event_channel.encode_all e ?seen @ []" using assms by simp
  moreover have "\<forall>(k, body) \<in> set ?seen. length body \<le> unat maxlen"
    using assms(1) by (fastforce simp: list_all_iff)
  ultimately show ?thesis
    using event_channel.read_frames_stream [of rs e ?seen "[]" maxlen 0] by (simp add: eventLoop_frames)
qed


definition watched_server :: server where
  "watched_server = running_server\<lparr>m_clients := [(8, 1), (9, 0)], m_states := (\<lambda>_. {5})(1 := {6})\<rparr>"

definition three_pushes :: "push list" where
  "three_pushes = [(watched_server, \<lambda>_. [Taken 3, Taken 99], 5, [1, 2]), (watched_server, \<lambda>_. [SendFail], 6, [7]),
     (watched_server, \<lambda>_. [Taken 99], 5, [3])]"

theorem subscription_end_to_end_witness:
  "eventLoop LittleEndian 64 [True, True] [Segment (concat (map (push_bytes LittleEndian 9) three_pushes))] = [(5, [1, 2]), (5, [3])]"
proof -
  have all: "list_all (push_ok LittleEndian 64 9) three_pushes" by code_simp
  have "filter (wanted 9) three_pushes = [three_pushes ! 0, three_pushes ! 2]"
    by (simp add: three_pushes_def watched_server_def)
  with subscription_end_to_end [OF all, of "[Segment (concat (map (push_bytes LittleEndian 9) three_pushes))]"]
  show ?thesis by (simp add: three_pushes_def)
qed

text \<open>
  An idle connection is torn down although its peer is alive: the first receive that times out ends the server's
  loop, and with it the connection's subscriptions, and the client's event loop, whatever is pushed afterwards.
  A subscriber sends nothing after its handshake, so its server side always times out.
\<close>

theorem idle_connection_dropped:
  "connectionLoop e maxlen fd (steady h # envs) (RecvFail # rs) ws = (True, [], rs, ws)
   \<and> eventLoop e maxlen acts (RecvFail # rs) = []"
proof -
  have fails: "readExact (RecvFail # rs) header_size = (False, [], rs)"
    by (simp add: readExact.simps header_size_def)
  then have "readEvent e (RecvFail # rs) maxlen = (None, rs)" "readRequest e (RecvFail # rs) maxlen = (None, rs)"
    by (simp_all add: readEvent_def readRequest_def)
  then show ?thesis by (cases acts) (simp_all add: steady_def)
qed

section \<open>Digests in hexadecimal\<close>

text \<open>The two hex printers agree.\<close>

lemma hex_of_bytes: "concat (map hex_of_byte bs) = bytes_to_hex bs False"
proof -
  have "unat (drop_bit 4 b AND 0x0f) = unat (drop_bit 4 b)" for b :: byte
  proof -
    have "unat (drop_bit 4 b) = unat b div 16" by (simp add: drop_bit_eq_div unat_div_distrib)
    then show ?thesis by (simp only: nibble_high)
  qed
  then have "hex_of_byte = (\<lambda>b. [''0123456789abcdef'' ! unat (drop_bit 4 b), ''0123456789abcdef'' ! unat (b AND 0xF)])"
    by (intro ext) (simp only: hex_of_byte_def kHexTable_def)
  then show ?thesis by (simp only: bytes_to_hex_def Let_def if_False)
qed

text \<open>
  The hexadecimal digest is the digest: reading what \<open>sha256_hex\<close> returns with \<open>hex_to_bytes\<close> gives the
  bytes \<open>sha256\<close> returns, and \<open>sha256_hex\<close> fails exactly when \<open>sha256\<close> does.
\<close>

theorem digest_hex_reads_back:
  "case sha256 garbage input of
     Inl err \<Rightarrow> sha256_hex garbage input = Inl err
   | Inr digest \<Rightarrow> \<exists>s. sha256_hex garbage input = Inr s \<and> hex_to_bytes s = Inr digest"
  by (auto simp: sha256_hex_of_digest hex_of_bytes hex_roundtrip_lemma split: sum.split)
    (simp add: sha256_hex_def)

section \<open>From the configuration files to the log\<close>



definition filter_texts :: "nat yaml_cpp" where
  "filter_texts = files_lib sample_files both_yaml"

definition filter_config :: LogConfig where
  "filter_config = default_config\<lparr>cfg_level := kDebug\<rparr>"

definition filter_registry :: registry where
  "filter_registry = snd (init good_disk 0 1 ''svc'' filter_config idle_registry)"

lemma filter_config_built: "buildLogConfig filter_texts both_yaml ''svc'' = Inr filter_config"
proof -
  have "buildLogConfig filter_texts both_yaml ''svc'' = Inr (default_config\<lparr>cfg_level := logLevelFromString ''debug''\<rparr>)"
    by (simp add: buildLogConfig_def subscript_def both_yaml_def yaml_of_def build_log_def on_key_def set_to_def or_else_def
        filter_texts_def files_lib_def still_def)
  moreover have "logLevelFromString ''debug'' = kDebug" by code_simp
  ultimately show ?thesis by (simp add: filter_config_def)
qed


end
